(* ===== verification/Prelude.thy ===== *)
theory Prelude
  imports Main "HOL-Library.Word" "HOL-Library.Multiset" "HOL-Library.AList"
begin

text \<open>
  Shared vocabulary of the development: the machine integer types of the code, the fixed-size
  byte blobs of \<^verbatim>\<open>src/src/crypto\<close> (keys, hashes, signatures), the constants of
  \<^verbatim>\<open>src/src/cryptonote_config.h\<close> that several components read, the collections of rewrite
  rules the component proofs draw on, and generic facts on words, lists and association lists.

  Unsigned fields of the code are words of the same width, so that their arithmetic wraps as
  it does in the program.  Sizes of containers are \<^typ>\<open>nat\<close>.  A 32-byte blob is a 256-bit word
  read most significant byte first: \<^verbatim>\<open>memcmp\<close> order on the blob is then \<open><\<close> on the word, and
  the all-zero blob (\<^verbatim>\<open>null_pkey\<close>, \<^verbatim>\<open>null_hash\<close>) is \<open>0\<close>.
\<close>

section \<open>Types\<close>

type_synonym u8 = "8 word"
type_synonym u16 = "16 word"
type_synonym u32 = "32 word"
type_synonym u64 = "64 word"
type_synonym i64 = "64 word"

type_synonym public_key = "256 word"
type_synonym secret_key = "256 word"
type_synonym key_image = "256 word"
type_synonym hash256 = "256 word"
type_synonym signature = "512 word"

abbreviation UINT64_MAX :: u64 where "UINT64_MAX \<equiv> - 1"
abbreviation UINT32_MAX :: u32 where "UINT32_MAX \<equiv> - 1"
abbreviation null_pkey :: public_key where "null_pkey \<equiv> 0"
abbreviation null_hash :: hash256 where "null_hash \<equiv> 0"

section \<open>Rule collections\<close>

named_theorems const_defs \<open>definitions of configuration constants\<close>
named_theorems no_wrap \<open>unsigned arithmetic that does not wrap, read as natural numbers\<close>

section \<open>Words as natural numbers\<close>

lemma unat_lt64: "unat (x :: u64) < 18446744073709551616"
  using unsigned_less [of x, where 'a = nat] by simp

lemma unat_UINT64_MAX: "unat UINT64_MAX = 18446744073709551615"
  by (simp add: unsigned_minus_1_eq_mask mask_eq_exp_minus_1)

lemma unat_add_no_wrap [no_wrap]:
  "unat (a :: u64) + unat b < 2 ^ 64 \<Longrightarrow> unat (a + b) = unat a + unat b"
  by (simp add: unat_word_ariths)

lemma unat_sub_no_wrap [no_wrap]:
  "unat (b :: u64) \<le> unat a \<Longrightarrow> unat (a - b) = unat a - unat b"
  by (simp add: unat_sub_if')

lemma unat_mul_no_wrap [no_wrap]:
  "unat (a :: u64) * unat b < 2 ^ 64 \<Longrightarrow> unat (a * b) = unat a * unat b"
  by (simp add: unat_word_ariths)

lemma unat_div_word: "unat ((a :: u64) div b) = unat a div unat b"
  by (rule unat_div)

lemma unat_mod_word: "unat ((a :: u64) mod b) = unat a mod unat b"
  by (rule unat_mod)

lemma unat_of_nat_u64: "n < 2 ^ 64 \<Longrightarrow> unat (of_nat n :: u64) = n"
  by (simp add: unat_of_nat)

lemma unat_drop_bit_u64: "unat (drop_bit n (x :: u64)) = unat x div 2 ^ n"
proof -
  have "unat (drop_bit n x) = drop_bit n (take_bit 64 (unat x))"
    using unsigned_drop_bit_eq [of n x, where 'a = nat] by simp
  also have "\<dots> = unat x div 2 ^ n"
    using unat_lt64 [of x] by (simp add: drop_bit_eq_div [of n "unat x"] take_bit_nat_eq_self)
  finally show ?thesis .
qed

lemma unat_push_bit_u64: "unat (push_bit n (x :: u64)) = (unat x * 2 ^ n) mod 2 ^ 64"
proof -
  have "unat (push_bit n x) = take_bit 64 (push_bit n (unat x))"
    using unsigned_push_bit_eq [of n x, where 'a = nat] by simp
  also have "\<dots> = (unat x * 2 ^ n) mod 2 ^ 64"
    by (simp add: push_bit_eq_mult [of n "unat x"] take_bit_eq_mod [of 64 "unat x * 2 ^ n"])
  finally show ?thesis .
qed

lemma unat_max_u64: "unat (max (a :: u64) b) = max (unat a) (unat b)"
  by (simp add: max_def word_le_nat_alt)

lemma unat_min_u64: "unat (min (a :: u64) b) = min (unat a) (unat b)"
  by (simp add: min_def word_le_nat_alt)

lemma nat_div_eq_iff:
  fixes a q w :: nat
  assumes "0 < w"
  shows "a div w = q \<longleftrightarrow> q * w \<le> a \<and> a < (q + 1) * w"
proof
  assume "a div w = q"
  then show "q * w \<le> a \<and> a < (q + 1) * w"
    using div_times_less_eq_dividend [of a w] dividend_less_div_times [OF assms, of a] by auto
next
  assume "q * w \<le> a \<and> a < (q + 1) * w"
  then show "a div w = q"
    by (intro div_nat_eqI) (simp_all add: mult.commute)
qed

section \<open>Sizes of containers\<close>

text \<open>Subtraction of \<^verbatim>\<open>size_t\<close> values, which wraps below zero.\<close>

definition size_sub :: "nat \<Rightarrow> nat \<Rightarrow> nat" where
  "size_sub a b = (if b \<le> a then a - b else 2 ^ 64 + a - b)"

lemma size_sub_le [simp]: "b \<le> a \<Longrightarrow> size_sub a b = a - b"
  by (simp add: size_sub_def)

section \<open>Bytes of fixed-size blobs\<close>

text \<open>Byte \<open>j\<close> of a 32-byte blob, and a little-endian 64-bit read.\<close>

definition blob_byte :: "256 word \<Rightarrow> nat \<Rightarrow> u8" where
  "blob_byte b j = ucast (drop_bit (8 * (31 - j)) b)"

definition u64_of_le :: "u8 list \<Rightarrow> u64" where
  "u64_of_le bs = foldr (\<lambda>b acc. ucast b + 256 * acc) bs 0"

definition hash_limb :: "hash256 \<Rightarrow> nat \<Rightarrow> u64" where
  "hash_limb h i = u64_of_le (map (blob_byte h) [8 * i ..< 8 * i + 8])"

section \<open>Heights of a loop\<close>

text \<open>The values a 64-bit counter takes from \<open>h\<close> up to, and without, \<open>e\<close>.\<close>

definition heights_between :: "u64 \<Rightarrow> u64 \<Rightarrow> u64 list" where
  "heights_between h e = map of_nat [unat h ..< unat e]"

lemma next_obligations_height: "(h :: u64) < e \<Longrightarrow> unat (h + 1) = unat h + 1"
  using unat_add_no_wrap [of h 1] unat_lt64 [of e] by (simp add: word_less_nat_alt)

lemma length_heights_between: "length (heights_between h e) = unat e - unat h"
  by (simp add: heights_between_def)

lemma heights_between_step: "h < e \<Longrightarrow> heights_between h e = h # heights_between (h + 1) e"
  by (simp add: heights_between_def word_less_nat_alt upt_conv_Cons next_obligations_height [of h e])

end
