(* ===== verification/Config.thy ===== *)
theory Config
  imports Prelude
begin

text \<open>
  Enumerations and configuration constants: the network types and network versions of
  \<^verbatim>\<open>src/src/cryptonote_config.h\<close>, the units of \<^verbatim>\<open>src/src/sispop_economy.h\<close>, and the service node
  constants of \<^verbatim>\<open>src/src/cryptonote_core/service_node_rules.h\<close>.

  Enumerations with a fixed underlying type can hold any value of that type when they come from
  the network, so they have a constructor for the values without a name.  The constants have the
  values of a build without integration test hooks.
\<close>

section \<open>Networks and network versions\<close>

datatype network_type = MAINNET | TESTNET | STAGENET | FAKECHAIN | UNDEFINED

definition network_version_7 :: u8 where [const_defs]: "network_version_7 = 7"
definition network_version_8 :: u8 where [const_defs]: "network_version_8 = 8"
definition network_version_9_service_nodes :: u8 where [const_defs]: "network_version_9_service_nodes = 9"
definition network_version_10_bulletproofs :: u8 where [const_defs]: "network_version_10_bulletproofs = 10"
definition network_version_11_infinite_staking :: u8 where [const_defs]: "network_version_11_infinite_staking = 11"
definition network_version_12_checkpointing :: u8 where [const_defs]: "network_version_12_checkpointing = 12"
definition network_version_13_enforce_checkpoints :: u8 where [const_defs]: "network_version_13_enforce_checkpoints = 13"
definition network_version_14_blink :: u8 where [const_defs]: "network_version_14_blink = 14"
definition network_version_15_lns :: u8 where [const_defs]: "network_version_15_lns = 15"
definition network_version_16 :: u8 where [const_defs]: "network_version_16 = 16"
definition network_version_17 :: u8 where [const_defs]: "network_version_17 = 17"
definition network_version_18 :: u8 where [const_defs]: "network_version_18 = 18"

section \<open>Units and block times\<close>

definition COIN :: u64 where [const_defs]: "COIN = 1000000000"
definition STAKING_PORTIONS :: u64 where [const_defs]: "STAKING_PORTIONS = 0xfffffffffffffffc"
definition MAX_NUMBER_OF_CONTRIBUTORS :: nat where [const_defs]: "MAX_NUMBER_OF_CONTRIBUTORS = 4"
definition MIN_PORTIONS :: u64 where [const_defs]: "MIN_PORTIONS = STAKING_PORTIONS div 4"
definition STAKING_REQUIREMENT_LOCK_BLOCKS_EXCESS :: u64 where
  [const_defs]: "STAKING_REQUIREMENT_LOCK_BLOCKS_EXCESS = 20"
definition STAKING_AUTHORIZATION_EXPIRATION_WINDOW :: u64 where
  [const_defs]: "STAKING_AUTHORIZATION_EXPIRATION_WINDOW = 60 * 60 * 24 * 7 * 2"
definition CRYPTONOTE_MAX_BLOCK_NUMBER :: u64 where [const_defs]: "CRYPTONOTE_MAX_BLOCK_NUMBER = 500000000"
definition DIFFICULTY_TARGET_V2 :: u64 where [const_defs]: "DIFFICULTY_TARGET_V2 = 120"
definition BLOCKS_EXPECTED_IN_HOURS :: "u64 \<Rightarrow> u64" where
  [const_defs]: "BLOCKS_EXPECTED_IN_HOURS val = ((60 * 60) div DIFFICULTY_TARGET_V2) * val"
definition BLOCKS_EXPECTED_IN_DAYS :: "u64 \<Rightarrow> u64" where
  [const_defs]: "BLOCKS_EXPECTED_IN_DAYS val = BLOCKS_EXPECTED_IN_HOURS 24 * val"

definition UPTIME_PROOF_BASE_MINUTE :: u64 where [const_defs]: "UPTIME_PROOF_BASE_MINUTE = 60"
definition UPTIME_PROOF_BUFFER_IN_SECONDS :: u64 where [const_defs]: "UPTIME_PROOF_BUFFER_IN_SECONDS = 5 * 60"
definition UPTIME_PROOF_FREQUENCY_IN_SECONDS :: u64 where
  [const_defs]: "UPTIME_PROOF_FREQUENCY_IN_SECONDS = 60 * UPTIME_PROOF_BASE_MINUTE"
definition UPTIME_PROOF_MAX_TIME_IN_SECONDS :: u64 where
  [const_defs]: "UPTIME_PROOF_MAX_TIME_IN_SECONDS =
    UPTIME_PROOF_FREQUENCY_IN_SECONDS * 2 + UPTIME_PROOF_BUFFER_IN_SECONDS"

section \<open>Service node constants\<close>

text \<open>Credits are signed; all values that occur are far below \<open>2 ^ 63\<close>, so they are integers here.\<close>

definition DECOMMISSION_CREDIT_PER_DAY :: int where
  [const_defs]: "DECOMMISSION_CREDIT_PER_DAY = uint (BLOCKS_EXPECTED_IN_HOURS 24) div 30"
definition DECOMMISSION_INITIAL_CREDIT :: int where
  [const_defs]: "DECOMMISSION_INITIAL_CREDIT = uint (BLOCKS_EXPECTED_IN_HOURS 2)"
definition DECOMMISSION_MAX_CREDIT :: int where
  [const_defs]: "DECOMMISSION_MAX_CREDIT = uint (BLOCKS_EXPECTED_IN_HOURS 48)"
definition DECOMMISSION_MINIMUM :: int where
  [const_defs]: "DECOMMISSION_MINIMUM = uint (BLOCKS_EXPECTED_IN_HOURS 2)"

definition CHECKPOINT_NUM_CHECKPOINTS_FOR_CHAIN_FINALITY :: u64 where
  [const_defs]: "CHECKPOINT_NUM_CHECKPOINTS_FOR_CHAIN_FINALITY = 2"
definition CHECKPOINT_INTERVAL :: u64 where [const_defs]: "CHECKPOINT_INTERVAL = 4"
definition CHECKPOINT_STORE_PERSISTENTLY_INTERVAL :: u64 where
  [const_defs]: "CHECKPOINT_STORE_PERSISTENTLY_INTERVAL = 60"
definition CHECKPOINT_VOTE_LIFETIME :: u64 where
  [const_defs]: "CHECKPOINT_VOTE_LIFETIME = CHECKPOINT_STORE_PERSISTENTLY_INTERVAL"
definition CHECKPOINT_NUM_QUORUMS_TO_PARTICIPATE_IN :: nat where
  [const_defs]: "CHECKPOINT_NUM_QUORUMS_TO_PARTICIPATE_IN = 8"
definition CHECKPOINT_MAX_MISSABLE_VOTES :: nat where [const_defs]: "CHECKPOINT_MAX_MISSABLE_VOTES = 4"

definition BLINK_QUORUM_INTERVAL :: u64 where [const_defs]: "BLINK_QUORUM_INTERVAL = 5"
definition BLINK_QUORUM_LAG :: u64 where [const_defs]: "BLINK_QUORUM_LAG = 7 * BLINK_QUORUM_INTERVAL"
definition BLINK_EXPIRY_BUFFER :: u64 where [const_defs]: "BLINK_EXPIRY_BUFFER = BLINK_QUORUM_LAG + 10"

definition STATE_CHANGE_NTH_OF_THE_NETWORK_TO_TEST :: nat where
  [const_defs]: "STATE_CHANGE_NTH_OF_THE_NETWORK_TO_TEST = 100"
definition STATE_CHANGE_MIN_NODES_TO_TEST :: nat where [const_defs]: "STATE_CHANGE_MIN_NODES_TO_TEST = 50"
definition VOTE_LIFETIME :: u64 where [const_defs]: "VOTE_LIFETIME = BLOCKS_EXPECTED_IN_HOURS 2"
definition STATE_CHANGE_MIN_VOTES_TO_CHANGE_STATE :: nat where
  [const_defs]: "STATE_CHANGE_MIN_VOTES_TO_CHANGE_STATE = 7"
definition STATE_CHANGE_QUORUM_SIZE :: nat where [const_defs]: "STATE_CHANGE_QUORUM_SIZE = 10"
definition MIN_TIME_IN_S_BEFORE_VOTING :: u64 where
  [const_defs]: "MIN_TIME_IN_S_BEFORE_VOTING = UPTIME_PROOF_MAX_TIME_IN_SECONDS"
definition CHECKPOINT_QUORUM_SIZE :: nat where [const_defs]: "CHECKPOINT_QUORUM_SIZE = 20"
definition CHECKPOINT_MIN_VOTES :: nat where [const_defs]: "CHECKPOINT_MIN_VOTES = 13"
definition BLINK_SUBQUORUM_SIZE :: nat where [const_defs]: "BLINK_SUBQUORUM_SIZE = 10"
definition BLINK_MIN_VOTES :: nat where [const_defs]: "BLINK_MIN_VOTES = 7"

definition REORG_SAFETY_BUFFER_BLOCKS_POST_HF12 :: u64 where
  [const_defs]: "REORG_SAFETY_BUFFER_BLOCKS_POST_HF12 =
    CHECKPOINT_INTERVAL * CHECKPOINT_NUM_CHECKPOINTS_FOR_CHAIN_FINALITY + (CHECKPOINT_INTERVAL - 1)"
definition REORG_SAFETY_BUFFER_BLOCKS_PRE_HF12 :: u64 where
  [const_defs]: "REORG_SAFETY_BUFFER_BLOCKS_PRE_HF12 = 20"
definition IP_CHANGE_WINDOW_IN_SECONDS :: u64 where [const_defs]: "IP_CHANGE_WINDOW_IN_SECONDS = 24 * 60 * 60"
definition IP_CHANGE_BUFFER_IN_SECONDS :: u64 where [const_defs]: "IP_CHANGE_BUFFER_IN_SECONDS = 2 * 60 * 60"

definition MAX_SWARM_SIZE :: nat where [const_defs]: "MAX_SWARM_SIZE = 10"
definition SWARM_BUFFER :: nat where [const_defs]: "SWARM_BUFFER = 5"
definition MIN_SWARM_SIZE :: nat where [const_defs]: "MIN_SWARM_SIZE = 5"
definition IDEAL_SWARM_MARGIN :: nat where [const_defs]: "IDEAL_SWARM_MARGIN = 2"
definition IDEAL_SWARM_SIZE :: nat where [const_defs]: "IDEAL_SWARM_SIZE = MIN_SWARM_SIZE + IDEAL_SWARM_MARGIN"
definition EXCESS_BASE :: nat where [const_defs]: "EXCESS_BASE = MIN_SWARM_SIZE"
definition NEW_SWARM_SIZE :: nat where [const_defs]: "NEW_SWARM_SIZE = IDEAL_SWARM_SIZE"
definition FILL_SWARM_LOWER_PERCENTILE :: nat where [const_defs]: "FILL_SWARM_LOWER_PERCENTILE = 25"
definition DECOMMISSIONED_REDISTRIBUTION_LOWER_PERCENTILE :: nat where
  [const_defs]: "DECOMMISSIONED_REDISTRIBUTION_LOWER_PERCENTILE = 0"
definition STEALING_SWARM_UPPER_PERCENTILE :: nat where [const_defs]: "STEALING_SWARM_UPPER_PERCENTILE = 75"
definition KEY_IMAGE_AWAITING_UNLOCK_HEIGHT :: u64 where [const_defs]: "KEY_IMAGE_AWAITING_UNLOCK_HEIGHT = 0"
definition STATE_CHANGE_TX_LIFETIME_IN_BLOCKS :: u64 where
  [const_defs]: "STATE_CHANGE_TX_LIFETIME_IN_BLOCKS = VOTE_LIFETIME"
definition VOTE_OR_TX_VERIFY_HEIGHT_BUFFER :: u64 where [const_defs]: "VOTE_OR_TX_VERIFY_HEIGHT_BUFFER = 5"

definition MIN_STORAGE_SERVER_VERSION :: "nat list" where [const_defs]: "MIN_STORAGE_SERVER_VERSION = [2, 0, 0]"
definition MIN_SISPOPNET_VERSION :: "nat list" where [const_defs]: "MIN_SISPOPNET_VERSION = [0, 7, 0]"

text \<open>Pairs of a hard fork and the lowest version of an uptime proof accepted from it on.\<close>

definition MIN_UPTIME_PROOF_VERSIONS :: "(u8 \<times> u16 list) list" where
  [const_defs]: "MIN_UPTIME_PROOF_VERSIONS =
    [(network_version_15_lns, [7, 1, 2]),
     (network_version_14_blink, [6, 1, 0]),
     (network_version_13_enforce_checkpoints, [5, 1, 0]),
     (network_version_12_checkpointing, [4, 0, 3])]"

type_synonym swarm_id_t = u64

definition UNASSIGNED_SWARM_ID :: swarm_id_t where [const_defs]: "UNASSIGNED_SWARM_ID = UINT64_MAX"

section \<open>Quorum types\<close>

datatype quorum_type = obligations | checkpointing | blink | other_quorum_type u8

fun quorum_type_value :: "quorum_type \<Rightarrow> u8" where
  "quorum_type_value obligations = 0"
| "quorum_type_value checkpointing = 1"
| "quorum_type_value blink = 2"
| "quorum_type_value (other_quorum_type v) = v"

definition quorum_type_of_value :: "u8 \<Rightarrow> quorum_type" where
  "quorum_type_of_value v =
     (if v = 0 then obligations else if v = 1 then checkpointing
      else if v = 2 then blink else other_quorum_type v)"

datatype quorum_group = group_invalid | group_validator | group_worker | other_quorum_group u8

fun quorum_group_value :: "quorum_group \<Rightarrow> u8" where
  "quorum_group_value group_invalid = 0"
| "quorum_group_value group_validator = 1"
| "quorum_group_value group_worker = 2"
| "quorum_group_value (other_quorum_group v) = v"

definition quorum_group_of_value :: "u8 \<Rightarrow> quorum_group" where
  "quorum_group_of_value v =
     (if v = 0 then group_invalid else if v = 1 then group_validator
      else if v = 2 then group_worker else other_quorum_group v)"

datatype new_state =
    deregister | decommission | recommission | ip_change_penalty | other_new_state u16

fun new_state_value :: "new_state \<Rightarrow> u16" where
  "new_state_value deregister = 0"
| "new_state_value decommission = 1"
| "new_state_value recommission = 2"
| "new_state_value ip_change_penalty = 3"
| "new_state_value (other_new_state v) = v"

definition new_state_of_value :: "u16 \<Rightarrow> new_state" where
  "new_state_of_value v =
     (if v = 0 then deregister else if v = 1 then decommission else if v = 2 then recommission
      else if v = 3 then ip_change_penalty else other_new_state v)"

lemma quorum_type_value_of_value [simp]: "quorum_type_value (quorum_type_of_value v) = v"
  by (simp add: quorum_type_of_value_def)

lemma quorum_group_value_of_value [simp]: "quorum_group_value (quorum_group_of_value v) = v"
  by (simp add: quorum_group_of_value_def)

lemma new_state_value_of_value [simp]: "new_state_value (new_state_of_value v) = v"
  by (simp add: new_state_of_value_def)

definition min_votes_for_quorum_type :: "quorum_type \<Rightarrow> nat" where
  "min_votes_for_quorum_type q =
     (if q = obligations then STATE_CHANGE_MIN_VOTES_TO_CHANGE_STATE
      else if q = checkpointing then CHECKPOINT_MIN_VOTES
      else if q = blink then BLINK_MIN_VOTES
      else unat UINT64_MAX)"

definition max_quorum_type_for_hf :: "u8 \<Rightarrow> quorum_type" where
  "max_quorum_type_for_hf hf_version =
     (if hf_version \<le> network_version_12_checkpointing then obligations
      else if hf_version < network_version_14_blink then checkpointing
      else blink)"

definition staking_num_lock_blocks :: "network_type \<Rightarrow> u64" where
  "staking_num_lock_blocks nettype =
     (case nettype of
        FAKECHAIN \<Rightarrow> 30
      | TESTNET \<Rightarrow> BLOCKS_EXPECTED_IN_DAYS 2
      | _ \<Rightarrow> BLOCKS_EXPECTED_IN_DAYS 30)"

end
