(* ===== verification/Wide_Arith.thy ===== *)
theory Wide_Arith
  imports Prelude
begin

unbundle bit_operations_syntax

text \<open>
  The 128-bit helpers of \<^verbatim>\<open>src/contrib/epee/include/int-util.h\<close> and the proof-of-work test of
  \<^verbatim>\<open>src/src/cryptonote_basic/difficulty.cpp\<close> that is built on them.  Out-parameters of the C
  functions are components of the result.  The main facts: \<open>mul128\<close> is the exact product,
  \<open>div128_64\<close> is the exact quotient and remainder, and \<open>check_hash\<close> accepts a hash exactly when
  hash times difficulty fits in 256 bits.
\<close>

section \<open>Operations\<close>

definition hi_dword :: "u64 \<Rightarrow> u64" where
  "hi_dword val = drop_bit 32 val"

definition lo_dword :: "u64 \<Rightarrow> u64" where
  "lo_dword val = val AND 0xFFFFFFFF"

text \<open>The result is \<^verbatim>\<open>(product_lo, product_hi)\<close>.\<close>

definition mul128 :: "u64 \<Rightarrow> u64 \<Rightarrow> u64 \<times> u64" where
  "mul128 multiplier multiplicand =
     (let a = hi_dword multiplier; b = lo_dword multiplier;
          c = hi_dword multiplicand; d = lo_dword multiplicand;
          ac = a * c; ad = a * d; bc = b * c; bd = b * d;
          adbc = ad + bc;
          adbc_carry = (if adbc < ad then 1 else 0);
          product_lo = bd + push_bit 32 adbc;
          product_lo_carry = (if product_lo < bd then 1 else 0);
          product_hi = ac + drop_bit 32 adbc + push_bit 32 adbc_carry + product_lo_carry
      in (product_lo, product_hi))"

text \<open>The result is \<^verbatim>\<open>(quotient, remainder)\<close>.\<close>

definition div_with_reminder :: "u64 \<Rightarrow> u32 \<Rightarrow> u32 \<Rightarrow> u64 \<times> u32" where
  "div_with_reminder dividend divisor remainder =
     (let dividend = dividend OR push_bit 32 (ucast remainder)
      in (dividend div ucast divisor, ucast (dividend mod ucast divisor)))"

text \<open>The result is \<^verbatim>\<open>(remainder, quotient_hi, quotient_lo)\<close>.\<close>

definition div128_32 :: "u64 \<Rightarrow> u64 \<Rightarrow> u32 \<Rightarrow> u32 \<times> u64 \<times> u64" where
  "div128_32 dividend_hi dividend_lo divisor =
     (let (q3, r3) = div_with_reminder (hi_dword dividend_hi) divisor 0;
          (q2, r2) = div_with_reminder (lo_dword dividend_hi) divisor r3;
          (q1, r1) = div_with_reminder (hi_dword dividend_lo) divisor r2;
          (q0, r0) = div_with_reminder (lo_dword dividend_lo) divisor r1
      in (r0, push_bit 32 q3 OR q2, push_bit 32 q1 OR q0))"

text \<open>The result is \<^verbatim>\<open>(carry, hi, lo)\<close>.\<close>

definition shl128 :: "u64 \<Rightarrow> u64 \<Rightarrow> bool \<times> u64 \<times> u64" where
  "shl128 hi lo = (drop_bit 63 hi \<noteq> 0, push_bit 1 hi + drop_bit 63 lo, push_bit 1 lo)"

text \<open>One round of the division loop, on \<^verbatim>\<open>(remainder, dividend_hi, dividend_lo)\<close>.\<close>

definition div128_64_step :: "u64 \<Rightarrow> u64 \<times> u64 \<times> u64 \<Rightarrow> u64 \<times> u64 \<times> u64" where
  "div128_64_step divisor s =
     (case s of (remainder, dividend_hi, dividend_lo) \<Rightarrow>
        let carry = (drop_bit 63 remainder \<noteq> 0);
            remainder = push_bit 1 remainder;
            (c, dividend_hi, dividend_lo) = shl128 dividend_hi dividend_lo;
            remainder = (if c then remainder OR 1 else remainder)
        in if carry \<or> divisor \<le> remainder
           then (remainder - divisor, dividend_hi, dividend_lo OR 1)
           else (remainder, dividend_hi, dividend_lo))"

text \<open>The result is \<^verbatim>\<open>(remainder, quotient_hi, quotient_lo)\<close>.\<close>

definition div128_64 :: "u64 \<Rightarrow> u64 \<Rightarrow> u64 \<Rightarrow> u64 \<times> u64 \<times> u64" where
  "div128_64 dividend_hi dividend_lo divisor =
     (div128_64_step divisor ^^ 128) (0, dividend_hi, dividend_lo)"

section \<open>The product is exact\<close>

lemma unat_hi_dword: "unat (hi_dword x) = unat x div 2 ^ 32"
  by (simp add: hi_dword_def unat_drop_bit_u64)

lemma lo_dword_take_bit: "lo_dword x = take_bit 32 x"
  by (simp add: lo_dword_def take_bit_eq_mask mask_eq_exp_minus_1)

lemma unat_lo_dword: "unat (lo_dword x) = unat x mod 2 ^ 32"
  by (simp add: lo_dword_take_bit unsigned_take_bit_eq take_bit_eq_mod [of 32 "unat x"])

lemma nat_product_columns:
  fixes a b c d :: nat
  assumes "a < 2 ^ 32" "b < 2 ^ 32" "c < 2 ^ 32" "d < 2 ^ 32"
  defines "m \<equiv> a * d + b * c"
  defines "l \<equiv> b * d + (m mod 2 ^ 32) * 2 ^ 32"
  shows "(a * 2 ^ 32 + b) * (c * 2 ^ 32 + d) =
           l mod 2 ^ 64 + 2 ^ 64 * (a * c + m div 2 ^ 32 + l div 2 ^ 64)"
proof -
  have "(a * 2 ^ 32 + b) * (c * 2 ^ 32 + d) = a * c * 2 ^ 64 + m * 2 ^ 32 + b * d"
    by (simp add: m_def algebra_simps)
  also have "m * 2 ^ 32 = (m div 2 ^ 32) * 2 ^ 64 + (m mod 2 ^ 32) * 2 ^ 32"
  proof -
    have "m * 2 ^ 32 = ((m div 2 ^ 32) * 2 ^ 32 + m mod 2 ^ 32) * 2 ^ 32"
      by (simp only: div_mult_mod_eq)
    then show ?thesis by (simp only: distrib_right mult.assoc) simp
  qed
  finally have "(a * 2 ^ 32 + b) * (c * 2 ^ 32 + d) = 2 ^ 64 * (a * c + m div 2 ^ 32) + l"
    by (simp add: l_def algebra_simps)
  also have "l = l mod 2 ^ 64 + 2 ^ 64 * (l div 2 ^ 64)"
    by simp
  finally show ?thesis
    by (simp add: algebra_simps)
qed

lemma add_carry_iff: "(a + b < (a :: u64)) \<longleftrightarrow> 2 ^ 64 \<le> unat a + unat b"
  using unat_lt64 [of a] unat_lt64 [of b]
  by (auto simp: word_less_nat_alt unat_word_ariths not_le mod_if)

lemma unat_carry_bit:
  "unat (if a + b < (a :: u64) then 1 else 0 :: u64) = (unat a + unat b) div 2 ^ 64"
proof (cases "2 ^ 64 \<le> unat a + unat b")
  case True
  moreover have "unat a + unat b < 2 * 2 ^ 64"
    using unat_lt64 [of a] unat_lt64 [of b] by simp
  ultimately have "(unat a + unat b) div 2 ^ 64 = 1"
    by (intro div_nat_eqI) simp_all
  with True show ?thesis by (simp add: add_carry_iff)
next
  case False
  then show ?thesis by (simp add: add_carry_iff)
qed

lemma unat_mul_dwords:
  assumes "unat (p :: u64) < 2 ^ 32" "unat q < 2 ^ 32"
  shows "unat (p * q) = unat p * unat q"
proof -
  have "unat p * unat q < 2 ^ 32 * 2 ^ 32"
    using assms by (intro mult_strict_mono) auto
  then show ?thesis by (intro unat_mul_no_wrap) simp
qed

lemma unat_hi_dword_less: "unat (hi_dword x) < 2 ^ 32"
  using unat_lt64 [of x] by (simp add: unat_hi_dword less_mult_imp_div_less del: unat_lt64)

lemma unat_lo_dword_less: "unat (lo_dword x) < 2 ^ 32"
  by (simp add: unat_lo_dword)

lemma shift_mod: "(m mod 2 ^ 64 * 2 ^ 32) mod 2 ^ 64 = (m mod 2 ^ 32) * (2 ^ 32 :: nat)"
proof -
  have "(m mod 2 ^ 64 * 2 ^ 32) mod 2 ^ 64 = (m * 2 ^ 32) mod (2 ^ 32 * 2 ^ 32 :: nat)"
    by (simp add: mod_mult_left_eq)
  also have "\<dots> = (m mod 2 ^ 32) * 2 ^ 32"
    by (simp only: mod_mult_mult2)
  finally show ?thesis .
qed

lemma split_high: "m div 2 ^ 32 = (m mod 2 ^ 64) div 2 ^ 32 + (m div 2 ^ 64) * (2 ^ 32 :: nat)"
proof -
  have "m = (m mod 2 ^ 64) + (m div 2 ^ 64) * 2 ^ 32 * 2 ^ 32"
    by simp
  then have "m div 2 ^ 32 = ((m mod 2 ^ 64) + (m div 2 ^ 64) * 2 ^ 32 * 2 ^ 32) div 2 ^ 32"
    by simp
  then show ?thesis
    by (simp only: div_mult_self1 power_not_zero zero_neq_numeral not_False_eq_True)
qed

lemma mul128_exact:
  "unat (fst (mul128 x y)) + 2 ^ 64 * unat (snd (mul128 x y)) = unat x * unat y"
proof -
  define a b c d where "a = unat (hi_dword x)" and "b = unat (lo_dword x)"
    and "c = unat (hi_dword y)" and "d = unat (lo_dword y)"
  note abcd = a_def b_def c_def d_def
  have bounds: "a < 2 ^ 32" "b < 2 ^ 32" "c < 2 ^ 32" "d < 2 ^ 32"
    unfolding abcd by (rule unat_hi_dword_less unat_lo_dword_less)+
  have prods: "unat (hi_dword x * hi_dword y) = a * c" "unat (hi_dword x * lo_dword y) = a * d"
    "unat (lo_dword x * hi_dword y) = b * c" "unat (lo_dword x * lo_dword y) = b * d"
    using bounds unfolding abcd by (simp_all only: unat_mul_dwords)
  have x: "unat x = a * 2 ^ 32 + b" and y: "unat y = c * 2 ^ 32 + d"
    unfolding abcd unat_hi_dword unat_lo_dword by simp_all
  define m l where "m = a * d + b * c" and "l = b * d + (m mod 2 ^ 32) * 2 ^ 32"
  have total: "unat x * unat y = l mod 2 ^ 64 + 2 ^ 64 * (a * c + m div 2 ^ 32 + l div 2 ^ 64)"
    unfolding x y l_def m_def by (rule nat_product_columns [OF bounds])
  define adbc where "adbc = hi_dword x * lo_dword y + lo_dword x * hi_dword y"
  define lo where "lo = lo_dword x * lo_dword y + push_bit 32 adbc"
  have adbc: "unat adbc = m mod 2 ^ 64"
    unfolding adbc_def m_def by (simp only: unat_word_ariths(1) prods) simp
  have shifted: "unat (push_bit 32 adbc) = (m mod 2 ^ 32) * 2 ^ 32"
    unfolding unat_push_bit_u64 adbc by (rule shift_mod)
  have lo: "unat lo = l mod 2 ^ 64"
    unfolding lo_def l_def by (simp only: unat_word_ariths(1) prods shifted) simp
  define c1 c2 :: u64 where "c1 = (if adbc < hi_dword x * lo_dword y then 1 else 0)"
    and "c2 = (if lo < lo_dword x * lo_dword y then 1 else 0)"
  have c1: "unat c1 = m div 2 ^ 64" and c2: "unat c2 = l div 2 ^ 64"
    unfolding c1_def c2_def adbc_def lo_def m_def l_def
    by (simp_all only: unat_carry_bit prods shifted [unfolded adbc_def m_def])
  have "unat c1 \<le> 1" by (simp add: c1_def)
  then have c1s: "unat (push_bit 32 c1) = (m div 2 ^ 64) * 2 ^ 32"
    unfolding unat_push_bit_u64 c1 [symmetric] by simp
  have "a * c + m div 2 ^ 32 + l div 2 ^ 64 < 2 ^ 64"
  proof (rule ccontr)
    assume "\<not> ?thesis"
    then have "2 ^ 64 * 2 ^ 64 \<le> unat x * unat y"
      unfolding total by simp
    moreover have "unat x * unat y < 2 ^ 64 * 2 ^ 64"
      using unat_lt64 [of x] unat_lt64 [of y] by (intro mult_strict_mono) auto
    ultimately show False by simp
  qed
  then have bound: "a * c + (m mod 2 ^ 64) div 2 ^ 32 + (m div 2 ^ 64) * 2 ^ 32 + l div 2 ^ 64 < 2 ^ 64"
    using split_high [of m] by simp
  define hi where "hi = hi_dword x * hi_dword y + drop_bit 32 adbc + push_bit 32 c1 + c2"
  have "unat hi = a * c + (m mod 2 ^ 64) div 2 ^ 32 + (m div 2 ^ 64) * 2 ^ 32 + l div 2 ^ 64"
    using bound unfolding hi_def
    by (simp add: unat_add_no_wrap unat_drop_bit_u64 prods adbc c1s c2 del: One_nat_def)
  then have "unat hi = a * c + m div 2 ^ 32 + l div 2 ^ 64"
    using split_high [of m] by simp
  moreover have "mul128 x y = (lo, hi)"
    by (simp add: mul128_def Let_def lo_def hi_def adbc_def c1_def c2_def)
  ultimately show ?thesis using total lo by simp
qed

section \<open>The quotient is exact\<close>

abbreviation wide :: "u64 \<Rightarrow> u64 \<Rightarrow> nat" where
  "wide hi lo \<equiv> unat hi * 2 ^ 64 + unat lo"

lemma top_bit_iff: "drop_bit 63 (x :: u64) \<noteq> 0 \<longleftrightarrow> 2 ^ 63 \<le> unat x"
  by (simp add: unat_gt_0 [symmetric] unat_drop_bit_u64 div_greater_zero_iff del: unat_gt_0)

lemma unat_top_bit: "unat (drop_bit 63 (x :: u64)) = (if 2 ^ 63 \<le> unat x then 1 else 0)"
  using unat_lt64 [of x] by (auto simp: unat_drop_bit_u64 intro: div_nat_eqI)

lemma unat_double:
  "unat (push_bit 1 (x :: u64)) = (if 2 ^ 63 \<le> unat x then 2 * unat x - 2 ^ 64 else 2 * unat x)"
  using unat_lt64 [of x] unfolding unat_push_bit_u64 by (auto simp: mod_if)

lemma even_double: "even (unat (push_bit 1 (x :: u64)))"
  unfolding unat_double by auto

lemma unat_or_one: "even (unat (x :: u64)) \<Longrightarrow> unat (x OR 1) = unat x + 1"
  using unsigned_or_eq [of x 1, where 'a = nat] or_one_eq [of "unat x"] by simp

lemma shl128_wide:
  assumes "shl128 hi lo = (c, hi', lo')"
  shows "c \<longleftrightarrow> 2 ^ 127 \<le> wide hi lo"
    and "wide hi' lo' = 2 * wide hi lo - (if c then 2 ^ 128 else 0)"
    and "even (unat lo')"
proof -
  have c: "c \<longleftrightarrow> 2 ^ 63 \<le> unat hi" and lo': "lo' = push_bit 1 lo"
    and hi': "hi' = push_bit 1 hi + drop_bit 63 lo"
    using assms unfolding shl128_def top_bit_iff by auto
  show "c \<longleftrightarrow> 2 ^ 127 \<le> wide hi lo"
    using unat_lt64 [of lo] unfolding c by (intro iffI) simp_all
  have "unat (push_bit 1 hi) \<le> 2 ^ 64 - 2"
    using unat_lt64 [of hi] unfolding unat_double by auto
  then have "unat hi' = unat (push_bit 1 hi) + unat (drop_bit 63 lo)"
    unfolding hi' by (intro unat_add_no_wrap) (simp add: unat_top_bit)
  then show "wide hi' lo' = 2 * wide hi lo - (if c then 2 ^ 128 else 0)"
    unfolding lo' unat_double unat_top_bit using unat_lt64 [of hi] unat_lt64 [of lo]
    by (auto simp: c diff_mult_distrib)
  show "even (unat lo')"
    unfolding lo' by (rule even_double)
qed

lemma div128_64_step_nat:
  assumes "unat r < unat d" and "div128_64_step d (r, hi, lo) = (r', hi', lo')"
  defines "b \<equiv> (if 2 ^ 127 \<le> wide hi lo then 1 else 0)"
  shows "unat r' = (2 * unat r + b) mod unat d"
    and "wide hi' lo' = 2 * wide hi lo - b * 2 ^ 128 + (2 * unat r + b) div unat d"
proof -
  obtain c hi1 lo1 where shl: "shl128 hi lo = (c, hi1, lo1)"
    by (cases "shl128 hi lo") auto
  note shl_facts = shl128_wide [OF shl]
  have b: "b = (if c then 1 else 0)"
    unfolding b_def using shl_facts(1) by simp
  define r2 where "r2 = (if c then push_bit 1 r OR 1 else push_bit 1 r)"
  have r2: "unat r2 = unat (push_bit 1 r) + b"
    unfolding r2_def b using unat_or_one [OF even_double, of r] by (cases c) simp_all
  have step: "div128_64_step d (r, hi, lo) = (if drop_bit 63 r \<noteq> 0 \<or> d \<le> r2
      then (r2 - d, hi1, lo1 OR 1) else (r2, hi1, lo1))"
    unfolding div128_64_step_def r2_def Let_def prod.case shl by (rule refl)
  have lt: "2 * unat r + b < 2 * unat d"
    using assms(1) by (simp add: b)
  have r2': "unat r2 = (if 2 ^ 63 \<le> unat r then 2 * unat r + b - 2 ^ 64 else 2 * unat r + b)"
    unfolding r2 unat_double by auto
  have guard: "drop_bit 63 r \<noteq> 0 \<or> d \<le> r2 \<longleftrightarrow> unat d \<le> 2 * unat r + b"
    unfolding top_bit_iff word_le_nat_alt r2' using unat_lt64 [of d] by auto
  have wide1: "wide hi1 lo1 = 2 * wide hi lo - b * 2 ^ 128"
    using shl_facts(2) by (simp add: b)
  show "unat r' = (2 * unat r + b) mod unat d"
    and "wide hi' lo' = 2 * wide hi lo - b * 2 ^ 128 + (2 * unat r + b) div unat d"
  proof -
    show "unat r' = (2 * unat r + b) mod unat d"
    proof (cases "unat d \<le> 2 * unat r + b")
      case True
      then have "unat r' = unat (r2 - d)"
        using assms(2) step guard by simp
      also have "\<dots> = 2 * unat r + b - unat d"
        using True lt unat_lt64 [of d] unat_lt64 [of r] by (auto simp: unat_sub_if' r2')
      also have "\<dots> = (2 * unat r + b) mod unat d"
        using True lt by (simp add: mod_if)
      finally show ?thesis .
    next
      case False
      then have "r' = r2"
        using assms(2) step guard by simp
      with False show ?thesis
        using r2' unat_lt64 [of d] by (auto simp: not_le)
    qed
    show "wide hi' lo' = 2 * wide hi lo - b * 2 ^ 128 + (2 * unat r + b) div unat d"
    proof (cases "unat d \<le> 2 * unat r + b")
      case True
      then have "hi' = hi1" "lo' = lo1 OR 1"
        using assms(2) step guard by simp_all
      moreover have "(2 * unat r + b) div unat d = 1"
        using True lt by (intro div_nat_eqI) simp_all
      ultimately show ?thesis
        using wide1 unat_or_one [OF shl_facts(3)] by simp
    next
      case False
      then show ?thesis
        using assms(2) step guard wide1 by simp
    qed
  qed
qed

lemma division_round:
  fixes D d i k :: nat
  assumes "i + Suc k = 128" and "D < 2 ^ 128" and "0 < d"
  defines "T \<equiv> D div 2 ^ Suc k" and "L \<equiv> D mod 2 ^ Suc k"
  defines "b \<equiv> (if 2 ^ 127 \<le> L * 2 ^ i + T div d then 1 else 0)"
  shows "(2 * (T mod d) + b) mod d = (D div 2 ^ k) mod d"
    and "2 * (L * 2 ^ i + T div d) - b * 2 ^ 128 + (2 * (T mod d) + b) div d
         = (D mod 2 ^ k) * 2 ^ Suc i + (D div 2 ^ k) div d"
proof -
  have pow: "2 ^ k * 2 ^ i = (2 ^ 127 :: nat)" and pow': "2 ^ k * 2 ^ Suc i = (2 ^ 128 :: nat)"
    using assms(1) by (simp_all only: power_add [symmetric]) (rule arg_cong [where f = "power 2"], simp)+
  have "T < 2 ^ i"
    unfolding T_def using assms(2) pow' by (intro less_mult_imp_div_less) (simp add: ac_simps)
  then have q: "T div d < 2 ^ i"
    using div_le_dividend [of T d] by linarith
  have L: "L < 2 ^ Suc k" by (simp add: L_def)
  have b: "b = L div 2 ^ k"
  proof (cases "2 ^ k \<le> L")
    case True
    then have "2 ^ 127 \<le> L * 2 ^ i" unfolding pow [symmetric] by simp
    moreover have "L div 2 ^ k = 1" using True L by (intro div_nat_eqI) simp_all
    ultimately show ?thesis unfolding b_def by simp
  next
    case False
    then have "Suc L * 2 ^ i \<le> 2 ^ 127" unfolding pow [symmetric] by (intro mult_le_mono1) simp
    with q have "L * 2 ^ i + T div d < 2 ^ 127" by simp
    with False show ?thesis unfolding b_def by simp
  qed
  have lowL: "L mod 2 ^ k = D mod 2 ^ k"
    unfolding L_def by (simp add: mod_mod_cancel)
  have D: "D = (2 * T + b) * 2 ^ k + D mod 2 ^ k"
  proof -
    have "D = T * 2 ^ Suc k + L" unfolding T_def L_def by (simp only: div_mult_mod_eq)
    also have "L = b * 2 ^ k + D mod 2 ^ k" unfolding b lowL [symmetric] by (rule div_mult_mod_eq [symmetric])
    finally show ?thesis by (simp add: algebra_simps)
  qed
  have hi: "D div 2 ^ k = 2 * T + b"
    by (subst D) simp
  have T: "2 * T + b = (2 * (T mod d) + b) + (2 * (T div d)) * d"
  proof -
    have "2 * T = 2 * (T div d * d + T mod d)" by (simp only: div_mult_mod_eq)
    then show ?thesis by (simp only: distrib_left mult.assoc)
  qed
  show "(2 * (T mod d) + b) mod d = (D div 2 ^ k) mod d"
    unfolding hi T by simp
  have "2 * (L * 2 ^ i) - b * 2 ^ 128 = (D mod 2 ^ k) * 2 ^ Suc i"
  proof -
    have "L = b * 2 ^ k + D mod 2 ^ k" unfolding b lowL [symmetric] by (rule div_mult_mod_eq [symmetric])
    then have "2 * (L * 2 ^ i) = b * (2 ^ k * 2 ^ Suc i) + (D mod 2 ^ k) * 2 ^ Suc i"
      by (simp add: algebra_simps)
    then show ?thesis unfolding pow' by simp
  qed
  moreover have "b * 2 ^ 128 \<le> 2 * (L * 2 ^ i)"
    unfolding b pow' [symmetric] using div_times_less_eq_dividend [of L "2 ^ k"] by simp
  moreover have "(D div 2 ^ k) div d = 2 * (T div d) + (2 * (T mod d) + b) div d"
    unfolding hi T using assms(3) by (intro div_mult_self1) simp
  ultimately show "2 * (L * 2 ^ i + T div d) - b * 2 ^ 128 + (2 * (T mod d) + b) div d
         = (D mod 2 ^ k) * 2 ^ Suc i + (D div 2 ^ k) div d"
    by simp
qed

lemma div128_64_loop:
  assumes "0 < unat d" and "i \<le> 128"
    and "(div128_64_step d ^^ i) (0, hi, lo) = (r, h, l)"
  shows "unat r = (wide hi lo div 2 ^ (128 - i)) mod unat d \<and>
         wide h l = (wide hi lo mod 2 ^ (128 - i)) * 2 ^ i + (wide hi lo div 2 ^ (128 - i)) div unat d"
  using assms(2,3)
proof (induction i arbitrary: r h l)
  case 0
  have "wide hi lo < 2 ^ 128"
    using unat_lt64 [of hi] unat_lt64 [of lo] by simp
  with 0 show ?case by simp
next
  case (Suc i)
  obtain r0 h0 l0 where prev: "(div128_64_step d ^^ i) (0, hi, lo) = (r0, h0, l0)"
    by (cases "(div128_64_step d ^^ i) (0, hi, lo)")
  define k where "k = 127 - i"
  have k: "128 - i = Suc k" "128 - Suc i = k" "i + Suc k = 128"
    using Suc.prems(1) by (simp_all add: k_def)
  have IH: "unat r0 = (wide hi lo div 2 ^ Suc k) mod unat d"
    "wide h0 l0 = (wide hi lo mod 2 ^ Suc k) * 2 ^ i + (wide hi lo div 2 ^ Suc k) div unat d"
    using Suc.IH [OF _ prev] Suc.prems(1) unfolding k(1) by auto
  have step: "div128_64_step d (r0, h0, l0) = (r, h, l)"
    using Suc.prems(2) prev by simp
  have lt: "unat r0 < unat d"
    unfolding IH(1) using assms(1) by simp
  have D: "wide hi lo < 2 ^ 128"
    using unat_lt64 [of hi] unat_lt64 [of lo] by simp
  note round = division_round [OF k(3) D assms(1)]
  show ?case
    unfolding k(2) div128_64_step_nat [OF lt step] unfolding IH round by simp
qed

text \<open>
  For a non-zero divisor the loop computes quotient and remainder of the 128-bit dividend.
\<close>

lemma div128_64_exact:
  assumes "0 < unat d" and "div128_64 hi lo d = (r, qhi, qlo)"
  shows "unat r = wide hi lo mod unat d" and "wide qhi qlo = wide hi lo div unat d"
  using div128_64_loop [of d 128 hi lo r qhi qlo] assms unfolding div128_64_def by simp_all

section \<open>The proof-of-work test\<close>

text \<open>
  On x86-64 \<^verbatim>\<open>mul\<close> of \<^verbatim>\<open>difficulty.cpp\<close> is \<open>mul128\<close>; \<open>mul_portable\<close> is the version compiled elsewhere.
  Both return \<^verbatim>\<open>(low, high)\<close>.
\<close>

definition mul :: "u64 \<Rightarrow> u64 \<Rightarrow> u64 \<times> u64" where
  "mul a b = mul128 a b"

definition mul_portable :: "u64 \<Rightarrow> u64 \<Rightarrow> u64 \<times> u64" where
  "mul_portable a b =
     (let aLow = a AND 0xFFFFFFFF; aHigh = drop_bit 32 a;
          bLow = b AND 0xFFFFFFFF; bHigh = drop_bit 32 b;
          res = aLow * bLow;
          lowRes1 = res AND 0xFFFFFFFF; carry = drop_bit 32 res;
          res = aHigh * bLow + carry;
          highResHigh1 = drop_bit 32 res; highResLow1 = res AND 0xFFFFFFFF;
          res = aLow * bHigh;
          lowRes2 = res AND 0xFFFFFFFF; carry = drop_bit 32 res;
          res = aHigh * bHigh + carry;
          highResHigh2 = drop_bit 32 res; highResLow2 = res AND 0xFFFFFFFF;
          r = highResLow1 + lowRes2;
          carry = drop_bit 32 r;
          low = push_bit 32 r OR lowRes1;
          r = highResHigh1 + highResLow2 + carry;
          d3 = r AND 0xFFFFFFFF;
          carry = drop_bit 32 r;
          r = highResHigh2 + carry
      in (low, d3 OR push_bit 32 r))"

definition cadd :: "u64 \<Rightarrow> u64 \<Rightarrow> bool" where
  "cadd a b \<longleftrightarrow> a + b < a"

definition cadc :: "u64 \<Rightarrow> u64 \<Rightarrow> bool \<Rightarrow> bool" where
  "cadc a b c \<longleftrightarrow> a + b < a \<or> (c \<and> a + b = - 1)"

definition check_hash :: "hash256 \<Rightarrow> u64 \<Rightarrow> bool" where
  "check_hash hash difficulty =
     (let (top, high) = mul (hash_limb hash 3) difficulty
      in if high \<noteq> 0 then False
         else let (low, cur) = mul (hash_limb hash 0) difficulty;
                  (low, high) = mul (hash_limb hash 1) difficulty;
                  carry = cadd cur low;
                  cur = high;
                  (low, high) = mul (hash_limb hash 2) difficulty;
                  carry = cadc cur low carry;
                  carry = cadc high top carry
              in \<not> carry)"

text \<open>The hash as the number whose least significant 64 bits are its first eight bytes.\<close>

definition hash_value :: "hash256 \<Rightarrow> nat" where
  "hash_value h = unat (hash_limb h 0) + 2 ^ 64 * unat (hash_limb h 1)
     + 2 ^ 128 * unat (hash_limb h 2) + 2 ^ 192 * unat (hash_limb h 3)"

lemma cadc_iff: "cadc a b c \<longleftrightarrow> 2 ^ 64 \<le> unat a + unat b + (if c then 1 else 0)"
proof -
  have max: "a + b = - 1 \<longleftrightarrow> unat (a + b) = 2 ^ 64 - 1"
    by (simp add: word_unat_eq_iff unat_UINT64_MAX)
  show ?thesis
    unfolding cadc_def add_carry_iff max unat_word_ariths(1)
    using unat_lt64 [of a] unat_lt64 [of b] by (auto simp: mod_if)
qed

lemma cadd_iff: "cadd a b \<longleftrightarrow> 2 ^ 64 \<le> unat a + unat b"
  unfolding cadd_def by (rule add_carry_iff)

lemma carry_chain:
  fixes l0 l1 l2 l3 h0 h1 h2 h3 :: nat
  assumes "l0 < 2 ^ 64"
  defines "k1 \<equiv> (if 2 ^ 64 \<le> h0 + l1 then 1 else 0)"
  defines "k2 \<equiv> (if 2 ^ 64 \<le> h1 + l2 + k1 then 1 else 0)"
  assumes "h0 < 2 ^ 64" "l1 < 2 ^ 64" "h1 < 2 ^ 64" "l2 < 2 ^ 64" "h2 < 2 ^ 64" "l3 < 2 ^ 64"
  shows "(l0 + 2 ^ 64 * h0) + 2 ^ 64 * (l1 + 2 ^ 64 * h1) + 2 ^ 128 * (l2 + 2 ^ 64 * h2)
           + 2 ^ 192 * (l3 + 2 ^ 64 * h3) < (2 ^ 256 :: nat)
         \<longleftrightarrow> h3 = 0 \<and> \<not> 2 ^ 64 \<le> h2 + l3 + k2"
  using assms(1,4-) unfolding k2_def k1_def
  by (cases "h3 = 0"; cases "2 ^ 64 \<le> h0 + l1"; cases "2 ^ 64 \<le> h1 + l2 + k1") (auto simp: k1_def)

text \<open>
  C2: the proof-of-work test on 64-bit limbs accepts a hash for a difficulty exactly when the hash,
  read as a little-endian 256-bit number, times the difficulty stays below \<open>2 ^ 256\<close>.
\<close>

theorem check_hash_iff:
  "check_hash h d \<longleftrightarrow> hash_value h * unat d < 2 ^ 256"
proof -
  obtain l0 h0 l1 h1 l2 h2 l3 h3 where
    m: "mul (hash_limb h 0) d = (l0, h0)" "mul (hash_limb h 1) d = (l1, h1)"
       "mul (hash_limb h 2) d = (l2, h2)" "mul (hash_limb h 3) d = (l3, h3)"
    by (metis surj_pair)
  have p: "unat (hash_limb h 0) * unat d = unat l0 + 2 ^ 64 * unat h0"
    "unat (hash_limb h 1) * unat d = unat l1 + 2 ^ 64 * unat h1"
    "unat (hash_limb h 2) * unat d = unat l2 + 2 ^ 64 * unat h2"
    "unat (hash_limb h 3) * unat d = unat l3 + 2 ^ 64 * unat h3"
    using m unfolding mul_def by (metis mul128_exact fst_conv snd_conv)+
  have "hash_value h * unat d =
      (unat l0 + 2 ^ 64 * unat h0) + 2 ^ 64 * (unat l1 + 2 ^ 64 * unat h1)
      + 2 ^ 128 * (unat l2 + 2 ^ 64 * unat h2) + 2 ^ 192 * (unat l3 + 2 ^ 64 * unat h3)"
    unfolding hash_value_def distrib_right mult.assoc p by (rule refl)
  moreover have "check_hash h d \<longleftrightarrow> h3 = 0 \<and> \<not> cadc h2 l3 (cadc h1 l2 (cadd h0 l1))"
    unfolding check_hash_def by (simp add: m del: One_nat_def)
  ultimately show ?thesis
    using carry_chain [of "unat l0" "unat h0" "unat l1" "unat h1" "unat l2" "unat h2" "unat l3" "unat h3"]
      unat_lt64 [of l0] unat_lt64 [of h0] unat_lt64 [of l1] unat_lt64 [of h1] unat_lt64 [of l2]
      unat_lt64 [of h2] unat_lt64 [of l3]
    by (simp add: cadc_iff cadd_iff unat_eq_zero)
qed

end
