(* ===== verification/Staking_Rules.thy ===== *)
theory Staking_Rules
  imports Config Wide_Arith
begin

text \<open>
  The staking arithmetic of \<^verbatim>\<open>src/src/cryptonote_core/service_node_rules.cpp\<close>: the staking
  requirement, the conversion between portions and amounts, the minimum contribution and the
  check of the portions of a registration.

  The floating point decay of the requirement before hard fork 16 is the parameter \<open>exp2_share\<close>:
  \<open>exp2_share amount height\<close> stands for the truncated value of
  \<^verbatim>\<open>amount / sispop::exp2(height / 129600.0)\<close>.  The lemmas show that the 128-bit
  conversions are exact, that \<^verbatim>\<open>get_portions_to_make_amount\<close> is the least inverse of
  \<^verbatim>\<open>portions_to_amount\<close>, and what the portion check accepts.
\<close>

section \<open>Definitions\<close>

definition get_staking_requirement ::
    "(u64 \<Rightarrow> u64 \<Rightarrow> u64) \<Rightarrow> network_type \<Rightarrow> u64 \<Rightarrow> u8 \<Rightarrow> u64" where
  "get_staking_requirement exp2_share nettype height hf_version =
     (if nettype = TESTNET \<or> nettype = FAKECHAIN then COIN * 500
      else if network_version_16 \<le> hf_version then 150000 * COIN
      else
        let hardfork_height = (if nettype = MAINNET then 105 else 96210);
            height = (if height < hardfork_height then hardfork_height else height);
            height_adjusted = height - hardfork_height
        in if 133 \<le> height \<and> hf_version < network_version_16
           then 75000 * COIN + exp2_share (75000 * COIN) height_adjusted
           else 1500 * COIN + exp2_share (1500 * COIN) height_adjusted)"

definition portions_to_amount :: "u64 \<Rightarrow> u64 \<Rightarrow> u64" where
  "portions_to_amount portions staking_requirement =
     (let (lo, hi) = mul128 staking_requirement portions;
          (r, resulthi, resultlo) = div128_64 hi lo STAKING_PORTIONS
      in resultlo)"

definition get_min_node_contribution_pre_v11 :: "u64 \<Rightarrow> u64 \<Rightarrow> u64" where
  "get_min_node_contribution_pre_v11 staking_requirement total_reserved =
     min (staking_requirement - total_reserved)
       (staking_requirement div of_nat MAX_NUMBER_OF_CONTRIBUTORS)"

definition get_min_node_contribution :: "u8 \<Rightarrow> u64 \<Rightarrow> u64 \<Rightarrow> nat \<Rightarrow> u64" where
  "get_min_node_contribution version staking_requirement total_reserved num_contributions =
     (if version < network_version_11_infinite_staking
      then get_min_node_contribution_pre_v11 staking_requirement total_reserved
      else
        let needed = staking_requirement - total_reserved
        in if MAX_NUMBER_OF_CONTRIBUTORS \<le> num_contributions then UINT64_MAX
           else needed div of_nat (MAX_NUMBER_OF_CONTRIBUTORS - num_contributions))"

text \<open>The loop over the portions, with the index and the running sum.\<close>

fun check_portions_from :: "u8 \<Rightarrow> u64 list \<Rightarrow> nat \<Rightarrow> u64 \<Rightarrow> bool" where
  "check_portions_from hf_version [] i reserved = (reserved \<le> STAKING_PORTIONS)"
| "check_portions_from hf_version (p # ps) i reserved =
     (if p < get_min_node_contribution hf_version STAKING_PORTIONS reserved i then False
      else check_portions_from hf_version ps (Suc i) (reserved + p))"

definition check_service_node_portions :: "u8 \<Rightarrow> u64 list \<Rightarrow> bool" where
  "check_service_node_portions hf_version portions =
     (if MAX_NUMBER_OF_CONTRIBUTORS < length portions then False
      else check_portions_from hf_version portions 0 0)"

text \<open>The nonce, in the byte order of the machine (little endian), eight times over.\<close>

definition u32_bytes :: "u32 \<Rightarrow> u8 list" where
  "u32_bytes v = map (\<lambda>i. ucast (drop_bit (8 * i) v)) [0 ..< 4]"

definition blob_of_bytes :: "u8 list \<Rightarrow> 256 word" where
  "blob_of_bytes bs = foldl (\<lambda>acc b. acc * 256 + ucast b) 0 bs"

definition generate_request_stake_unlock_hash :: "u32 \<Rightarrow> hash256" where
  "generate_request_stake_unlock_hash nonce = blob_of_bytes (concat (replicate 8 (u32_bytes nonce)))"

definition get_locked_key_image_unlock_height :: "network_type \<Rightarrow> u64 \<Rightarrow> u64 \<Rightarrow> u64" where
  "get_locked_key_image_unlock_height nettype node_register_height curr_height =
     curr_height + staking_num_lock_blocks nettype div 2"

definition get_portions_to_make_amount :: "u64 \<Rightarrow> u64 \<Rightarrow> u64" where
  "get_portions_to_make_amount staking_requirement amount =
     (let (lo, hi) = mul128 amount STAKING_PORTIONS;
          hi = (if UINT64_MAX - (staking_requirement - 1) < lo then hi + 1 else hi);
          lo = lo + (staking_requirement - 1);
          (r, resulthi, resultlo) = div128_64 hi lo staking_requirement
      in resultlo)"

definition get_min_node_contribution_in_portions :: "u8 \<Rightarrow> u64 \<Rightarrow> u64 \<Rightarrow> nat \<Rightarrow> u64" where
  "get_min_node_contribution_in_portions version staking_requirement total_reserved num_contributions =
     (let atomic_amount =
            get_min_node_contribution version staking_requirement total_reserved num_contributions
      in if atomic_amount = UINT64_MAX then UINT64_MAX
         else get_portions_to_make_amount staking_requirement atomic_amount)"

section \<open>Portions and amounts\<close>

lemma unat_STAKING_PORTIONS: "unat STAKING_PORTIONS = 18446744073709551612"
  by (simp add: STAKING_PORTIONS_def)

lemma wide_low: "wide hi lo < 2 ^ 64 \<Longrightarrow> unat lo = wide hi lo"
  by (cases "unat hi") simp_all

lemma wide_mul128: "mul128 x y = (lo, hi) \<Longrightarrow> wide hi lo = unat x * unat y"
  using mul128_exact [of x y] by simp

lemma portions_to_amount_exact:
  assumes "unat p \<le> unat STAKING_PORTIONS"
  shows "unat (portions_to_amount p req) = unat req * unat p div unat STAKING_PORTIONS"
proof -
  obtain lo hi where m: "mul128 req p = (lo, hi)" by fastforce
  obtain r qh ql where d: "div128_64 hi lo STAKING_PORTIONS = (r, qh, ql)" by (metis prod_cases3)
  have S: "0 < unat STAKING_PORTIONS" by (simp add: unat_STAKING_PORTIONS)
  have q: "wide qh ql = unat req * unat p div unat STAKING_PORTIONS"
    using div128_64_exact(2) [OF S d] wide_mul128 [OF m] by simp
  also have "\<dots> \<le> unat req * unat STAKING_PORTIONS div unat STAKING_PORTIONS"
    using assms by (intro div_le_mono mult_le_mono2)
  also have "\<dots> = unat req" using S by simp
  also have "\<dots> < 2 ^ 64" using unat_lt64 [of req] by simp
  finally have "unat ql = wide qh ql" by (rule wide_low)
  with q show ?thesis by (simp add: portions_to_amount_def m d)
qed

lemma portions_to_amount_le:
  "unat p \<le> unat STAKING_PORTIONS \<Longrightarrow> unat (portions_to_amount p req) \<le> unat req"
  using div_le_mono [OF mult_le_mono2 [of "unat p" "unat STAKING_PORTIONS" "unat req"],
      of "unat STAKING_PORTIONS"]
  by (simp add: portions_to_amount_exact unat_STAKING_PORTIONS)

lemma rounded_up_product:
  assumes "0 < unat req" and m: "mul128 amount STAKING_PORTIONS = (lo, hi)"
  shows "wide (if UINT64_MAX - (req - 1) < lo then hi + 1 else hi) (lo + (req - 1))
           = unat amount * unat STAKING_PORTIONS + (unat req - 1)"
proof -
  have req: "unat (req - 1) = unat req - 1"
    using assms(1) by (subst unat_sub_no_wrap) simp_all
  have w: "wide hi lo = unat amount * 18446744073709551612"
    using wide_mul128 [OF m] by (simp add: unat_STAKING_PORTIONS)
  have hi: "unat hi < 2 ^ 64 - 1"
    using w unat_lt64 [of amount] by simp
  have cmp: "UINT64_MAX - (req - 1) < lo \<longleftrightarrow> 2 ^ 64 \<le> unat lo + unat (req - 1)"
    using unat_lt64 [of "req - 1"]
    by (simp only: word_less_nat_alt) (subst unat_sub_no_wrap, auto simp: unat_UINT64_MAX)
  show ?thesis
  proof (cases "UINT64_MAX - (req - 1) < lo")
    case True
    then have "unat (lo + (req - 1)) = unat lo + unat (req - 1) - 2 ^ 64"
      using cmp unat_lt64 [of lo] unat_lt64 [of "req - 1"] by (simp add: unat_word_ariths mod_if)
    moreover have "unat (hi + 1) = unat hi + 1"
      using hi by (subst unat_add_no_wrap) simp_all
    ultimately show ?thesis
      using True cmp w req by (simp add: unat_STAKING_PORTIONS)
  next
    case False
    then have "unat (lo + (req - 1)) = unat lo + unat (req - 1)"
      using cmp by (intro unat_add_no_wrap) simp
    with False w req show ?thesis by (simp add: unat_STAKING_PORTIONS)
  qed
qed

lemma get_portions_to_make_amount_exact:
  assumes "0 < unat req" and "unat amount \<le> unat req"
  shows "unat (get_portions_to_make_amount req amount)
           = (unat amount * unat STAKING_PORTIONS + (unat req - 1)) div unat req"
proof -
  obtain lo hi where m: "mul128 amount STAKING_PORTIONS = (lo, hi)" by fastforce
  define hi' where "hi' = (if UINT64_MAX - (req - 1) < lo then hi + 1 else hi)"
  obtain r qh ql where d: "div128_64 hi' (lo + (req - 1)) req = (r, qh, ql)" by (metis prod_cases3)
  have q: "wide qh ql = (unat amount * unat STAKING_PORTIONS + (unat req - 1)) div unat req"
    using div128_64_exact(2) [OF assms(1) d] rounded_up_product [OF assms(1) m]
    by (simp add: hi'_def)
  also have "\<dots> \<le> (unat req * unat STAKING_PORTIONS + (unat req - 1)) div unat req"
    using assms(2) by (intro div_le_mono add_le_mono1 mult_le_mono1)
  also have "\<dots> = unat STAKING_PORTIONS"
    using assms(1) by (intro div_nat_eqI) (simp_all add: algebra_simps)
  also have "\<dots> < 2 ^ 64" by (simp add: unat_STAKING_PORTIONS)
  finally have "unat ql = wide qh ql" by (rule wide_low)
  with q show ?thesis
    by (simp only: get_portions_to_make_amount_def m Let_def prod.case hi'_def [symmetric] d)
qed

lemma nat_ceil_div_least:
  fixes a b S x :: nat
  assumes "0 < b" "0 < S"
  shows "a \<le> b * x div S \<longleftrightarrow> (a * S + (b - 1)) div b \<le> x"
proof -
  have "a \<le> b * x div S \<longleftrightarrow> a * S \<le> b * x"
    using assms(2) by (simp add: less_eq_div_iff_mult_less_eq)
  also have "\<dots> \<longleftrightarrow> a * S + (b - 1) < b * (x + 1)"
    using assms(1) by auto
  also have "\<dots> \<longleftrightarrow> (a * S + (b - 1)) div b < x + 1"
    using assms(1) by (simp add: div_less_iff_less_mult mult.commute)
  finally show ?thesis by (simp add: less_Suc_eq_le)
qed

text \<open>
  C32: for an amount within the staking requirement, the portions computed for it are the least
  number of portions whose amount reaches it: a number of portions buys at least the amount
  exactly when it is not below the computed one.
\<close>

theorem get_portions_to_make_amount_least:
  assumes "0 < req" and "amount \<le> req" and "x \<le> STAKING_PORTIONS"
  shows "amount \<le> portions_to_amount x req \<longleftrightarrow> get_portions_to_make_amount req amount \<le> x"
  using assms nat_ceil_div_least [of "unat req" "unat STAKING_PORTIONS" "unat amount" "unat x"]
  by (simp add: word_le_nat_alt word_less_nat_alt portions_to_amount_exact
      get_portions_to_make_amount_exact unat_STAKING_PORTIONS)

theorem get_portions_to_make_amount_least_witness:
  "333 \<le> portions_to_amount 12297829382473034408 500
     \<longleftrightarrow> get_portions_to_make_amount 500 333 \<le> 12297829382473034408"
  by (rule get_portions_to_make_amount_least) (simp_all add: STAKING_PORTIONS_def)

section \<open>The portions of a registration\<close>

lemma replicate_4: "replicate 4 x = [x, x, x, x]"
  by (simp add: numeral_eq_Suc)

lemmas portions_eval = check_service_node_portions_def get_min_node_contribution_def const_defs replicate_4

lemma unat_min_portions:
  assumes "network_version_11_infinite_staking \<le> hf" and "i < 4" and "r \<le> STAKING_PORTIONS"
  shows "unat (get_min_node_contribution hf STAKING_PORTIONS r i)
           = (unat STAKING_PORTIONS - unat r) div (4 - i)"
proof -
  have "unat (of_nat (4 - i) :: u64) = 4 - i" by (rule unat_of_nat_u64) simp
  moreover have "\<not> hf < network_version_11_infinite_staking" using assms(1) by simp
  ultimately show ?thesis
    using assms(2,3) by (simp add: get_min_node_contribution_def MAX_NUMBER_OF_CONTRIBUTORS_def
        unat_div_word unat_sub_no_wrap word_le_nat_alt)
qed

lemma check_portions_from_iff:
  assumes "network_version_11_infinite_staking \<le> hf" and "i + length ps \<le> 4"
    and "unat r + sum_list (map unat ps) < 2 ^ 64"
  shows "check_portions_from hf ps i r \<longleftrightarrow>
           unat r + sum_list (map unat ps) \<le> unat STAKING_PORTIONS \<and>
           (\<forall>k < length ps. (unat STAKING_PORTIONS - (unat r + sum_list (map unat (take k ps)))) div (4 - (i + k))
              \<le> unat (ps ! k))"
  using assms(2,3)
proof (induction ps arbitrary: i r)
  case Nil
  then show ?case by (simp add: word_le_nat_alt)
next
  case (Cons p ps)
  have rp: "unat (r + p) = unat r + unat p"
    using Cons.prems(2) by (intro unat_add_no_wrap) simp
  have IH: "check_portions_from hf ps (Suc i) (r + p) \<longleftrightarrow>
      unat r + unat p + sum_list (map unat ps) \<le> unat STAKING_PORTIONS \<and>
      (\<forall>k < length ps. (unat STAKING_PORTIONS - (unat r + unat p + sum_list (map unat (take k ps)))) div (4 - (Suc i + k))
          \<le> unat (ps ! k))"
    using Cons.IH [of "Suc i" "r + p"] Cons.prems by (simp add: rp)
  show ?case
  proof (cases "r \<le> STAKING_PORTIONS")
    case True
    have "unat (get_min_node_contribution hf STAKING_PORTIONS r i) = (unat STAKING_PORTIONS - unat r) div (4 - i)"
      using unat_min_portions [OF assms(1) _ True] Cons.prems(1) by simp
    then show ?thesis
      by (simp add: IH word_less_nat_alt not_less All_less_Suc2 add.assoc)
  next
    case False
    then have "unat STAKING_PORTIONS < unat r" by (simp add: word_le_nat_alt)
    then show ?thesis by (simp add: IH)
  qed
qed

text \<open>
  C33: from hard fork 11 on, and for portions whose exact sum fits in 64 bits, the check accepts
  exactly the lists of at most four portions whose sum is within \<^verbatim>\<open>STAKING_PORTIONS\<close> and in
  which each portion is at least an equal share of what the earlier ones left over.
\<close>

theorem check_service_node_portions_iff:
  assumes "network_version_11_infinite_staking \<le> hf" and "sum_list (map unat ps) < 2 ^ 64"
  shows "check_service_node_portions hf ps \<longleftrightarrow>
           length ps \<le> 4 \<and> sum_list (map unat ps) \<le> unat STAKING_PORTIONS \<and>
           (\<forall>k < length ps. (unat STAKING_PORTIONS - sum_list (map unat (take k ps))) div (4 - k) \<le> unat (ps ! k))"
  using check_portions_from_iff [of hf 0 ps 0] assms
  by (simp add: check_service_node_portions_def MAX_NUMBER_OF_CONTRIBUTORS_def not_less)

theorem check_service_node_portions_iff_witness:
  "check_service_node_portions 16 [9223372036854775806, 9223372036854775806] \<longleftrightarrow>
     length [9223372036854775806, 9223372036854775806 :: u64] \<le> 4 \<and>
     sum_list (map unat [9223372036854775806, 9223372036854775806 :: u64]) \<le> unat STAKING_PORTIONS \<and>
     (\<forall>k < length [9223372036854775806, 9223372036854775806 :: u64].
        (unat STAKING_PORTIONS - sum_list (map unat (take k [9223372036854775806, 9223372036854775806 :: u64])))
          div (4 - k) \<le> unat ([9223372036854775806, 9223372036854775806 :: u64] ! k))"
  by (rule check_service_node_portions_iff) (simp_all add: const_defs)

text \<open>
  from hard fork 11 on a registration that reserves all four contributor slots reserves the
  whole stake, provided the exact sum of its portions fits in 64 bits.
\<close>

theorem four_portions_reserve_everything:
  assumes "network_version_11_infinite_staking \<le> hf" and "sum_list (map unat ps) < 2 ^ 64"
    and "check_service_node_portions hf ps" and "length ps = 4"
  shows "sum_list (map unat ps) = unat STAKING_PORTIONS"
proof -
  have "check_portions_from hf ps 0 0"
    using assms(3) by (simp add: check_service_node_portions_def split: if_splits)
  then have "sum_list (map unat ps) \<le> unat STAKING_PORTIONS"
    and "unat STAKING_PORTIONS - sum_list (map unat (take 3 ps)) \<le> unat (ps ! 3)"
    using check_portions_from_iff [of hf 0 ps 0] assms by (auto dest: spec [of _ "3"])
  moreover have "take 3 ps @ [ps ! 3] = ps"
    using assms(4) take_Suc_conv_app_nth [of 3 ps] by simp
  then have "sum_list (map unat ps) = sum_list (map unat (take 3 ps @ [ps ! 3]))" by simp
  then have "sum_list (map unat ps) = sum_list (map unat (take 3 ps)) + unat (ps ! 3)" by simp
  ultimately show ?thesis by simp
qed

theorem four_portions_reserve_everything_witness:
  "sum_list (map unat (replicate 4 (4611686018427387903 :: u64))) = unat STAKING_PORTIONS"
  by (rule four_portions_reserve_everything [of 16]) (simp_all add: portions_eval)


end
