(* ===== verification/Ordered_Map.thy ===== *)
theory Ordered_Map
  imports Prelude
begin

text \<open>
  The two dictionaries of the code.  A \<^verbatim>\<open>std::map\<close> is a list of entries in ascending order of
  the keys, so that iterating over the map is iterating over the list; a \<^verbatim>\<open>std::unordered_map\<close> is
  a list of entries with distinct keys in an order that means nothing.  The locale \<open>dictionary\<close>
  states what a client may rely on in either case; both representations are interpretations of it.

  \<open>insert_new\<close> is \<^verbatim>\<open>insert\<close> and \<^verbatim>\<open>emplace\<close> (an existing entry is kept), \<open>assign_key\<close> is
  \<^verbatim>\<open>m[k] = v\<close>, \<open>erase_key\<close> is \<^verbatim>\<open>erase(k)\<close>, and \<open>modify_key\<close> is a change through a reference to
  the value of an existing entry.
\<close>

section \<open>Operations\<close>

definition keys_of :: "('k \<times> 'v) list \<Rightarrow> 'k list" where
  "keys_of m = map fst m"

definition erase_key :: "'k \<Rightarrow> ('k \<times> 'v) list \<Rightarrow> ('k \<times> 'v) list" where
  "erase_key k m = filter (\<lambda>e. fst e \<noteq> k) m"

definition modify_key :: "'k \<Rightarrow> ('v \<Rightarrow> 'v) \<Rightarrow> ('k \<times> 'v) list \<Rightarrow> ('k \<times> 'v) list" where
  "modify_key k f m = map (\<lambda>e. if fst e = k then (fst e, f (snd e)) else e) m"

fun om_assign_key :: "'k :: linorder \<Rightarrow> 'v \<Rightarrow> ('k \<times> 'v) list \<Rightarrow> ('k \<times> 'v) list" where
  "om_assign_key k v [] = [(k, v)]"
| "om_assign_key k v ((k', v') # m) =
     (if k < k' then (k, v) # (k', v') # m
      else if k = k' then (k, v) # m
      else (k', v') # om_assign_key k v m)"

definition om_insert_new :: "'k :: linorder \<Rightarrow> 'v \<Rightarrow> ('k \<times> 'v) list \<Rightarrow> ('k \<times> 'v) list" where
  "om_insert_new k v m = (if k \<in> set (keys_of m) then m else om_assign_key k v m)"

fun um_assign_key :: "'k \<Rightarrow> 'v \<Rightarrow> ('k \<times> 'v) list \<Rightarrow> ('k \<times> 'v) list" where
  "um_assign_key k v [] = [(k, v)]"
| "um_assign_key k v ((k', v') # m) =
     (if k = k' then (k, v) # m else (k', v') # um_assign_key k v m)"

definition um_insert_new :: "'k \<Rightarrow> 'v \<Rightarrow> ('k \<times> 'v) list \<Rightarrow> ('k \<times> 'v) list" where
  "um_insert_new k v m = (if k \<in> set (keys_of m) then m else um_assign_key k v m)"

definition om_wf :: "('k :: linorder \<times> 'v) list \<Rightarrow> bool" where
  "om_wf m = sorted_wrt (<) (keys_of m)"

definition um_wf :: "('k \<times> 'v) list \<Rightarrow> bool" where
  "um_wf m = distinct (keys_of m)"

section \<open>The interface\<close>

locale dictionary =
  fixes wf :: "('k \<times> 'v) list \<Rightarrow> bool"
    and put :: "'k \<Rightarrow> 'v \<Rightarrow> ('k \<times> 'v) list \<Rightarrow> ('k \<times> 'v) list"
    and add :: "'k \<Rightarrow> 'v \<Rightarrow> ('k \<times> 'v) list \<Rightarrow> ('k \<times> 'v) list"
  assumes wf_distinct: "wf m \<Longrightarrow> distinct (keys_of m)"
    and wf_empty: "wf []"
    and wf_put: "wf m \<Longrightarrow> wf (put k v m)"
    and wf_filter: "wf m \<Longrightarrow> wf (filter P m)"
    and wf_keys: "wf m \<Longrightarrow> keys_of m' = keys_of m \<Longrightarrow> wf m'"
    and find_put: "wf m \<Longrightarrow> map_of (put k v m) = (map_of m)(k \<mapsto> v)"
    and mset_put: "wf m \<Longrightarrow> k \<notin> set (keys_of m) \<Longrightarrow> mset (put k v m) = add_mset (k, v) (mset m)"
    and add_eq: "add k v m = (if k \<in> set (keys_of m) then m else put k v m)"
begin

lemma wf_erase: "wf m \<Longrightarrow> wf (erase_key k m)"
  by (simp add: erase_key_def wf_filter)

lemma keys_modify: "keys_of (modify_key k f m) = keys_of m"
  by (simp add: keys_of_def modify_key_def comp_def if_distrib cong: if_cong)

lemma wf_modify: "wf m \<Longrightarrow> wf (modify_key k f m)"
  by (rule wf_keys [OF _ keys_modify])

lemma wf_add: "wf m \<Longrightarrow> wf (add k v m)"
  by (simp add: add_eq wf_put)

lemma find_none_iff: "map_of m k = None \<longleftrightarrow> k \<notin> set (keys_of m)"
  by (simp add: keys_of_def map_of_eq_None_iff)

lemma find_add: "wf m \<Longrightarrow> map_of (add k v m) = (if map_of m k = None then (map_of m)(k \<mapsto> v) else map_of m)"
  by (simp add: add_eq find_put find_none_iff)

lemma find_erase: "map_of (erase_key k m) = (map_of m)(k := None)"
  by (induction m) (auto simp: erase_key_def fun_eq_iff)

lemma find_modify: "map_of (modify_key k f m) = (map_of m)(k := map_option f (map_of m k))"
  by (induction m) (auto simp: modify_key_def fun_eq_iff)

lemma mset_add: "wf m \<Longrightarrow> map_of m k = None \<Longrightarrow> mset (add k v m) = add_mset (k, v) (mset m)"
  by (simp add: add_eq mset_put find_none_iff)

lemma find_some_iff: "wf m \<Longrightarrow> map_of m k = Some v \<longleftrightarrow> (k, v) \<in> set m"
  using wf_distinct by (simp add: keys_of_def)

lemma erase_split:
  assumes "wf m" and "map_of m k = Some v"
  shows "mset m = add_mset (k, v) (mset (erase_key k m))"
proof -
  from assms(2) obtain xs ys where m: "m = xs @ (k, v) # ys" by (metis map_of_SomeD split_list)
  with wf_distinct [OF assms(1)] have "\<forall>e \<in> set xs. fst e \<noteq> k" "\<forall>e \<in> set ys. fst e \<noteq> k"
    by (force simp: keys_of_def)+
  then have "erase_key k m = xs @ ys"
    unfolding m erase_key_def by simp
  then show ?thesis by (simp add: m)
qed

lemma modify_split:
  assumes "wf m" and "map_of m k = Some v"
  shows "mset (modify_key k f m) = add_mset (k, f v) (mset (erase_key k m))"
proof -
  from assms(2) obtain xs ys where m: "m = xs @ (k, v) # ys" by (metis map_of_SomeD split_list)
  with wf_distinct [OF assms(1)] have "\<forall>e \<in> set xs. fst e \<noteq> k" "\<forall>e \<in> set ys. fst e \<noteq> k"
    by (force simp: keys_of_def)+
  then have "erase_key k m = xs @ ys" and "modify_key k f m = xs @ (k, f v) # ys"
    unfolding m erase_key_def modify_key_def by (simp_all add: map_idI)
  then show ?thesis by simp
qed

end

section \<open>The two representations\<close>

lemma keys_of_om_assign: "set (keys_of (om_assign_key k v m)) = insert k (set (keys_of m))"
  by (induction m rule: om_assign_key.induct) (auto simp: keys_of_def)

lemma keys_of_um_assign: "set (keys_of (um_assign_key k v m)) = insert k (set (keys_of m))"
  by (induction m rule: um_assign_key.induct) (auto simp: keys_of_def)

lemma om_wf_Cons: "om_wf (e # m) \<longleftrightarrow> (\<forall>k \<in> set (keys_of m). fst e < k) \<and> om_wf m"
  by (simp add: om_wf_def keys_of_def)

lemma om_wf_assign: "om_wf m \<Longrightarrow> om_wf (om_assign_key k v m)"
proof (induction m rule: om_assign_key.induct)
  case (2 k v k' v' m)
  then show ?case
    by (auto simp: om_wf_Cons keys_of_om_assign) (auto simp: keys_of_def)
qed (simp add: om_wf_def keys_of_def)

lemma map_of_om_assign: "om_wf m \<Longrightarrow> map_of (om_assign_key k v m) = (map_of m)(k \<mapsto> v)"
  by (induction m rule: om_assign_key.induct) (auto simp: om_wf_Cons)

lemma mset_om_assign: "k \<notin> set (keys_of m) \<Longrightarrow> mset (om_assign_key k v m) = add_mset (k, v) (mset m)"
  by (induction m rule: om_assign_key.induct) (auto simp: keys_of_def)

lemma map_of_um_assign: "map_of (um_assign_key k v m) = (map_of m)(k \<mapsto> v)"
  by (induction m rule: um_assign_key.induct) auto

lemma mset_um_assign: "k \<notin> set (keys_of m) \<Longrightarrow> mset (um_assign_key k v m) = add_mset (k, v) (mset m)"
  by (induction m rule: um_assign_key.induct) (auto simp: keys_of_def)

lemma um_wf_assign: "um_wf m \<Longrightarrow> um_wf (um_assign_key k v m)"
proof (induction m rule: um_assign_key.induct)
  case (2 k v k' v' m)
  then show ?case using keys_of_um_assign [of k v m] by (auto simp: um_wf_def keys_of_def)
qed (simp add: um_wf_def keys_of_def)

lemma om_wf_filter: "om_wf m \<Longrightarrow> om_wf (filter P m)"
  by (induction m) (auto simp: om_wf_Cons, auto simp: keys_of_def om_wf_def)

lemma um_wf_filter: "um_wf m \<Longrightarrow> um_wf (filter P m)"
  by (simp add: um_wf_def keys_of_def distinct_map_filter)

interpretation om: dictionary om_wf om_assign_key om_insert_new
  by unfold_locales
    (simp_all add: om_insert_new_def om_wf_assign om_wf_filter map_of_om_assign mset_om_assign,
     simp_all add: om_wf_def strict_sorted_iff keys_of_def)

interpretation um: dictionary um_wf um_assign_key um_insert_new
  by unfold_locales
    (simp_all add: um_insert_new_def um_wf_assign um_wf_filter map_of_um_assign mset_um_assign,
     simp_all add: um_wf_def keys_of_def)

end
