(* ===== verification/Outcome.thy ===== *)
theory Outcome
  imports Main
begin

text \<open>
  Results of code that may throw and may loop: \<open>None\<close> is a run that never returns, \<open>Some (Inl e)\<close> a
  run that throws \<open>e\<close>, \<open>Some (Inr x)\<close> a run that returns \<open>x\<close>.  \<open>rbind\<close> is sequencing; it is
  monotone, so it can be used in loops defined by \<^theory_text>\<open>partial_function\<close>.
\<close>

type_synonym ('e, 'a) outcome = "('e + 'a) option"

definition ret :: "'a \<Rightarrow> ('e, 'a) outcome" where
  "ret x = Some (Inr x)"

definition throw :: "'e \<Rightarrow> ('e, 'a) outcome" where
  "throw e = Some (Inl e)"

definition rbind :: "('e, 'a) outcome \<Rightarrow> ('a \<Rightarrow> ('e, 'b) outcome) \<Rightarrow> ('e, 'b) outcome" where
  "rbind m f = Option.bind m (\<lambda>r. case r of Inl e \<Rightarrow> Some (Inl e) | Inr x \<Rightarrow> f x)"

definition lift_opt :: "'a option \<Rightarrow> ('e, 'a) outcome" where
  "lift_opt m = map_option Inr m"

lemma rbind_ret [simp]: "rbind (ret x) f = f x"
  by (simp add: rbind_def ret_def)

lemma rbind_throw [simp]: "rbind (throw e) f = throw e"
  by (simp add: rbind_def throw_def)

lemma lift_opt_Some [simp]: "lift_opt (Some x) = ret x"
  by (simp add: lift_opt_def ret_def)

lemma ret_eq_iff [simp]: "ret x = ret y \<longleftrightarrow> x = y"
  by (simp add: ret_def)

lemma ret_neq_throw [simp]: "ret x \<noteq> throw e" "throw e \<noteq> ret x"
  by (simp_all add: ret_def throw_def)

lemma rbind_eq_ret_iff: "rbind m f = ret y \<longleftrightarrow> (\<exists>x. m = ret x \<and> f x = ret y)"
  by (cases m; cases "the m") (auto simp: rbind_def ret_def)

lemma rbind_assoc: "rbind (rbind m f) g = rbind m (\<lambda>x. rbind (f x) g)"
  by (cases m) (auto simp: rbind_def split: sum.split)

lemma rbind_mono [partial_function_mono]:
  assumes "mono_option B" and "\<And>y. mono_option (\<lambda>f. C y f)"
  shows "mono_option (\<lambda>f. rbind (B f) (\<lambda>y. C y f))"
  unfolding rbind_def
proof (rule bind_mono [OF assms(1)])
  fix r show "mono_option (\<lambda>f. case r of Inl e \<Rightarrow> Some (Inl e) | Inr x \<Rightarrow> C x f)"
    using assms(2) by (cases r) (simp_all add: option.const_mono)
qed

end
