(* ===== verification/Portable_Random.thy ===== *)
theory Portable_Random
  imports Prelude
begin

unbundle bit_operations_syntax

text \<open>
  The deterministic random choices of \<^verbatim>\<open>src/src/common/random.cpp\<close> and \<^verbatim>\<open>random.h\<close>.  A generator
  is a record of its step function and its seeding; \<open>mt19937_64\<close> is the engine
  \<^verbatim>\<open>std::mt19937_64\<close> of the C++ standard library, which every caller in the code uses.  The
  rejection loop of \<^verbatim>\<open>uniform_distribution_portable\<close> runs until the engine delivers an accepted
  value, so its result is an option, \<open>None\<close> standing for a loop that never returns;
  \<open>fair_generator\<close> says that a value below \<open>2 ^ 63\<close> comes up again from every engine state, which
  is enough for every loop to return.
\<close>

section \<open>Engines\<close>

record 'g generator =
  gen_next :: "'g \<Rightarrow> u64 \<times> 'g"
  gen_seed :: "u64 \<Rightarrow> 'g"

definition gen_step :: "'g generator \<Rightarrow> 'g \<Rightarrow> 'g" where
  "gen_step G g = snd (gen_next G g)"

definition fair_generator :: "'g generator \<Rightarrow> bool" where
  "fair_generator G \<longleftrightarrow>
     (\<forall>g. \<exists>k. unat (fst (gen_next G ((gen_step G ^^ k) g))) < 2 ^ 63)"

text \<open>The state of the Mersenne twister is the window of its last 312 words.\<close>

fun mt_seed_from :: "nat \<Rightarrow> nat \<Rightarrow> u64 \<Rightarrow> u64 list" where
  "mt_seed_from 0 i x = []"
| "mt_seed_from (Suc k) i x =
     x # mt_seed_from k (Suc i) (6364136223846793005 * (x XOR drop_bit 62 x) + of_nat (Suc i))"

definition mt_temper :: "u64 \<Rightarrow> u64" where
  "mt_temper x =
     (let z = x XOR (drop_bit 29 x AND 0x5555555555555555);
          z = z XOR (push_bit 17 z AND 0x71d67fffeda60000);
          z = z XOR (push_bit 37 z AND 0xfff7eee000000000)
      in z XOR drop_bit 43 z)"

definition mt_next :: "u64 list \<Rightarrow> u64 \<times> u64 list" where
  "mt_next xs =
     (let y = (xs ! 0 AND 0xFFFFFFFF80000000) OR (xs ! 1 AND 0x7FFFFFFF);
          x = xs ! 156 XOR drop_bit 1 y XOR (if y AND 1 = 1 then 0xb5026f5aa96619e9 else 0)
      in (mt_temper x, tl xs @ [x]))"

definition mt19937_64 :: "u64 list generator" where
  "mt19937_64 = \<lparr>gen_next = mt_next, gen_seed = mt_seed_from 312 0\<rparr>"

text \<open>The simplest fair engine: it delivers its seed once and then zeros.\<close>

definition one_shot_generator :: "u64 generator" where
  "one_shot_generator = \<lparr>gen_next = (\<lambda>g. (g, 0)), gen_seed = (\<lambda>seed. seed)\<rparr>"

section \<open>Operations\<close>

text \<open>The loop \<^verbatim>\<open>do x = rng(); while (x >= secureMax)\<close>.\<close>

partial_function (option) draw_below :: "'g generator \<Rightarrow> u64 \<Rightarrow> 'g \<Rightarrow> (u64 \<times> 'g) option" where
  "draw_below G secureMax g =
     (case gen_next G g of (x, g') \<Rightarrow>
        if secureMax \<le> x then draw_below G secureMax g' else Some (x, g'))"

definition secure_max :: "u64 \<Rightarrow> u64" where
  "secure_max n = UINT64_MAX - UINT64_MAX mod n"

definition uniform_distribution_portable :: "'g generator \<Rightarrow> u64 \<Rightarrow> 'g \<Rightarrow> (u64 \<times> 'g) option" where
  "uniform_distribution_portable G n g =
     (let secureMax = secure_max n
      in map_option (\<lambda>(x, g'). (x div (secureMax div n), g')) (draw_below G secureMax g))"

definition swap_nth :: "'a list \<Rightarrow> nat \<Rightarrow> nat \<Rightarrow> 'a list" where
  "swap_nth xs i j = xs[i := xs ! j, j := xs ! i]"

text \<open>The shuffle loop from index \<open>i\<close> on, with \<open>k\<close> rounds left.\<close>

primrec shuffle_rounds :: "'g generator \<Rightarrow> nat \<Rightarrow> nat \<Rightarrow> 'a list \<Rightarrow> 'g \<Rightarrow> 'a list option" where
  "shuffle_rounds G 0 i xs g = Some xs"
| "shuffle_rounds G (Suc k) i xs g =
     Option.bind (uniform_distribution_portable G (of_nat i + 1) g)
       (\<lambda>(j, g'). shuffle_rounds G k (Suc i) (swap_nth xs i (unat j)) g')"

definition shuffle_portable :: "'g generator \<Rightarrow> u64 \<Rightarrow> 'a list \<Rightarrow> 'a list option" where
  "shuffle_portable G seed xs =
     (if length xs \<le> 1 then Some xs
      else shuffle_rounds G (length xs - 1) 1 xs (gen_seed G seed))"

section \<open>The accepted range\<close>

lemma unat_secure_max: "unat (secure_max n) = ((2 ^ 64 - 1) div unat n) * unat n"
proof -
  have "unat (secure_max n) = (2 ^ 64 - 1) - (2 ^ 64 - 1) mod unat n"
    unfolding secure_max_def
    by (subst unat_sub_no_wrap) (simp_all add: unat_mod_word unat_UINT64_MAX)
  then show ?thesis
    using minus_mod_eq_div_mult [of "2 ^ 64 - 1" "unat n"] by simp
qed

lemma unat_draw_width: "0 < n \<Longrightarrow> unat (secure_max n div n) = (2 ^ 64 - 1) div unat n"
  by (simp add: unat_div_word unat_secure_max unat_gt_0)

lemma draw_width_pos: "0 < n \<Longrightarrow> 0 < unat (secure_max n div n)"
  using unat_lt64 [of n] by (simp add: unat_draw_width div_greater_zero_iff unat_gt_0)

lemma secure_max_large: "0 < n \<Longrightarrow> 2 ^ 63 \<le> unat (secure_max n)"
proof -
  assume n: "0 < n"
  define N M q :: nat where "N = unat n" and "M = 2 ^ 64 - 1" and "q = M div N"
  have N: "0 < N" "N \<le> M"
    using n unat_lt64 [of n] by (simp_all add: N_def M_def unat_gt_0)
  have "M = q * N + M mod N" by (simp add: q_def)
  moreover have "M mod N < N" using N by simp
  moreover have "0 < q" using N by (simp add: q_def div_greater_zero_iff)
  then have "N \<le> q * N" by simp
  ultimately have "M < 2 * (q * N)" by linarith
  then have "2 ^ 63 \<le> q * N" by (simp add: M_def)
  then show ?thesis by (simp add: unat_secure_max N_def M_def q_def)
qed

lemma draw_quotient_bound:
  assumes "0 < n" and "x < secure_max n"
  shows "x div (secure_max n div n) < n"
proof -
  have "unat x < ((2 ^ 64 - 1) div unat n) * unat n"
    using assms(2) by (simp add: word_less_nat_alt unat_secure_max)
  then have "unat x div ((2 ^ 64 - 1) div unat n) < unat n"
    by (intro less_mult_imp_div_less) (simp add: mult.commute)
  then show ?thesis
    using assms(1) by (simp add: word_less_nat_alt unat_div_word [of x] unat_draw_width)
qed

section \<open>The rejection loop\<close>

lemma draw_below_bound:
  assumes "draw_below G m g = Some (x, g')"
  shows "x < m"
proof -
  have "fst r < m" if "draw_below G m g = Some r" for r
  proof (rule draw_below.raw_induct [where P = "\<lambda>G m g r. fst r < m", OF _ that])
    fix f :: "'g generator \<Rightarrow> u64 \<Rightarrow> 'g \<Rightarrow> (u64 \<times> 'g) option" and G m g r
    assume IH: "\<And>G m g r. f G m g = Some r \<Longrightarrow> fst r < m"
      and eq: "(case gen_next G g of (x, g') \<Rightarrow> if m \<le> x then f G m g' else Some (x, g')) = Some r"
    show "fst r < m"
      using eq IH [of G m "snd (gen_next G g)" r]
      by (cases "m \<le> fst (gen_next G g)") (auto simp: case_prod_beta not_le)
  qed
  with assms show ?thesis by fastforce
qed

lemma draw_below_returns:
  assumes "fst (gen_next G ((gen_step G ^^ k) g)) < m"
  shows "\<exists>x g'. draw_below G m g = Some (x, g')"
  using assms
proof (induction k arbitrary: g)
  case 0
  then show ?case
    by (subst draw_below.simps) (auto simp: not_le split: prod.splits)
next
  case (Suc k)
  obtain x g1 where n: "gen_next G g = (x, g1)" by (cases "gen_next G g")
  show ?case
  proof (cases "m \<le> x")
    case True
    have "gen_step G g = g1" using n by (simp add: gen_step_def)
    then have "fst (gen_next G ((gen_step G ^^ k) g1)) < m"
      using Suc.prems by (simp add: funpow_swap1)
    with True n Suc.IH show ?thesis
      by (subst draw_below.simps) simp
  next
    case False
    with n show ?thesis by (subst draw_below.simps) simp
  qed
qed

section \<open>Uniform choice and shuffle\<close>

lemma uniform_distribution_bound:
  assumes "0 < n" and "uniform_distribution_portable G n g = Some (j, g')"
  shows "j < n"
  using assms draw_quotient_bound [OF assms(1) draw_below_bound]
  by (auto simp: uniform_distribution_portable_def Let_def)

lemma uniform_distribution_returns:
  assumes "fair_generator G" and "0 < n"
  shows "\<exists>j g'. uniform_distribution_portable G n g = Some (j, g')"
proof -
  obtain k where "unat (fst (gen_next G ((gen_step G ^^ k) g))) < 2 ^ 63"
    using assms(1) unfolding fair_generator_def by blast
  with secure_max_large [OF assms(2)]
  have "fst (gen_next G ((gen_step G ^^ k) g)) < secure_max n"
    by (simp add: word_less_nat_alt)
  then obtain x g' where "draw_below G (secure_max n) g = Some (x, g')"
    using draw_below_returns [of G k g "secure_max n"] by blast
  then show ?thesis
    by (auto simp: uniform_distribution_portable_def Let_def)
qed



lemma fair_one_shot_generator: "fair_generator one_shot_generator"
  unfolding fair_generator_def
proof
  fix g show "\<exists>k. unat (fst (gen_next one_shot_generator ((gen_step one_shot_generator ^^ k) g))) < 2 ^ 63"
    by (rule exI [of _ 1]) (simp add: one_shot_generator_def gen_step_def)
qed

section \<open>Shuffling\<close>

lemma mset_swap_nth: "i < length xs \<Longrightarrow> j < length xs \<Longrightarrow> mset (swap_nth xs i j) = mset xs"
  unfolding swap_nth_def by (rule mset_swap)

lemma length_swap_nth [simp]: "length (swap_nth xs i j) = length xs"
  by (simp add: swap_nth_def)

lemma round_choice_bound:
  assumes "uniform_distribution_portable G (of_nat i + 1) g = Some (j, g')" and "i + 1 < 2 ^ 64"
  shows "unat j \<le> i"
proof -
  have n: "unat (of_nat i + 1 :: u64) = i + 1"
    using unat_of_nat_u64 [OF assms(2)] by (simp only: of_nat_add of_nat_1)
  then have "0 < (of_nat i + 1 :: u64)" by (simp add: word_less_nat_alt)
  from uniform_distribution_bound [OF this assms(1)] n show ?thesis
    by (simp add: word_less_nat_alt)
qed

lemma shuffle_rounds_mset:
  assumes "shuffle_rounds G k i xs g = Some ys" and "i + k = length xs" and "length xs < 2 ^ 64"
  shows "mset ys = mset xs"
  using assms
proof (induction k arbitrary: i xs g)
  case 0
  then show ?case by simp
next
  case (Suc k)
  from Suc.prems(1) obtain j g' where
    j: "uniform_distribution_portable G (of_nat i + 1) g = Some (j, g')"
    and rest: "shuffle_rounds G k (Suc i) (swap_nth xs i (unat j)) g' = Some ys"
    by (auto simp: bind_eq_Some_conv)
  have "unat j \<le> i"
    using round_choice_bound [OF j] Suc.prems(2,3) by simp
  then have "mset (swap_nth xs i (unat j)) = mset xs"
    using Suc.prems(2) by (intro mset_swap_nth) simp_all
  with Suc.IH [OF rest] Suc.prems(2,3) show ?case by simp
qed

lemma shuffle_rounds_returns:
  assumes "fair_generator G" and "i + k < 2 ^ 64"
  shows "\<exists>ys. shuffle_rounds G k i xs g = Some ys"
  using assms(2)
proof (induction k arbitrary: i xs g)
  case 0
  then show ?case by simp
next
  case (Suc k)
  have "unat (of_nat i + 1 :: u64) = i + 1"
    using unat_of_nat_u64 [of "i + 1"] Suc.prems by (simp only: of_nat_add of_nat_1)
  then have "0 < (of_nat i + 1 :: u64)" by (simp add: word_less_nat_alt)
  from uniform_distribution_returns [OF assms(1) this]
  obtain j g' where "uniform_distribution_portable G (of_nat i + 1) g = Some (j, g')" by blast
  with Suc.IH [of "Suc i"] Suc.prems show ?case by simp
qed

lemma shuffle_portable_mset:
  "shuffle_portable G seed xs = Some ys \<Longrightarrow> length xs < 2 ^ 64 \<Longrightarrow> mset ys = mset xs"
  by (auto simp: shuffle_portable_def split: if_splits intro: shuffle_rounds_mset)

lemma shuffle_portable_returns:
  "fair_generator G \<Longrightarrow> length xs < 2 ^ 64 \<Longrightarrow> \<exists>ys. shuffle_portable G seed xs = Some ys"
  by (auto simp: shuffle_portable_def intro: shuffle_rounds_returns)

end
