(* ===== verification/Swarms.thy ===== *)
theory Swarms
  imports Config Ordered_Map Outcome Portable_Random
begin

text \<open>
  The assignment of service nodes to swarms, \<^verbatim>\<open>src/src/cryptonote_core/service_node_swarm.cpp\<close>.  A
  map from swarm ids to the keys of their nodes is a \<^verbatim>\<open>std::map\<close>, so a list of entries in ascending
  order of the ids.  The environment has the random engine and the sort of the swarms by size: the
  code uses \<^verbatim>\<open>std::sort\<close>, which leaves the order of swarms of equal size open, so the sort is a
  parameter of which \<open>size_sort\<close> states the contract.

  The loops that end only because of properties of the map are partial functions.  The main result is
  that the whole computation returns without an exception, keeps every node, and leaves no swarm
  with fewer than \<^verbatim>\<open>MIN_SWARM_SIZE\<close> nodes.
\<close>

section \<open>Data\<close>

type_synonym swarm_snode_map = "(swarm_id_t \<times> public_key list) list"

record swarm_size =
  ss_swarm_id :: swarm_id_t
  ss_size :: nat

record excess_pool_snode =
  eps_public_key :: public_key
  eps_swarm_id :: swarm_id_t

record 'g swarm_env =
  rng :: "'g generator"
  sort_sizes :: "swarm_size list \<Rightarrow> swarm_size list"

datatype swarm_error = out_of_range

definition size_sort :: "(swarm_size list \<Rightarrow> swarm_size list) \<Rightarrow> bool" where
  "size_sort srt \<longleftrightarrow> (\<forall>xs. mset (srt xs) = mset xs \<and> sorted (map ss_size (srt xs)))"

section \<open>Operations\<close>

text \<open>The loop over neighbouring ids, with the index and the pair \<^verbatim>\<open>(max_dist, best_idx)\<close>.\<close>

definition MAX_ID :: u64 where
  "MAX_ID = UINT64_MAX - 1"

fun best_gap :: "u64 list \<Rightarrow> nat \<Rightarrow> u64 \<times> nat \<Rightarrow> u64 \<times> nat" where
  "best_gap (a # b # ids) idx (max_dist, best_idx) =
     (let dist = b - a
      in best_gap (b # ids) (Suc idx) (if max_dist < dist then (dist, idx) else (max_dist, best_idx)))"
| "best_gap ids idx acc = acc"

definition get_new_swarm_id :: "swarm_snode_map \<Rightarrow> u64" where
  "get_new_swarm_id swarm_to_snodes =
     (if swarm_to_snodes = [] then 0
      else if length swarm_to_snodes = 1 then MAX_ID div 2
      else
        let all_ids = sort (keys_of swarm_to_snodes);
            (max_dist, best_idx) = best_gap all_ids 0 (0, 0);
            dist = MAX_ID - last all_ids + hd all_ids + 1;
            (max_dist, best_idx) =
              (if max_dist < dist then (dist, length all_ids - 1) else (max_dist, best_idx));
            diff = max_dist div 2;
            to_max = MAX_ID - all_ids ! best_idx
        in if to_max < diff then diff - to_max - 1 else all_ids ! best_idx + diff)"

definition calc_excess :: "swarm_snode_map \<Rightarrow> nat" where
  "calc_excess swarm_to_snodes = sum_list (map (\<lambda>e. length (snd e) - EXCESS_BASE) swarm_to_snodes)"

definition calc_threshold :: "swarm_snode_map \<Rightarrow> nat" where
  "calc_threshold swarm_to_snodes = NEW_SWARM_SIZE + length swarm_to_snodes * IDEAL_SWARM_MARGIN"

definition pick_from_excess_pool ::
    "'g swarm_env \<Rightarrow> excess_pool_snode list \<Rightarrow> 'g \<Rightarrow> (swarm_error, excess_pool_snode \<times> 'g) outcome" where
  "pick_from_excess_pool env excess_pool mt =
     rbind (lift_opt (uniform_distribution_portable (rng env) (of_nat (length excess_pool)) mt))
       (\<lambda>(idx, mt). if unat idx < length excess_pool then ret (excess_pool ! unat idx, mt)
                    else throw out_of_range)"

definition remove_excess_snode_from_swarm ::
    "excess_pool_snode \<Rightarrow> swarm_snode_map \<Rightarrow> (swarm_error, swarm_snode_map) outcome" where
  "remove_excess_snode_from_swarm excess_snode swarm_to_snodes =
     (case map_of swarm_to_snodes (eps_swarm_id excess_snode) of
        None \<Rightarrow> throw out_of_range
      | Some _ \<Rightarrow>
          ret (modify_key (eps_swarm_id excess_snode) (removeAll (eps_public_key excess_snode))
                 swarm_to_snodes))"

text \<open>The pool and the excess; the excess keeps its old value on the early return.\<close>

definition get_excess_pool ::
    "nat \<Rightarrow> swarm_snode_map \<Rightarrow> nat \<Rightarrow> excess_pool_snode list \<times> nat" where
  "get_excess_pool threshold swarm_to_snodes excess =
     (if threshold < MIN_SWARM_SIZE then ([], excess)
      else
        let rich = filter (\<lambda>e. threshold < length (snd e)) swarm_to_snodes
        in (concat (map (\<lambda>e. map (\<lambda>pk. \<lparr>eps_public_key = pk, eps_swarm_id = fst e\<rparr>) (snd e)) rich),
            sum_list (map (\<lambda>e. length (snd e) - MIN_SWARM_SIZE) rich)))"

definition has_starving_swarms :: "swarm_snode_map \<Rightarrow> bool" where
  "has_starving_swarms swarm_to_snodes \<longleftrightarrow>
     (\<exists>e \<in> set swarm_to_snodes. length (snd e) < MIN_SWARM_SIZE)"

text \<open>
  The inner loop of \<^verbatim>\<open>create_new_swarm_from_excess\<close> with \<open>k\<close> nodes still to take; the first
  component of the result is \<open>None\<close> when the pool runs dry and the function returns.
\<close>

primrec take_excess_snodes ::
    "'g swarm_env \<Rightarrow> nat \<Rightarrow> public_key list \<Rightarrow> swarm_snode_map \<Rightarrow> 'g \<Rightarrow>
       (swarm_error, public_key list option \<times> swarm_snode_map \<times> 'g) outcome" where
  "take_excess_snodes env 0 new_swarm_snodes swarm_to_snodes mt =
     ret (Some new_swarm_snodes, swarm_to_snodes, mt)"
| "take_excess_snodes env (Suc k) new_swarm_snodes swarm_to_snodes mt =
     (let (pool_snodes, excess) = get_excess_pool EXCESS_BASE swarm_to_snodes 0
      in if length pool_snodes = 0 then ret (None, swarm_to_snodes, mt)
         else
           rbind (pick_from_excess_pool env pool_snodes mt) (\<lambda>(random_excess_snode, mt).
           rbind (remove_excess_snode_from_swarm random_excess_snode swarm_to_snodes) (\<lambda>swarm_to_snodes.
           take_excess_snodes env k (new_swarm_snodes @ [eps_public_key random_excess_snode])
             swarm_to_snodes mt)))"

partial_function (option) create_swarms_loop ::
    "'g swarm_env \<Rightarrow> swarm_snode_map \<Rightarrow> 'g \<Rightarrow> (swarm_error + swarm_snode_map \<times> 'g) option" where
  "create_swarms_loop env swarm_to_snodes mt =
     (if calc_threshold swarm_to_snodes \<le> calc_excess swarm_to_snodes
      then rbind (take_excess_snodes env NEW_SWARM_SIZE [] swarm_to_snodes mt)
             (\<lambda>(new_swarm_snodes, swarm_to_snodes, mt).
                if new_swarm_snodes = None then ret (swarm_to_snodes, mt)
                else create_swarms_loop env
                       (om_insert_new (get_new_swarm_id swarm_to_snodes) (the new_swarm_snodes)
                          swarm_to_snodes) mt)
      else ret (swarm_to_snodes, mt))"

definition create_new_swarm_from_excess ::
    "'g swarm_env \<Rightarrow> swarm_snode_map \<Rightarrow> 'g \<Rightarrow> (swarm_error, swarm_snode_map \<times> 'g) outcome" where
  "create_new_swarm_from_excess env swarm_to_snodes mt =
     (if has_starving_swarms swarm_to_snodes then ret (swarm_to_snodes, mt)
      else create_swarms_loop env swarm_to_snodes mt)"

definition calc_swarm_sizes :: "'g swarm_env \<Rightarrow> swarm_snode_map \<Rightarrow> swarm_size list" where
  "calc_swarm_sizes env swarm_to_snodes =
     sort_sizes env (map (\<lambda>e. \<lparr>ss_swarm_id = fst e, ss_size = length (snd e)\<rparr>) swarm_to_snodes)"

text \<open>The loop for the last occurrence of the percentile value, from index \<open>i\<close> on.\<close>

fun find_upper_index :: "swarm_size list \<Rightarrow> nat \<Rightarrow> nat \<Rightarrow> nat \<Rightarrow> nat" where
  "find_upper_index [] i percentile_value upper_index = upper_index"
| "find_upper_index (s # ss) i percentile_value upper_index =
     (if percentile_value < ss_size s then i - 1
      else find_upper_index ss (Suc i) percentile_value upper_index)"

definition assign_snode ::
    "'g swarm_env \<Rightarrow> public_key \<Rightarrow> swarm_snode_map \<Rightarrow> 'g \<Rightarrow> nat \<Rightarrow>
       (swarm_error, swarm_snode_map \<times> 'g) outcome" where
  "assign_snode env sn_pk swarm_to_snodes mt percentile =
     (let sorted_swarm_sizes = calc_swarm_sizes env swarm_to_snodes;
          percentile_index = percentile * (length sorted_swarm_sizes - 1) div 100
      in if length sorted_swarm_sizes \<le> percentile_index then throw out_of_range
         else
           let percentile_value = ss_size (sorted_swarm_sizes ! percentile_index);
               upper_index = find_upper_index (drop percentile_index sorted_swarm_sizes)
                 percentile_index percentile_value (length sorted_swarm_sizes - 1)
           in rbind (lift_opt (uniform_distribution_portable (rng env) (of_nat (upper_index + 1)) mt))
                (\<lambda>(random_idx, mt).
                   let swarm_id = ss_swarm_id (sorted_swarm_sizes ! unat random_idx)
                   in case map_of swarm_to_snodes swarm_id of
                        None \<Rightarrow> throw out_of_range
                      | Some _ \<Rightarrow>
                          create_new_swarm_from_excess env
                            (modify_key swarm_id (\<lambda>sns. sns @ [sn_pk]) swarm_to_snodes) mt))"

primrec assign_snodes ::
    "'g swarm_env \<Rightarrow> public_key list \<Rightarrow> swarm_snode_map \<Rightarrow> 'g \<Rightarrow> nat \<Rightarrow>
       (swarm_error, swarm_snode_map \<times> 'g) outcome" where
  "assign_snodes env [] swarm_to_snodes mt percentile = ret (swarm_to_snodes, mt)"
| "assign_snodes env (sn_pk # snode_pubkeys) swarm_to_snodes mt percentile =
     rbind (assign_snode env sn_pk swarm_to_snodes mt percentile)
       (\<lambda>(swarm_to_snodes, mt). assign_snodes env snode_pubkeys swarm_to_snodes mt percentile)"

text \<open>
  The body of the Robin Hood round for one poor swarm: nodes move to it one at a time until it has
  \<^verbatim>\<open>MIN_SWARM_SIZE\<close> nodes; the flag of the result is \<^verbatim>\<open>insufficient_excess\<close>.
\<close>

partial_function (option) steal_for_swarm ::
    "'g swarm_env \<Rightarrow> swarm_size list \<Rightarrow> swarm_id_t \<Rightarrow> swarm_snode_map \<Rightarrow> 'g \<Rightarrow>
       (swarm_error + bool \<times> swarm_snode_map \<times> 'g) option" where
  "steal_for_swarm env sorted_swarm_sizes swarm_id swarm_to_snodes mt =
     (let percentile_index = STEALING_SWARM_UPPER_PERCENTILE * (length sorted_swarm_sizes - 1) div 100;
          percentile_value = size_sub (ss_size (sorted_swarm_sizes ! percentile_index)) 1;
          percentile_value = max MIN_SWARM_SIZE percentile_value;
          (excess_pool, excess) = get_excess_pool percentile_value swarm_to_snodes 0;
          deficit = size_sub MIN_SWARM_SIZE (length (the (map_of swarm_to_snodes swarm_id)))
      in if excess < deficit then ret (True, swarm_to_snodes, mt)
         else
           rbind (pick_from_excess_pool env excess_pool mt) (\<lambda>(excess_snode, mt).
           rbind (remove_excess_snode_from_swarm excess_snode swarm_to_snodes) (\<lambda>swarm_to_snodes.
             let swarm_to_snodes =
                   modify_key swarm_id (\<lambda>sns. sns @ [eps_public_key excess_snode]) swarm_to_snodes
             in if length (the (map_of swarm_to_snodes swarm_id)) < MIN_SWARM_SIZE
                then steal_for_swarm env sorted_swarm_sizes swarm_id swarm_to_snodes mt
                else ret (False, swarm_to_snodes, mt))))"

primrec robin_hood_round ::
    "'g swarm_env \<Rightarrow> swarm_size list \<Rightarrow> swarm_size list \<Rightarrow> swarm_snode_map \<Rightarrow> 'g \<Rightarrow>
       (swarm_error, swarm_snode_map \<times> 'g) outcome" where
  "robin_hood_round env sorted_swarm_sizes [] swarm_to_snodes mt = ret (swarm_to_snodes, mt)"
| "robin_hood_round env sorted_swarm_sizes (swarm # swarms) swarm_to_snodes mt =
     (if MIN_SWARM_SIZE \<le> ss_size swarm then ret (swarm_to_snodes, mt)
      else if map_of swarm_to_snodes (ss_swarm_id swarm) = None then throw out_of_range
      else
        rbind (steal_for_swarm env sorted_swarm_sizes (ss_swarm_id swarm) swarm_to_snodes mt)
          (\<lambda>(insufficient_excess, swarm_to_snodes, mt).
             if insufficient_excess then ret (swarm_to_snodes, mt)
             else robin_hood_round env sorted_swarm_sizes swarms swarm_to_snodes mt))"

partial_function (option) decommission_swarms ::
    "'g swarm_env \<Rightarrow> swarm_snode_map \<Rightarrow> 'g \<Rightarrow> (swarm_error + swarm_snode_map \<times> 'g) option" where
  "decommission_swarms env swarm_to_snodes mt =
     (case find (\<lambda>e. length (snd e) < MIN_SWARM_SIZE) swarm_to_snodes of
        None \<Rightarrow> ret (swarm_to_snodes, mt)
      | Some it \<Rightarrow>
          rbind (assign_snodes env (snd it) (erase_key (fst it) swarm_to_snodes) mt
                   DECOMMISSIONED_REDISTRIBUTION_LOWER_PERCENTILE)
            (\<lambda>(swarm_to_snodes, mt). decommission_swarms env swarm_to_snodes mt))"

definition calc_swarm_changes ::
    "'g swarm_env \<Rightarrow> swarm_snode_map \<Rightarrow> u64 \<Rightarrow> (swarm_error, swarm_snode_map) outcome" where
  "calc_swarm_changes env swarm_to_snodes seed =
     (if length swarm_to_snodes = 0 then ret swarm_to_snodes
      else
        let mersenne_twister = gen_seed (rng env) seed;
            unassigned_snodes =
              (case map_of swarm_to_snodes UNASSIGNED_SWARM_ID of None \<Rightarrow> [] | Some sns \<Rightarrow> sns);
            swarm_to_snodes = erase_key UNASSIGNED_SWARM_ID swarm_to_snodes;
            swarm_to_snodes =
              (if length swarm_to_snodes = 0 then om_insert_new (get_new_swarm_id []) [] swarm_to_snodes
               else swarm_to_snodes)
        in
          rbind (assign_snodes env unassigned_snodes swarm_to_snodes mersenne_twister
                   FILL_SWARM_LOWER_PERCENTILE) (\<lambda>(swarm_to_snodes, mt).
          let sorted_swarm_sizes = calc_swarm_sizes env swarm_to_snodes in
          rbind (robin_hood_round env sorted_swarm_sizes sorted_swarm_sizes swarm_to_snodes mt)
            (\<lambda>(swarm_to_snodes, mt).
          rbind (create_new_swarm_from_excess env swarm_to_snodes mt) (\<lambda>(swarm_to_snodes, mt).
          rbind (if 1 < length swarm_to_snodes then decommission_swarms env swarm_to_snodes mt
                 else ret (swarm_to_snodes, mt)) (\<lambda>(swarm_to_snodes, mt).
          ret swarm_to_snodes)))))"

section \<open>Fresh swarm ids\<close>

lemma best_gap_spec:
  "best_gap ids idx (d, b) = (d', b') \<Longrightarrow>
     d \<le> d' \<and> (\<forall>j. Suc j < length ids \<longrightarrow> ids ! Suc j - ids ! j \<le> d') \<and>
     ((d' = d \<and> b' = b) \<or> (\<exists>j. Suc j < length ids \<and> b' = idx + j \<and> d' = ids ! Suc j - ids ! j))"
proof (induction ids idx "(d, b)" arbitrary: d b rule: best_gap.induct)
  case (1 a b ids idx d be)
  define acc where "acc = (if d < b - a then (b - a, idx) else (d, be))"
  obtain d1 b1 where acc1: "acc = (d1, b1)" by fastforce
  have eq: "best_gap (b # ids) (Suc idx) (d1, b1) = (d', b')"
    using "1.prems" acc1 by (simp add: acc_def Let_def)
  note IH = "1.hyps" [OF refl, folded acc_def, OF acc1 eq]
  have d1: "d \<le> d1" "b - a \<le> d1" using acc1 by (auto simp: acc_def split: if_splits)
  have all: "(a # b # ids) ! Suc j - (a # b # ids) ! j \<le> d'" if "Suc j < length (a # b # ids)" for j
    using that IH d1 by (cases j) auto
  have "(d' = d \<and> b' = be) \<or>
    (\<exists>j. Suc j < length (a # b # ids) \<and> b' = idx + j \<and> d' = (a # b # ids) ! Suc j - (a # b # ids) ! j)"
  proof (cases "d' = d1 \<and> b' = b1")
    case True
    with acc1 have "(d' = d \<and> b' = be) \<or> (b' = idx + 0 \<and> d' = (a # b # ids) ! Suc 0 - (a # b # ids) ! 0)"
      by (auto simp: acc_def split: if_splits)
    then show ?thesis by (metis length_Cons Suc_less_eq zero_less_Suc)
  next
    case False
    with IH obtain j where "Suc j < length (b # ids)" "b' = Suc idx + j"
      "d' = (b # ids) ! Suc j - (b # ids) ! j" by blast
    then have "Suc (Suc j) < length (a # b # ids) \<and> b' = idx + Suc j \<and>
        d' = (a # b # ids) ! Suc (Suc j) - (a # b # ids) ! Suc j" by simp
    then show ?thesis by blast
  qed
  with all IH d1 show ?case by fastforce
qed auto

lemma unat_MAX_ID: "unat MAX_ID = 2 ^ 64 - 2"
  by (simp add: MAX_ID_def unat_sub_no_wrap unat_UINT64_MAX)

lemma le_MAX_ID_assigned: "x \<le> MAX_ID \<Longrightarrow> x \<noteq> UNASSIGNED_SWARM_ID"
  by (auto simp: word_le_nat_alt unat_MAX_ID UNASSIGNED_SWARM_ID_def unat_UINT64_MAX)

lemma strict_sorted_nth_less:
  "sorted_wrt (<) (xs :: u64 list) \<Longrightarrow> i < j \<Longrightarrow> j < length xs \<Longrightarrow> xs ! i < xs ! j"
  by (simp add: sorted_wrt_nth_less)

lemma between_not_member:
  assumes "sorted_wrt (<) (xs :: u64 list)" and "Suc j < length xs" and "xs ! j < y" and "y < xs ! Suc j"
  shows "y \<notin> set xs"
proof
  assume "y \<in> set xs"
  then obtain i where i: "i < length xs" "xs ! i = y" by (auto simp: in_set_conv_nth)
  show False
  proof (cases "i \<le> j")
    case True
    then have "xs ! i \<le> xs ! j"
      using strict_sorted_nth_less [OF assms(1), of i j] assms(2) by (cases "i = j") auto
    with i assms(3) show False by simp
  next
    case False
    then have "xs ! Suc j \<le> xs ! i"
      using strict_sorted_nth_less [OF assms(1), of "Suc j" i] i by (cases "i = Suc j") auto
    with i assms(4) show False by simp
  qed
qed

text \<open>If every step of an ascending list is at most \<open>1\<close>, it cannot climb further than its length.\<close>

lemma small_steps_bound:
  assumes "sorted_wrt (<) (xs :: u64 list)" and "\<forall>j. Suc j < length xs \<longrightarrow> xs ! Suc j - xs ! j \<le> 1"
    and "i < length xs"
  shows "unat (xs ! i) \<le> unat (xs ! 0) + i"
  using assms(3)
proof (induction i)
  case (Suc i)
  have lt: "xs ! i < xs ! Suc i" using strict_sorted_nth_less [OF assms(1)] Suc.prems by simp
  then have "unat (xs ! Suc i - xs ! i) = unat (xs ! Suc i) - unat (xs ! i)"
    by (intro unat_sub_no_wrap) (simp add: word_less_nat_alt)
  moreover have "unat (xs ! Suc i - xs ! i) \<le> 1"
    using assms(2) Suc.prems by (metis word_le_nat_alt unat_1)
  ultimately have "unat (xs ! Suc i) \<le> unat (xs ! i) + 1" by simp
  with Suc show ?case by simp
qed simp

lemma half_in_gap:
  assumes "2 \<le> unat (d :: u64)"
  shows "0 < unat (d div 2)" and "unat (d div 2) < unat d"
  using assms by (simp_all add: unat_div_word)

lemma strict_sorted_range:
  assumes "sorted_wrt (<) (xs :: u64 list)" and "y \<in> set xs"
  shows "hd xs \<le> y" and "y \<le> last xs"
proof -
  obtain i where i: "i < length xs" "y = xs ! i" using assms(2) by (auto simp: in_set_conv_nth)
  then have ne: "xs \<noteq> []" by auto
  show "hd xs \<le> y"
    using strict_sorted_nth_less [OF assms(1), of 0 i] i ne by (cases "i = 0") (simp_all add: hd_conv_nth)
  show "y \<le> last xs"
    using strict_sorted_nth_less [OF assms(1), of i "length xs - 1"] i ne
    by (cases "i = length xs - 1") (auto simp: last_conv_nth less_imp_le)
qed

lemma inner_gap_fresh:
  assumes "sorted_wrt (<) ids" and "Suc j < length ids" and "ids ! Suc j \<le> MAX_ID"
    and "d = ids ! Suc j - ids ! j" and "2 \<le> unat d"
  shows "\<not> MAX_ID - ids ! j < d div 2" and "ids ! j + d div 2 \<notin> set ids"
    and "ids ! j + d div 2 < MAX_ID"
proof -
  have lt: "unat (ids ! j) < unat (ids ! Suc j)"
    using strict_sorted_nth_less [OF assms(1), of j "Suc j"] assms(2) by (simp add: word_less_nat_alt)
  then have d: "unat d = unat (ids ! Suc j) - unat (ids ! j)"
    unfolding assms(4) by (intro unat_sub_no_wrap) simp
  have top: "unat (ids ! Suc j) \<le> unat MAX_ID" using assms(3) by (simp add: word_le_nat_alt)
  note half = half_in_gap [OF assms(5)]
  have sum: "unat (ids ! j + d div 2) = unat (ids ! j) + unat (d div 2)"
    using half d top lt unat_lt64 [of "ids ! Suc j"] by (intro unat_add_no_wrap) simp
  have "unat (MAX_ID - ids ! j) = unat MAX_ID - unat (ids ! j)"
    using top lt by (intro unat_sub_no_wrap) simp
  then show "\<not> MAX_ID - ids ! j < d div 2"
    using half d top lt by (simp add: word_less_nat_alt)
  show "ids ! j + d div 2 \<notin> set ids"
    by (rule between_not_member [OF assms(1,2)])
      (unfold word_less_nat_alt sum, use half d in simp_all)
  show "ids ! j + d div 2 < MAX_ID"
    unfolding word_less_nat_alt sum using half d top lt by simp
qed

lemma outer_gap_fresh:
  assumes "sorted_wrt (<) ids" and "2 \<le> length ids" and "last ids \<le> MAX_ID"
    and "d = MAX_ID - last ids + hd ids + 1" and "2 \<le> unat d"
  defines "new \<equiv> (if MAX_ID - last ids < d div 2 then d div 2 - (MAX_ID - last ids) - 1 else last ids + d div 2)"
  shows "new \<notin> set ids" and "new \<le> MAX_ID"
proof -
  obtain x xs where ids: "ids = x # xs" "xs \<noteq> []"
    using assms(2) by (cases ids rule: remdups_adj.cases) auto
  have hl: "unat (hd ids) < unat (last ids)"
    using assms(1) ids by (auto simp: word_less_nat_alt)
  have top: "unat (last ids) \<le> unat MAX_ID" using assms(3) by (simp add: word_le_nat_alt)
  have tm: "unat (MAX_ID - last ids) = unat MAX_ID - unat (last ids)"
    using top by (intro unat_sub_no_wrap)
  have "unat (MAX_ID - last ids + hd ids) = unat MAX_ID - unat (last ids) + unat (hd ids)"
    using tm hl top by (subst unat_add_no_wrap) (simp_all add: unat_MAX_ID)
  then have d: "unat d = unat MAX_ID - unat (last ids) + unat (hd ids) + 1"
    unfolding assms(4) using hl top by (subst unat_add_no_wrap) (simp_all add: unat_MAX_ID)
  note half = half_in_gap [OF assms(5)]
  have M: "unat MAX_ID + 2 = 2 ^ 64" by (simp add: unat_MAX_ID)
  have "unat new < unat (hd ids) \<or> unat (last ids) < unat new \<and> unat new \<le> unat MAX_ID"
  proof (cases "MAX_ID - last ids < d div 2")
    case True
    then have lt: "unat MAX_ID - unat (last ids) < unat (d div 2)" by (simp add: word_less_nat_alt tm)
    then have "unat (d div 2 - (MAX_ID - last ids)) = unat (d div 2) - (unat MAX_ID - unat (last ids))"
      using tm by (subst unat_sub_no_wrap) simp_all
    then have "unat new = unat (d div 2) - (unat MAX_ID - unat (last ids)) - 1"
      using True lt by (simp add: new_def) (subst unat_sub_no_wrap, simp_all)
    with lt half d show ?thesis by linarith
  next
    case False
    then have le: "unat (d div 2) \<le> unat MAX_ID - unat (last ids)" by (simp add: word_less_nat_alt tm)
    then have "unat new = unat (last ids) + unat (d div 2)"
      using False M top by (simp add: new_def) (subst unat_add_no_wrap, simp_all)
    with le half top show ?thesis by linarith
  qed
  then show "new \<notin> set ids" and "new \<le> MAX_ID"
    using strict_sorted_range [OF assms(1), of new] hl top
    by (auto simp: word_le_nat_alt)
qed

lemma largest_gap_big:
  assumes "sorted_wrt (<) ids" and "2 \<le> length ids" and "last ids \<le> MAX_ID" and "length ids < 2 ^ 63"
    and "best_gap ids 0 (0, 0) = (d0, b0)" and "dist = MAX_ID - last ids + hd ids + 1"
  shows "2 \<le> unat (max d0 dist)"
proof (rule ccontr)
  assume "\<not> 2 \<le> unat (max d0 dist)"
  then have small: "unat d0 \<le> 1" "unat dist \<le> 1" by (simp_all add: unat_max_u64)
  have ne: "ids \<noteq> []" using assms(2) by auto
  have "\<forall>j. Suc j < length ids \<longrightarrow> ids ! Suc j - ids ! j \<le> 1"
    using best_gap_spec [OF assms(5)] small(1) by (fastforce simp: word_le_nat_alt)
  from small_steps_bound [OF assms(1) this, of "length ids - 1"]
  have climb: "unat (last ids) \<le> unat (hd ids) + (length ids - 1)"
    using ne by (simp add: last_conv_nth hd_conv_nth)
  have hl: "unat (hd ids) < unat (last ids)"
    using strict_sorted_nth_less [OF assms(1), of 0 "length ids - 1"] assms(2) ne
    by (simp add: last_conv_nth hd_conv_nth word_less_nat_alt)
  have top: "unat (last ids) \<le> unat MAX_ID" using assms(3) by (simp add: word_le_nat_alt)
  have M: "unat MAX_ID + 2 = 2 ^ 64" by (simp add: unat_MAX_ID)
  have "unat dist = unat MAX_ID - unat (last ids) + unat (hd ids) + 1"
    unfolding assms(6) using hl top M by (simp add: unat_add_no_wrap unat_sub_no_wrap)
  with small(2) climb assms(4) M hl top show False by simp
qed

lemma get_new_swarm_id_fresh:
  assumes "om_wf m" and "UNASSIGNED_SWARM_ID \<notin> set (keys_of m)"
    and "length m < 2 ^ 63" and "length m = 1 \<Longrightarrow> MAX_ID div 2 \<notin> set (keys_of m)"
  shows "get_new_swarm_id m \<notin> set (keys_of m) \<and> get_new_swarm_id m \<noteq> UNASSIGNED_SWARM_ID"
proof -
  define ids where "ids = keys_of m"
  have sorted: "sorted_wrt (<) ids" using assms(1) by (simp add: ids_def om_wf_def)
  then have sort_ids: "sort ids = ids" by (simp add: strict_sorted_iff sort_key_id_if_sorted)
  have len: "length m = length ids" by (simp add: ids_def keys_of_def)
  have below: "unat x \<le> unat MAX_ID" if "x \<in> set ids" for x
  proof -
    have "x \<noteq> UINT64_MAX" using that assms(2) by (auto simp: ids_def UNASSIGNED_SWARM_ID_def)
    then have "unat x \<noteq> unat UINT64_MAX" by (simp only: word_unat_eq_iff not_False_eq_True)
    then show ?thesis using unat_lt64 [of x] by (simp add: unat_MAX_ID unat_UINT64_MAX)
  qed
  consider "ids = []" | "length ids = 1" | "2 \<le> length ids" by (cases ids rule: remdups_adj.cases) auto
  then show ?thesis
  proof cases
    case 1
    then show ?thesis by (simp add: get_new_swarm_id_def ids_def keys_of_def UNASSIGNED_SWARM_ID_def)
  next
    case 2
    then show ?thesis using assms(4) len
      by (auto simp: get_new_swarm_id_def MAX_ID_def UNASSIGNED_SWARM_ID_def)
  next
    case 3
    obtain d0 b0 where g: "best_gap ids 0 (0, 0) = (d0, b0)" by fastforce
    note spec = best_gap_spec [OF g]
    define dist where "dist = MAX_ID - last ids + hd ids + 1"
    have new: "get_new_swarm_id m =
      (let (d, b) = (if d0 < dist then (dist, length ids - 1) else (d0, b0))
       in if MAX_ID - ids ! b < d div 2 then d div 2 - (MAX_ID - ids ! b) - 1 else ids ! b + d div 2)"
      using 3 len by (auto simp: get_new_swarm_id_def ids_def [symmetric] sort_ids g dist_def Let_def)
    have ne: "ids \<noteq> []" using 3 by auto
    have big: "2 \<le> unat (max d0 dist)" using largest_gap_big [OF sorted 3 _ _ g dist_def] below len assms(3) ne
      by (simp add: word_le_nat_alt)
    have lastm: "last ids \<le> MAX_ID" using below ne by (simp add: word_le_nat_alt)
    show ?thesis
    proof (cases "d0 < dist")
      case True
      then have "2 \<le> unat dist" using big by (simp add: max_def split: if_splits)
      note fresh = outer_gap_fresh [OF sorted 3 lastm dist_def this]
      have "ids ! (length ids - 1) = last ids" using ne by (simp add: last_conv_nth)
      with True show ?thesis
        using fresh(1) le_MAX_ID_assigned [OF fresh(2)]
        unfolding new ids_def [symmetric] by (simp only: if_True Let_def prod.case) blast
    next
      case False
      then have d0: "2 \<le> unat d0" using big by (simp add: max_def split: if_splits)
      with spec obtain j where j: "Suc j < length ids" "b0 = j" "d0 = ids ! Suc j - ids ! j" by auto
      then have "ids ! Suc j \<le> MAX_ID" using below by (simp add: word_le_nat_alt)
      note inner_gap_fresh [OF sorted j(1) this j(3) d0]
      with False j show ?thesis
        using le_MAX_ID_assigned [OF less_imp_le] unfolding new by (simp add: ids_def [symmetric])
    qed
  qed
qed

section \<open>Nodes, excess and starving swarms\<close>

definition swarm_nodes :: "swarm_snode_map \<Rightarrow> public_key multiset" where
  "swarm_nodes m = mset (concat (map snd m))"

definition starving :: "swarm_snode_map \<Rightarrow> swarm_id_t set" where
  "starving m = {k. \<exists>v. map_of m k = Some v \<and> length v < MIN_SWARM_SIZE}"

definition swarm_inv :: "swarm_snode_map \<Rightarrow> bool" where
  "swarm_inv m \<longleftrightarrow> om_wf m \<and> UNASSIGNED_SWARM_ID \<notin> set (keys_of m) \<and>
     (\<forall>pk. count (swarm_nodes m) pk \<le> 1) \<and> size (swarm_nodes m) < 2 ^ 63"

text \<open>
  The swarm id handed out to a second swarm is fixed, so it must not be taken by a swarm that could
  end up alone: either it is free, or another swarm is large enough to stay.
\<close>

definition anchored :: "swarm_snode_map \<Rightarrow> bool" where
  "anchored m \<longleftrightarrow> MAX_ID div 2 \<notin> set (keys_of m) \<or>
     (\<exists>k v. map_of m k = Some v \<and> k \<noteq> MAX_ID div 2 \<and> MIN_SWARM_SIZE \<le> length v)"

text \<open>
  What an operation that keeps every swarm guarantees: the invariant, no swarm lost, no swarm newly
  starving, and still anchored.
\<close>

definition keeps_swarms :: "swarm_snode_map \<Rightarrow> swarm_snode_map \<Rightarrow> bool" where
  "keeps_swarms m m' \<longleftrightarrow> swarm_inv m' \<and> set (keys_of m) \<subseteq> set (keys_of m') \<and>
     starving m' \<subseteq> starving m \<and> (anchored m \<longrightarrow> anchored m')"

lemma keeps_swarms_refl: "swarm_inv m \<Longrightarrow> keeps_swarms m m"
  by (simp add: keeps_swarms_def)

lemma keeps_swarms_trans: "keeps_swarms m m' \<Longrightarrow> keeps_swarms m' m'' \<Longrightarrow> keeps_swarms m m''"
  by (auto simp: keeps_swarms_def)

lemma swarm_nodes_mset: "swarm_nodes m = (\<Sum>e \<in># mset m. mset (snd e))"
  unfolding swarm_nodes_def by (induction m) simp_all

lemma calc_excess_mset: "calc_excess m = (\<Sum>e \<in># mset m. length (snd e) - EXCESS_BASE)"
  unfolding calc_excess_def by (induction m) simp_all

lemma swarm_nodes_split:
  "om_wf m \<Longrightarrow> map_of m k = Some v \<Longrightarrow> swarm_nodes m = mset v + swarm_nodes (erase_key k m)"
  using om.erase_split [of m k v] by (simp add: swarm_nodes_mset)

lemma swarm_nodes_modify:
  "om_wf m \<Longrightarrow> map_of m k = Some v \<Longrightarrow> swarm_nodes (modify_key k f m) = mset (f v) + swarm_nodes (erase_key k m)"
  using om.modify_split [of m k v f] by (simp add: swarm_nodes_mset)

lemma calc_excess_modify:
  "om_wf m \<Longrightarrow> map_of m k = Some v \<Longrightarrow>
     calc_excess (modify_key k f m) + (length v - EXCESS_BASE) = calc_excess m + (length (f v) - EXCESS_BASE)"
  using om.modify_split [of m k v f] om.erase_split [of m k v] by (simp add: calc_excess_mset)

lemma swarm_nodes_insert:
  "om_wf m \<Longrightarrow> k \<notin> set (keys_of m) \<Longrightarrow> swarm_nodes (om_insert_new k v m) = mset v + swarm_nodes m"
  using om.mset_add [of m k v] by (simp add: swarm_nodes_mset om.find_none_iff)

lemma calc_excess_insert:
  "om_wf m \<Longrightarrow> k \<notin> set (keys_of m) \<Longrightarrow> calc_excess (om_insert_new k v m) = calc_excess m + (length v - EXCESS_BASE)"
  using om.mset_add [of m k v] by (simp add: calc_excess_mset om.find_none_iff)

lemma length_insert:
  "om_wf m \<Longrightarrow> k \<notin> set (keys_of m) \<Longrightarrow> length (om_insert_new k v m) = Suc (length m)"
  using arg_cong [OF om.mset_add [of m k v], of size] by (simp add: om.find_none_iff)

lemma keys_insert: "set (keys_of (om_insert_new k v m)) = insert k (set (keys_of m))"
  by (auto simp: om_insert_new_def keys_of_om_assign)

lemma has_starving_iff: "om_wf m \<Longrightarrow> has_starving_swarms m \<longleftrightarrow> starving m \<noteq> {}"
  using om.find_some_iff [of m] by (force simp: has_starving_swarms_def starving_def)

lemma starving_keys: "starving m \<subseteq> set (keys_of m)"
  by (auto simp: starving_def) (metis om.find_none_iff option.distinct(1))

lemma key_find: "k \<in> set (keys_of m) \<longleftrightarrow> (\<exists>v. map_of m k = Some v)"
  by (metis om.find_none_iff not_None_eq)

lemma swarm_le_nodes: "om_wf m \<Longrightarrow> map_of m k = Some v \<Longrightarrow> length v \<le> size (swarm_nodes m)"
  by (simp add: swarm_nodes_split)

lemma distinct_swarm:
  assumes "swarm_inv m" and "map_of m k = Some v"
  shows "distinct v"
proof -
  have "count (mset v) x \<le> 1" for x
    using assms swarm_nodes_split [of m k v] by (simp add: swarm_inv_def) (metis add_leE)
  then show ?thesis by (simp add: distinct_count_atmost_1 count_list_0_iff) (metis le_antisym One_nat_def Suc_leI count_greater_zero_iff in_multiset_in_set)
qed

lemma in_excess_pool:
  assumes "om_wf m" and "MIN_SWARM_SIZE \<le> t"
  shows "e \<in> set (fst (get_excess_pool t m x)) \<longleftrightarrow>
           (\<exists>v. map_of m (eps_swarm_id e) = Some v \<and> t < length v \<and> eps_public_key e \<in> set v)"
proof -
  have "(\<exists>k v pk. (k, v) \<in> set m \<and> t < length v \<and> pk \<in> set v \<and> e = \<lparr>eps_public_key = pk, eps_swarm_id = k\<rparr>)
     \<longleftrightarrow> (\<exists>v. (eps_swarm_id e, v) \<in> set m \<and> t < length v \<and> eps_public_key e \<in> set v)"
    by (cases e) auto
  then show ?thesis
    using assms(2) om.find_some_iff [OF assms(1)]
    by (auto simp: get_excess_pool_def Let_def)
qed

lemma length_excess_pool: "length (fst (get_excess_pool t m x)) \<le> size (swarm_nodes m)"
  unfolding swarm_nodes_def get_excess_pool_def Let_def
  by (induction m) (auto simp: length_concat)

lemma pick_returns:
  assumes "fair_generator (rng env)" and "pool \<noteq> []" and "length pool < 2 ^ 64"
  shows "\<exists>e g'. pick_from_excess_pool env pool g = ret (e, g') \<and> e \<in> set pool"
proof -
  have n: "unat (of_nat (length pool) :: u64) = length pool" by (rule unat_of_nat_u64 [OF assms(3)])
  then have pos: "0 < (of_nat (length pool) :: u64)" using assms(2) by (simp add: word_less_nat_alt)
  from uniform_distribution_returns [OF assms(1) pos] obtain j g' where
    d: "uniform_distribution_portable (rng env) (of_nat (length pool)) g = Some (j, g')" by blast
  from uniform_distribution_bound [OF pos d] have "unat j < length pool"
    by (simp add: word_less_nat_alt n)
  then show ?thesis by (simp add: pick_from_excess_pool_def d)
qed

lemma anchored_alt:
  "anchored m \<longleftrightarrow> MAX_ID div 2 \<notin> set (keys_of m) \<or> set (keys_of m) - starving m - {MAX_ID div 2} \<noteq> {}"
proof -
  have "(\<exists>k v. map_of m k = Some v \<and> k \<noteq> MAX_ID div 2 \<and> MIN_SWARM_SIZE \<le> length v)
     \<longleftrightarrow> set (keys_of m) - starving m - {MAX_ID div 2} \<noteq> {}"
    by (fastforce simp: starving_def key_find not_less)
  then show ?thesis by (simp only: anchored_def)
qed

section \<open>Taking nodes out of swarms\<close>

lemma remove_excess_snode:
  assumes "swarm_inv m" and "map_of m (eps_swarm_id e) = Some v" and "eps_public_key e \<in> set v"
    and "MIN_SWARM_SIZE < length v"
  shows "\<exists>m1. remove_excess_snode_from_swarm e m = ret m1 \<and> swarm_inv m1 \<and> keys_of m1 = keys_of m \<and>
           map_of m1 = (map_of m)(eps_swarm_id e \<mapsto> removeAll (eps_public_key e) v) \<and>
           length (removeAll (eps_public_key e) v) = length v - 1 \<and>
           swarm_nodes m = add_mset (eps_public_key e) (swarm_nodes m1) \<and>
           Suc (calc_excess m1) = calc_excess m \<and> starving m1 = starving m"
proof -
  define m1 where "m1 = modify_key (eps_swarm_id e) (removeAll (eps_public_key e)) m"
  have wf: "om_wf m" using assms(1) by (simp add: swarm_inv_def)
  have r1: "removeAll (eps_public_key e) v = remove1 (eps_public_key e) v"
    using distinct_swarm [OF assms(1,2)] by (simp add: distinct_remove1_removeAll)
  have len: "length (removeAll (eps_public_key e) v) = length v - 1"
    using assms(3) by (simp add: r1 length_remove1)
  have nodes: "swarm_nodes m = add_mset (eps_public_key e) (swarm_nodes m1)"
    using assms(3) by (simp add: m1_def swarm_nodes_modify [OF wf assms(2)] swarm_nodes_split [OF wf assms(2)] r1)
  have keys: "keys_of m1 = keys_of m" by (simp add: m1_def om.keys_modify)
  have find: "map_of m1 = (map_of m)(eps_swarm_id e \<mapsto> removeAll (eps_public_key e) v)"
    by (simp add: m1_def om.find_modify assms(2))
  have excess: "Suc (calc_excess m1) = calc_excess m"
    using calc_excess_modify [OF wf assms(2), of "removeAll (eps_public_key e)"] len assms(4)
    by (simp add: m1_def const_defs)
  have "count (swarm_nodes m1) pk \<le> count (swarm_nodes m) pk" for pk by (simp add: nodes)
  then have inv: "swarm_inv m1"
    using assms(1) keys nodes om.wf_modify [OF wf] unfolding swarm_inv_def
    by (simp add: m1_def) (meson le_trans)
  have "starving m1 = starving m"
    using assms(2,4) len unfolding starving_def find by auto
  then show ?thesis
    using inv keys find len nodes excess assms(2)
    by (simp add: remove_excess_snode_from_swarm_def m1_def)
qed

lemma excess_pool_nonempty:
  assumes "om_wf m" and "0 < calc_excess m"
  shows "fst (get_excess_pool EXCESS_BASE m x) \<noteq> []"
proof -
  from assms(2) obtain k v where kv: "(k, v) \<in> set m" "EXCESS_BASE < length v"
    unfolding calc_excess_def by (induction m) (auto simp: zero_less_diff, blast)
  then have "map_of m k = Some v" using om.find_some_iff [OF assms(1)] by simp
  moreover obtain pk where "pk \<in> set v" using kv(2) by (cases v) auto
  ultimately have "\<lparr>eps_public_key = pk, eps_swarm_id = k\<rparr> \<in> set (fst (get_excess_pool EXCESS_BASE m x))"
    using kv(2) by (subst in_excess_pool [OF assms(1)]) (simp_all add: const_defs)
  then show ?thesis by auto
qed

lemma take_excess_snodes_returns:
  assumes "fair_generator (rng env)" and "swarm_inv m" and "k \<le> calc_excess m"
  shows "\<exists>new' m1 g'. take_excess_snodes env k new m g = ret (Some new', m1, g') \<and>
           length new' = length new + k \<and> mset new' + swarm_nodes m1 = mset new + swarm_nodes m \<and>
           swarm_inv m1 \<and> keys_of m1 = keys_of m \<and> calc_excess m1 + k = calc_excess m \<and>
           starving m1 = starving m"
  using assms(2,3)
proof (induction k arbitrary: new m g)
  case 0
  then show ?case by simp
next
  case (Suc k)
  have wf: "om_wf m" using Suc.prems(1) by (simp add: swarm_inv_def)
  define pool where "pool = fst (get_excess_pool EXCESS_BASE m 0)"
  obtain ex where pool: "get_excess_pool EXCESS_BASE m 0 = (pool, ex)"
    unfolding pool_def by (metis prod.collapse)
  have ne: "pool \<noteq> []" unfolding pool_def using wf Suc.prems(2) by (intro excess_pool_nonempty) simp_all
  have "length pool < 2 ^ 64"
    using length_excess_pool [of EXCESS_BASE m 0] Suc.prems(1) by (simp add: pool_def swarm_inv_def)
  from pick_returns [OF assms(1) ne this] obtain e g1 where
    pick: "pick_from_excess_pool env pool g = ret (e, g1)" and e: "e \<in> set pool" by blast
  then obtain v where v: "map_of m (eps_swarm_id e) = Some v" "EXCESS_BASE < length v"
    "eps_public_key e \<in> set v"
    using in_excess_pool [OF wf, of EXCESS_BASE e 0] by (auto simp: pool_def EXCESS_BASE_def)
  then have "MIN_SWARM_SIZE < length v" by (simp add: EXCESS_BASE_def)
  from remove_excess_snode [OF Suc.prems(1) v(1,3) this] obtain m1 where
    m1: "remove_excess_snode_from_swarm e m = ret m1" "swarm_inv m1" "keys_of m1 = keys_of m"
    "swarm_nodes m = add_mset (eps_public_key e) (swarm_nodes m1)" "Suc (calc_excess m1) = calc_excess m"
    "starving m1 = starving m" by blast
  with Suc.IH [of m1 "new @ [eps_public_key e]" g1] Suc.prems(2)
  show ?case using ne by (auto simp: pool pick)
qed

section \<open>Creating swarms\<close>

lemma full_swarms_bound:
  assumes "om_wf m" and "starving m = {}"
  shows "MIN_SWARM_SIZE * length m \<le> size (swarm_nodes m)"
proof -
  have "\<forall>e \<in> set m. MIN_SWARM_SIZE \<le> length (snd e)"
    using has_starving_iff [OF assms(1)] assms(2) by (auto simp: has_starving_swarms_def not_less)
  then show ?thesis unfolding swarm_nodes_def by (induction m) auto
qed

lemma anchored_single:
  assumes "anchored m" and "length m = 1"
  shows "MAX_ID div 2 \<notin> set (keys_of m)"
proof -
  obtain k v where m: "m = [(k, v)]" using assms(2) by (cases m) auto
  show ?thesis using assms(1) by (auto simp: anchored_def m keys_of_def split: if_splits)
qed

text \<open>What one round of the creation loop does to the map.\<close>

lemma insert_new_swarm:
  assumes "swarm_inv m" and "size (swarm_nodes m) + length new < 2 ^ 63" and "starving m = {}"
    and "anchored m" and "length new = NEW_SWARM_SIZE" and "m \<noteq> []"
    and "\<forall>pk. count (mset new + swarm_nodes m) pk \<le> 1"
  defines "m' \<equiv> om_insert_new (get_new_swarm_id m) new m"
  shows "swarm_inv m' \<and> swarm_nodes m' = mset new + swarm_nodes m \<and> set (keys_of m) \<subseteq> set (keys_of m') \<and>
    starving m' = {} \<and> anchored m' \<and> calc_excess m' = calc_excess m + IDEAL_SWARM_MARGIN \<and>
    length m' = Suc (length m)"
proof -
  let ?id = "get_new_swarm_id m"
  have wf: "om_wf m" and un: "UNASSIGNED_SWARM_ID \<notin> set (keys_of m)" using assms(1) by (simp_all add: swarm_inv_def)
  have "length m < 2 ^ 63" using full_swarms_bound [OF wf assms(3)] assms(2) by (simp add: const_defs)
  from get_new_swarm_id_fresh [OF wf un this anchored_single [OF assms(4)]]
  have fresh: "?id \<notin> set (keys_of m)" "?id \<noteq> UNASSIGNED_SWARM_ID" by simp_all
  have find: "map_of m' = (map_of m)(?id \<mapsto> new)"
    unfolding m'_def using fresh(1) by (simp add: om.find_add [OF wf] om.find_none_iff)
  have nodes: "swarm_nodes m' = mset new + swarm_nodes m"
    unfolding m'_def by (rule swarm_nodes_insert [OF wf fresh(1)])
  have inv: "swarm_inv m'"
    using om.wf_add [OF wf] fresh un assms(2,7) nodes
    by (auto simp: swarm_inv_def m'_def keys_insert)
  have starv: "starving m' = {}"
    using assms(3,5) unfolding starving_def find by (auto simp: const_defs)
  obtain k where "k \<in> set (keys_of m)" using assms(6) by (cases m) (auto simp: keys_of_def)
  then obtain v where kv: "map_of m k = Some v" by (auto simp: key_find)
  then have k: "k \<noteq> ?id" using fresh(1) by (auto simp: key_find)
  have "MIN_SWARM_SIZE \<le> length v" using kv assms(3) by (fastforce simp: starving_def not_less)
  with kv k assms(5) have anch: "anchored m'"
    unfolding anchored_def find by (cases "k = MAX_ID div 2") (auto simp: const_defs)
  show ?thesis
    using nodes inv starv anch calc_excess_insert [OF wf fresh(1), of new]
      length_insert [OF wf fresh(1), of new] assms(5)
    unfolding m'_def by (auto simp: keys_insert const_defs)
qed

lemma create_swarms_loop_returns:
  assumes "fair_generator (rng env)" and "swarm_inv m" and "starving m = {}" and "anchored m" and "m \<noteq> []"
  shows "\<exists>m' g'. create_swarms_loop env m g = ret (m', g') \<and> swarm_nodes m' = swarm_nodes m \<and>
           keeps_swarms m m' \<and> calc_excess m' < calc_threshold m'"
  using assms(2-)
proof (induction "calc_excess m" arbitrary: m g rule: less_induct)
  case less
  show ?case
  proof (cases "calc_threshold m \<le> calc_excess m")
    case False
    then show ?thesis
      using less.prems by (subst create_swarms_loop.simps) (simp add: keeps_swarms_refl)
  next
    case True
    then have "NEW_SWARM_SIZE \<le> calc_excess m" by (simp add: calc_threshold_def)
    from take_excess_snodes_returns [OF assms(1) less.prems(1) this, of "[]" g]
    obtain new m1 g1 where take: "take_excess_snodes env NEW_SWARM_SIZE [] m g = ret (Some new, m1, g1)"
      and len: "length new = NEW_SWARM_SIZE" and nodes: "mset new + swarm_nodes m1 = swarm_nodes m"
      and m1: "swarm_inv m1" "keys_of m1 = keys_of m" "calc_excess m1 + NEW_SWARM_SIZE = calc_excess m"
        "starving m1 = starving m" by auto
    define m2 where "m2 = om_insert_new (get_new_swarm_id m1) new m1"
    have anch: "anchored m1" using less.prems(3) m1(2,4) by (simp add: anchored_alt)
    have ne: "m1 \<noteq> []" using m1(2) less.prems(4) by (auto simp: keys_of_def)
    have cnt: "\<forall>pk. count (mset new + swarm_nodes m1) pk \<le> 1"
      using less.prems(1) unfolding nodes by (simp add: swarm_inv_def)
    have "size (swarm_nodes m1) + length new < 2 ^ 63"
      using less.prems(1) arg_cong [OF nodes, of size] by (simp add: swarm_inv_def)
    from insert_new_swarm [OF m1(1) this _ anch len ne cnt] m1(4) less.prems(2)
    have m2: "swarm_inv m2" "swarm_nodes m2 = swarm_nodes m" "set (keys_of m) \<subseteq> set (keys_of m2)"
      "starving m2 = {}" "anchored m2" "calc_excess m2 = calc_excess m1 + IDEAL_SWARM_MARGIN"
      by (simp_all add: m2_def nodes m1(2))
    have "calc_excess m2 < calc_excess m" using m1(3) m2(6) by (simp add: const_defs)
    moreover have "m2 \<noteq> []" using m2(3) less.prems(4) by (cases m; cases m2) (auto simp: keys_of_def)
    ultimately obtain m' g' where "create_swarms_loop env m2 g1 = ret (m', g')" "swarm_nodes m' = swarm_nodes m2"
      "keeps_swarms m2 m'" "calc_excess m' < calc_threshold m'"
      using less.hyps [OF _ m2(1,4,5), of g1] by blast
    moreover have "keeps_swarms m m2" using m2 by (simp add: keeps_swarms_def)
    moreover have "create_swarms_loop env m g = create_swarms_loop env m2 g1"
      using True by (subst create_swarms_loop.simps) (simp add: take m2_def)
    ultimately show ?thesis using m2(2) keeps_swarms_trans [of m m2 m'] by auto
  qed
qed

lemma create_new_swarm_returns:
  assumes "fair_generator (rng env)" and "swarm_inv m" and "anchored m" and "m \<noteq> []"
  shows "\<exists>m' g'. create_new_swarm_from_excess env m g = ret (m', g') \<and> swarm_nodes m' = swarm_nodes m \<and>
           keeps_swarms m m'"
proof (cases "starving m = {}")
  case True
  then show ?thesis
    using create_swarms_loop_returns [OF assms(1,2) _ assms(3,4), of g] assms(2)
    by (auto simp: create_new_swarm_from_excess_def has_starving_iff swarm_inv_def)
next
  case False
  then show ?thesis
    using assms(2) keeps_swarms_refl [OF assms(2)]
    by (simp add: create_new_swarm_from_excess_def has_starving_iff swarm_inv_def)
qed

section \<open>Assigning nodes\<close>

lemma number_of_swarms:
  assumes "swarm_inv m"
  shows "length m < 2 ^ 64"
proof -
  have "distinct (keys_of m)" using assms om.wf_distinct by (auto simp: swarm_inv_def)
  then have "length m = card (set (keys_of m))" by (metis distinct_card keys_of_def length_map)
  also have "\<dots> < card (UNIV :: u64 set)"
    using assms by (intro psubset_card_mono) (auto simp: swarm_inv_def)
  finally show ?thesis by (simp add: card_word)
qed

lemma find_upper_index_less:
  "i + length ss = n \<Longrightarrow> d < n \<Longrightarrow> find_upper_index ss i v d < n"
  by (induction ss i v d rule: find_upper_index.induct) auto

lemma calc_swarm_sizes_mset:
  assumes "size_sort (sort_sizes env)"
  shows "mset (calc_swarm_sizes env m) = mset (map (\<lambda>e. \<lparr>ss_swarm_id = fst e, ss_size = length (snd e)\<rparr>) m)"
  using assms by (simp add: size_sort_def calc_swarm_sizes_def)

lemma calc_swarm_sizes_length: "size_sort (sort_sizes env) \<Longrightarrow> length (calc_swarm_sizes env m) = length m"
  using mset_eq_length [OF calc_swarm_sizes_mset] by simp

lemma calc_swarm_sizes_member:
  assumes "size_sort (sort_sizes env)" and "s \<in> set (calc_swarm_sizes env m)" and "om_wf m"
  shows "\<exists>v. map_of m (ss_swarm_id s) = Some v \<and> ss_size s = length v"
proof -
  have "set (calc_swarm_sizes env m) = set (map (\<lambda>e. \<lparr>ss_swarm_id = fst e, ss_size = length (snd e)\<rparr>) m)"
    by (rule mset_eq_setD [OF calc_swarm_sizes_mset [OF assms(1)]])
  with assms(2) om.find_some_iff [OF assms(3)] show ?thesis by auto
qed

lemma add_snode:
  assumes "swarm_inv m" and "map_of m k = Some v" and "size (swarm_nodes m) + 1 < 2 ^ 63"
    and "\<forall>x. count (add_mset pk (swarm_nodes m)) x \<le> 1"
  defines "m' \<equiv> modify_key k (\<lambda>sns. sns @ [pk]) m"
  shows "swarm_nodes m' = add_mset pk (swarm_nodes m)" and "keeps_swarms m m'" and "keys_of m' = keys_of m"
    and "map_of m' = (map_of m)(k \<mapsto> v @ [pk])"
proof -
  have wf: "om_wf m" using assms(1) by (simp add: swarm_inv_def)
  show nodes: "swarm_nodes m' = add_mset pk (swarm_nodes m)"
    by (simp add: m'_def swarm_nodes_modify [OF wf assms(2)] swarm_nodes_split [OF wf assms(2)])
  show find: "map_of m' = (map_of m)(k \<mapsto> v @ [pk])" by (simp add: m'_def om.find_modify assms(2))
  show keys: "keys_of m' = keys_of m" by (simp add: m'_def om.keys_modify)
  have inv: "swarm_inv m'"
    using assms(1,3,4) keys nodes om.wf_modify [OF wf] by (simp add: swarm_inv_def m'_def)
  have st: "starving m' \<subseteq> starving m" unfolding starving_def find using assms(2) by auto
  then have "anchored m \<Longrightarrow> anchored m'" unfolding anchored_alt keys by blast
  with inv keys st show "keeps_swarms m m'" by (simp add: keeps_swarms_def)
qed

lemma assign_snode_returns:
  assumes "fair_generator (rng env)" and "size_sort (sort_sizes env)" and "percentile \<le> 100"
    and "swarm_inv m" and "anchored m" and "m \<noteq> []" and "size (swarm_nodes m) + 1 < 2 ^ 63"
    and "\<forall>x. count (add_mset pk (swarm_nodes m)) x \<le> 1"
  shows "\<exists>m' g'. assign_snode env pk m g percentile = ret (m', g') \<and>
           swarm_nodes m' = add_mset pk (swarm_nodes m) \<and> keeps_swarms m m'"
proof -
  define sizes where "sizes = calc_swarm_sizes env m"
  define pidx where "pidx = percentile * (length sizes - 1) div 100"
  define up where "up = find_upper_index (drop pidx sizes) pidx (ss_size (sizes ! pidx)) (length sizes - 1)"
  have len: "length sizes = length m" by (simp add: sizes_def calc_swarm_sizes_length [OF assms(2)])
  have "percentile * (length sizes - 1) \<le> 100 * (length sizes - 1)" using assms(3) by simp
  then have "pidx \<le> length sizes - 1" unfolding pidx_def by (metis div_le_mono nonzero_mult_div_cancel_left zero_neq_numeral)
  then have pidx: "pidx < length sizes" using len assms(6) by (cases m) auto
  then have up: "up < length sizes" unfolding up_def by (intro find_upper_index_less) auto
  have n: "unat (of_nat (up + 1) :: u64) = up + 1"
    using up len number_of_swarms [OF assms(4)] by (intro unat_of_nat_u64) simp
  then have pos: "0 < (of_nat (up + 1) :: u64)" by (simp only: word_less_nat_alt) simp
  from uniform_distribution_returns [OF assms(1) pos] obtain j g1 where
    j: "uniform_distribution_portable (rng env) (of_nat (up + 1)) g = Some (j, g1)" by blast
  have "unat j < length sizes"
    using uniform_distribution_bound [OF pos j] up n by (simp only: word_less_nat_alt)
  then have "sizes ! unat j \<in> set (calc_swarm_sizes env m)" by (simp add: sizes_def)
  from calc_swarm_sizes_member [OF assms(2) this] obtain v where
    v: "map_of m (ss_swarm_id (sizes ! unat j)) = Some v" using assms(4) by (auto simp: swarm_inv_def)
  define m1 where "m1 = modify_key (ss_swarm_id (sizes ! unat j)) (\<lambda>sns. sns @ [pk]) m"
  note add = add_snode [OF assms(4) v assms(7,8), folded m1_def]
  have eq: "assign_snode env pk m g percentile = create_new_swarm_from_excess env m1 g1"
    using pidx j v unfolding assign_snode_def Let_def sizes_def [symmetric] pidx_def [symmetric] up_def [symmetric]
    by (simp add: m1_def del: of_nat_add of_nat_Suc)
  have "m1 \<noteq> []" using assms(6) by (simp add: m1_def modify_key_def)
  moreover have "swarm_inv m1" "anchored m1" using add(2) assms(5) by (simp_all add: keeps_swarms_def)
  ultimately obtain m' g' where m': "create_new_swarm_from_excess env m1 g1 = ret (m', g')"
    "swarm_nodes m' = swarm_nodes m1" "keeps_swarms m1 m'"
    using create_new_swarm_returns [OF assms(1), of m1 g1] by blast
  with eq add(1) keeps_swarms_trans [OF add(2) m'(3)] show ?thesis by simp
qed

lemma assign_snodes_returns:
  assumes "fair_generator (rng env)" and "size_sort (sort_sizes env)" and "percentile \<le> 100"
    and "swarm_inv m" and "anchored m" and "pks = [] \<or> m \<noteq> []" and "size (swarm_nodes m) + length pks < 2 ^ 63"
    and "\<forall>x. count (mset pks + swarm_nodes m) x \<le> 1"
  shows "\<exists>m' g'. assign_snodes env pks m g percentile = ret (m', g') \<and>
           swarm_nodes m' = mset pks + swarm_nodes m \<and> keeps_swarms m m'"
  using assms(4-)
proof (induction pks arbitrary: m g)
  case Nil
  then show ?case by (simp add: keeps_swarms_refl)
next
  case (Cons pk pks)
  have cnt: "\<forall>x. count (add_mset pk (swarm_nodes m)) x \<le> 1"
  proof
    fix x show "count (add_mset pk (swarm_nodes m)) x \<le> 1"
      using spec [OF Cons.prems(5), of x] by (simp split: if_splits)
  qed
  have ne: "m \<noteq> []" and sz: "size (swarm_nodes m) + 1 < 2 ^ 63" using Cons.prems(3,4) by simp_all
  from assign_snode_returns [OF assms(1-3) Cons.prems(1,2) ne sz cnt]
  obtain m1 g1 where m1: "assign_snode env pk m g percentile = ret (m1, g1)"
    "swarm_nodes m1 = add_mset pk (swarm_nodes m)" "keeps_swarms m m1" by blast
  have ne1: "m1 \<noteq> []" using m1(3) ne by (cases m; cases m1) (auto simp: keeps_swarms_def keys_of_def)
  have "swarm_inv m1" "anchored m1" using m1(3) Cons.prems(2) by (simp_all add: keeps_swarms_def)
  moreover have "size (swarm_nodes m1) + length pks < 2 ^ 63" using Cons.prems(4) by (simp add: m1(2))
  moreover have "\<forall>x. count (mset pks + swarm_nodes m1) x \<le> 1" using Cons.prems(5) by (simp add: m1(2))
  ultimately obtain m' g' where
    m': "assign_snodes env pks m1 g1 percentile = ret (m', g')" "swarm_nodes m' = mset pks + swarm_nodes m1"
    "keeps_swarms m1 m'" using Cons.IH [of m1 g1] ne1 by blast
  with keeps_swarms_trans [OF m1(3) m'(3)] show ?case by (simp add: m1(1,2))
qed

section \<open>The Robin Hood round\<close>

lemma rich_pool_nonempty:
  assumes "MIN_SWARM_SIZE \<le> t" and "get_excess_pool t m x = (pool, excess)" and "0 < excess"
  shows "pool \<noteq> []"
proof -
  have "0 < sum_list (map (\<lambda>e. length (snd e) - MIN_SWARM_SIZE) (filter (\<lambda>e. t < length (snd e)) m))"
    using assms by (auto simp: get_excess_pool_def Let_def)
  then have "filter (\<lambda>e. t < length (snd e)) m \<noteq> []" by auto
  then obtain k v where "(k, v) \<in> set (filter (\<lambda>e. t < length (snd e)) m)"
    by (metis list.set_intros(1) neq_Nil_conv surj_pair)
  then have kv: "(k, v) \<in> set m" "t < length v" by simp_all
  then show ?thesis using assms(1,2) by (fastforce simp: get_excess_pool_def Let_def)
qed

text \<open>Moving one node from a rich swarm to the poor one.\<close>

lemma move_snode:
  assumes "swarm_inv m" and "map_of m (eps_swarm_id e) = Some v" and "eps_public_key e \<in> set v"
    and "MIN_SWARM_SIZE < length v" and "map_of m k = Some poor" and "length poor < MIN_SWARM_SIZE"
  shows "\<exists>m1. remove_excess_snode_from_swarm e m = ret m1 \<and>
    (let m2 = modify_key k (\<lambda>sns. sns @ [eps_public_key e]) m1
     in keeps_swarms m m2 \<and> swarm_nodes m2 = swarm_nodes m \<and> map_of m2 k = Some (poor @ [eps_public_key e]) \<and>
        (\<forall>k'. k' \<noteq> k \<longrightarrow> k' \<in> starving m \<longrightarrow> map_of m2 k' = map_of m k'))"
proof -
  from remove_excess_snode [OF assms(1-4)] obtain m1 where
    m1: "remove_excess_snode_from_swarm e m = ret m1" "swarm_inv m1" "keys_of m1 = keys_of m"
      "map_of m1 = (map_of m)(eps_swarm_id e \<mapsto> removeAll (eps_public_key e) v)"
      "swarm_nodes m = add_mset (eps_public_key e) (swarm_nodes m1)" "starving m1 = starving m" by blast
  define m2 where "m2 = modify_key k (\<lambda>sns. sns @ [eps_public_key e]) m1"
  have diff: "k \<noteq> eps_swarm_id e" using assms(2,4,5,6) by auto
  then have poor: "map_of m1 k = Some poor" using assms(5) m1(4) by simp
  have "size (swarm_nodes m1) + 1 < 2 ^ 63" and "\<forall>x. count (add_mset (eps_public_key e) (swarm_nodes m1)) x \<le> 1"
    using assms(1) unfolding swarm_inv_def m1(5) by simp_all
  note add = add_snode [OF m1(2) poor this, folded m2_def]
  have "anchored m \<longleftrightarrow> anchored m1" unfolding anchored_alt m1(3,6) ..
  with add(2) m1(3,6) have "keeps_swarms m m2" by (simp add: keeps_swarms_def)
  moreover have "map_of m2 k' = map_of m k'" if "k' \<noteq> k" "k' \<in> starving m" for k'
  proof -
    have "k' \<noteq> eps_swarm_id e" using that(2) assms(2,4) by (auto simp: starving_def)
    then show ?thesis using that(1) m1(4) add(4) by simp
  qed
  ultimately show ?thesis using m1(1,5) add(1,4) by (auto simp: m2_def)
qed

lemma steal_for_swarm_returns:
  assumes "fair_generator (rng env)" and "swarm_inv m" and "map_of m k = Some poor"
    and "length poor < MIN_SWARM_SIZE"
  shows "\<exists>b m' g'. steal_for_swarm env sizes k m g = ret (b, m', g') \<and> swarm_nodes m' = swarm_nodes m \<and>
           keeps_swarms m m' \<and> (\<forall>k'. k' \<noteq> k \<longrightarrow> k' \<in> starving m \<longrightarrow> map_of m' k' = map_of m k')"
  using assms(2-)
proof (induction "MIN_SWARM_SIZE - length poor" arbitrary: m g poor)
  case 0
  then show ?case by simp
next
  case (Suc d)
  define t where "t = max MIN_SWARM_SIZE
    (size_sub (ss_size (sizes ! (STEALING_SWARM_UPPER_PERCENTILE * (length sizes - 1) div 100))) 1)"
  obtain pool excess where pool: "get_excess_pool t m 0 = (pool, excess)" by fastforce
  have t: "MIN_SWARM_SIZE \<le> t" by (simp add: t_def)
  have wf: "om_wf m" using Suc.prems(1) by (simp add: swarm_inv_def)
  have unfold: "steal_for_swarm env sizes k m g =
    (if excess < MIN_SWARM_SIZE - length poor then ret (True, m, g)
     else rbind (pick_from_excess_pool env pool g) (\<lambda>(e, g).
          rbind (remove_excess_snode_from_swarm e m) (\<lambda>m.
          let m = modify_key k (\<lambda>sns. sns @ [eps_public_key e]) m
          in if length (the (map_of m k)) < MIN_SWARM_SIZE then steal_for_swarm env sizes k m g
             else ret (False, m, g))))"
    using Suc.prems(2,3)
    by (subst steal_for_swarm.simps)
      (simp only: Let_def t_def [symmetric] pool prod.case option.sel size_sub_le less_imp_le)
  show ?case
  proof (cases "excess < MIN_SWARM_SIZE - length poor")
    case True
    then show ?thesis using unfold keeps_swarms_refl [OF Suc.prems(1)] by auto
  next
    case False
    then have "pool \<noteq> []" using Suc.hyps(2) by (intro rich_pool_nonempty [OF t pool]) simp
    moreover have "length pool < 2 ^ 64"
      using length_excess_pool [of t m 0] Suc.prems(1) by (simp add: pool swarm_inv_def)
    ultimately obtain e g1 where pick: "pick_from_excess_pool env pool g = ret (e, g1)" "e \<in> set pool"
      using pick_returns [OF assms(1)] by blast
    then obtain v where v: "map_of m (eps_swarm_id e) = Some v" "eps_public_key e \<in> set v" "t < length v"
      using in_excess_pool [OF wf t, of e 0] by (auto simp: pool)
    then have "MIN_SWARM_SIZE < length v" using t by simp
    from move_snode [OF Suc.prems(1) v(1,2) this Suc.prems(2,3)] obtain m1 where
      m1: "remove_excess_snode_from_swarm e m = ret m1" and
      m2: "let m2 = modify_key k (\<lambda>sns. sns @ [eps_public_key e]) m1
        in keeps_swarms m m2 \<and> swarm_nodes m2 = swarm_nodes m \<and> map_of m2 k = Some (poor @ [eps_public_key e]) \<and>
           (\<forall>k'. k' \<noteq> k \<longrightarrow> k' \<in> starving m \<longrightarrow> map_of m2 k' = map_of m k')" by blast
    define m2 where "m2 = modify_key k (\<lambda>sns. sns @ [eps_public_key e]) m1"
    have keep: "keeps_swarms m m2" and nodes: "swarm_nodes m2 = swarm_nodes m"
      and poor2: "map_of m2 k = Some (poor @ [eps_public_key e])"
      and same: "\<And>k'. k' \<noteq> k \<Longrightarrow> k' \<in> starving m \<Longrightarrow> map_of m2 k' = map_of m k'"
      using m2 by (simp_all add: m2_def Let_def)
    show ?thesis
    proof (cases "length (poor @ [eps_public_key e]) < MIN_SWARM_SIZE")
      case more: True
      have "d = MIN_SWARM_SIZE - length (poor @ [eps_public_key e])" using Suc.hyps(2) by simp
      from Suc.hyps(1) [OF this _ poor2 more, of g1] keep obtain b m' g' where
        step: "steal_for_swarm env sizes k m2 g1 = ret (b, m', g')" "swarm_nodes m' = swarm_nodes m2"
        "keeps_swarms m2 m'" "\<forall>k'. k' \<noteq> k \<longrightarrow> k' \<in> starving m2 \<longrightarrow> map_of m' k' = map_of m2 k'"
        by (auto simp: keeps_swarms_def)
      have "map_of m' k' = map_of m k'" if "k' \<noteq> k" "k' \<in> starving m" for k'
        using same [OF that] step(4) that by (auto simp: starving_def)
      moreover have "steal_for_swarm env sizes k m g = ret (b, m', g')"
        unfolding unfold using False pick(1) m1 more poor2 step(1) by (simp add: m2_def [symmetric])
      ultimately show ?thesis using step(2) nodes keeps_swarms_trans [OF keep step(3)] by auto
    next
      case enough: False
      have "steal_for_swarm env sizes k m g = ret (False, m2, g1)"
        unfolding unfold using False pick(1) m1 enough poor2 by (simp add: m2_def [symmetric])
      with keep nodes same show ?thesis by blast
    qed
  qed
qed

lemma robin_hood_round_returns:
  assumes "fair_generator (rng env)" and "swarm_inv m" and "distinct (map ss_swarm_id swarms)"
    and "\<forall>s \<in> set swarms. ss_size s < MIN_SWARM_SIZE \<longrightarrow> ss_swarm_id s \<in> starving m"
  shows "\<exists>m' g'. robin_hood_round env sizes swarms m g = ret (m', g') \<and> swarm_nodes m' = swarm_nodes m \<and>
           keeps_swarms m m'"
  using assms(2-)
proof (induction swarms arbitrary: m g)
  case Nil
  then show ?case by (simp add: keeps_swarms_refl)
next
  case (Cons s swarms)
  show ?case
  proof (cases "MIN_SWARM_SIZE \<le> ss_size s")
    case True
    then show ?thesis using keeps_swarms_refl [OF Cons.prems(1)] by simp
  next
    case False
    then obtain poor where poor: "map_of m (ss_swarm_id s) = Some poor" "length poor < MIN_SWARM_SIZE"
      using Cons.prems(3) by (auto simp: starving_def)
    from steal_for_swarm_returns [OF assms(1) Cons.prems(1) poor, of sizes g] obtain b m1 g1 where
      m1: "steal_for_swarm env sizes (ss_swarm_id s) m g = ret (b, m1, g1)" "swarm_nodes m1 = swarm_nodes m"
      "keeps_swarms m m1" "\<forall>k'. k' \<noteq> ss_swarm_id s \<longrightarrow> k' \<in> starving m \<longrightarrow> map_of m1 k' = map_of m k'" by blast
    have "\<forall>s' \<in> set swarms. ss_size s' < MIN_SWARM_SIZE \<longrightarrow> ss_swarm_id s' \<in> starving m1"
    proof (intro ballI impI)
      fix s' assume s': "s' \<in> set swarms" "ss_size s' < MIN_SWARM_SIZE"
      then have "ss_swarm_id s' \<in> starving m" using Cons.prems(3) by simp
      moreover have "ss_swarm_id s' \<noteq> ss_swarm_id s" using Cons.prems(2) imageI [OF s'(1), of ss_swarm_id] by auto
      ultimately show "ss_swarm_id s' \<in> starving m1" using m1(4) by (simp add: starving_def)
    qed
    then obtain m' g' where m': "robin_hood_round env sizes swarms m1 g1 = ret (m', g')"
      "swarm_nodes m' = swarm_nodes m1" "keeps_swarms m1 m'"
      using Cons.IH [of m1 g1] Cons.prems(2) m1(3) by (auto simp: keeps_swarms_def)
    show ?thesis
      using False poor(1) m1 m' keeps_swarms_trans [OF m1(3) m'(3)] by (cases b) simp_all
  qed
qed

lemma calc_swarm_sizes_round:
  assumes "size_sort (sort_sizes env)" and "om_wf m"
  shows "distinct (map ss_swarm_id (calc_swarm_sizes env m))"
    and "\<forall>s \<in> set (calc_swarm_sizes env m). ss_size s < MIN_SWARM_SIZE \<longrightarrow> ss_swarm_id s \<in> starving m"
proof -
  have "mset (map ss_swarm_id (calc_swarm_sizes env m)) = mset (keys_of m)"
    using arg_cong [OF calc_swarm_sizes_mset [OF assms(1), of m], of "image_mset ss_swarm_id"]
    by (simp add: keys_of_def image_mset.compositionality comp_def)
  then show "distinct (map ss_swarm_id (calc_swarm_sizes env m))"
    using om.wf_distinct [OF assms(2)] by (metis mset_eq_imp_distinct_iff)
  show "\<forall>s \<in> set (calc_swarm_sizes env m). ss_size s < MIN_SWARM_SIZE \<longrightarrow> ss_swarm_id s \<in> starving m"
    using calc_swarm_sizes_member [OF assms(1) _ assms(2)] by (fastforce simp: starving_def)
qed

section \<open>Decommissioning swarms\<close>

lemma starving_erase: "starving (erase_key k m) = starving m - {k}"
  by (auto simp: starving_def om.find_erase)

lemma keys_erase: "set (keys_of (erase_key k m)) = set (keys_of m) - {k}"
  by (auto simp: keys_of_def erase_key_def)

lemma finite_starving: "finite (starving m)"
  by (rule finite_subset [OF starving_keys]) simp

lemma erase_inv:
  assumes "swarm_inv m" and "map_of m k = Some v" and "length v < MIN_SWARM_SIZE"
    and "MIN_SWARM_SIZE \<le> size (swarm_nodes m)" and "anchored m"
  shows "swarm_inv (erase_key k m)" and "anchored (erase_key k m)" and "erase_key k m \<noteq> []"
proof -
  have wf: "om_wf m" using assms(1) by (simp add: swarm_inv_def)
  note split = swarm_nodes_split [OF wf assms(2)]
  have "count (swarm_nodes (erase_key k m)) x \<le> 1" for x
    using assms(1) unfolding swarm_inv_def split by (metis add_leE count_union)
  then show "swarm_inv (erase_key k m)"
    using assms(1) om.wf_erase [OF wf] split by (simp add: swarm_inv_def keys_erase)
  have "k \<in> starving m" using assms(2,3) by (simp add: starving_def)
  then show "anchored (erase_key k m)"
    using assms(5) unfolding anchored_alt keys_erase starving_erase by blast
  show "erase_key k m \<noteq> []"
  proof
    assume "erase_key k m = []"
    then have "size (swarm_nodes m) = length v" by (simp add: split) (simp add: swarm_nodes_def)
    with assms(3,4) show False by simp
  qed
qed

lemma decommission_swarms_returns:
  assumes "fair_generator (rng env)" and "size_sort (sort_sizes env)"
    and "swarm_inv m" and "anchored m" and "m \<noteq> []" and "MIN_SWARM_SIZE \<le> size (swarm_nodes m)"
  shows "\<exists>m' g'. decommission_swarms env m g = ret (m', g') \<and> swarm_nodes m' = swarm_nodes m \<and>
           swarm_inv m' \<and> starving m' = {} \<and> m' \<noteq> []"
  using assms(3-)
proof (induction "card (starving m)" arbitrary: m g rule: less_induct)
  case less
  have wf: "om_wf m" using less.prems(1) by (simp add: swarm_inv_def)
  show ?case
  proof (cases "find (\<lambda>e. length (snd e) < MIN_SWARM_SIZE) m")
    case None
    then have "starving m = {}"
      using has_starving_iff [OF wf] by (auto simp: find_None_iff has_starving_swarms_def)
    with None less.prems show ?thesis by (subst decommission_swarms.simps) simp
  next
    case (Some e)
    obtain k v where e: "e = (k, v)" by fastforce
    from Some have "(k, v) \<in> set m" "length v < MIN_SWARM_SIZE"
      by (auto simp: find_Some_iff e in_set_conv_nth) (metis snd_conv)
    then have v: "map_of m k = Some v" "length v < MIN_SWARM_SIZE" using om.find_some_iff [OF wf] by simp_all
    define m0 where "m0 = erase_key k m"
    note m0 = erase_inv [OF less.prems(1) v less.prems(4,2), folded m0_def]
    have nodes: "mset v + swarm_nodes m0 = swarm_nodes m"
      using swarm_nodes_split [OF wf v(1)] by (simp add: m0_def)
    have "size (swarm_nodes m0) + length v < 2 ^ 63"
      using less.prems(1) arg_cong [OF nodes, of size] by (simp add: swarm_inv_def)
    moreover have "\<forall>x. count (mset v + swarm_nodes m0) x \<le> 1"
      using less.prems(1) unfolding nodes swarm_inv_def by blast
    ultimately obtain m1 g1 where
      m1: "assign_snodes env v m0 g 0 = ret (m1, g1)" "swarm_nodes m1 = swarm_nodes m" "keeps_swarms m0 m1"
      using assign_snodes_returns [OF assms(1,2) zero_le m0(1,2), of v g] m0(3) unfolding nodes by blast
    have "starving m1 \<subseteq> starving m - {k}" using m1(3) by (simp add: keeps_swarms_def m0_def starving_erase)
    moreover have "k \<in> starving m" using v by (simp add: starving_def)
    ultimately have "card (starving m1) < card (starving m)"
      by (intro psubset_card_mono) (auto simp: finite_starving)
    moreover have "m1 \<noteq> []" using m1(3) m0(3) by (cases m0; cases m1) (auto simp: keeps_swarms_def keys_of_def)
    moreover have "decommission_swarms env m g = decommission_swarms env m1 g1"
      by (subst decommission_swarms.simps) (simp add: Some e m0_def [symmetric] m1(1)
          DECOMMISSIONED_REDISTRIBUTION_LOWER_PERCENTILE_def)
    ultimately show ?thesis
      using less.hyps [of m1 g1] m1 m0(2) less.prems(4) by (simp add: keeps_swarms_def)
  qed
qed

section \<open>The whole computation\<close>

lemma initial_swarms:
  assumes "om_wf m" and "distinct (concat (map snd m))" and "length (concat (map snd m)) < 2 ^ 63"
    and "anchored (erase_key UNASSIGNED_SWARM_ID m)"
  defines "unassigned \<equiv> (case map_of m UNASSIGNED_SWARM_ID of None \<Rightarrow> [] | Some sns \<Rightarrow> sns)"
    and "m0 \<equiv> erase_key UNASSIGNED_SWARM_ID m"
  defines "m1 \<equiv> (if length m0 = 0 then om_insert_new (get_new_swarm_id []) [] m0 else m0)"
  shows "swarm_inv m1" and "anchored m1" and "m1 \<noteq> []" and "mset unassigned + swarm_nodes m1 = swarm_nodes m"
proof -
  have nodes0: "mset unassigned + swarm_nodes m0 = swarm_nodes m"
  proof (cases "map_of m UNASSIGNED_SWARM_ID")
    case None
    then have "\<forall>e \<in> set m. fst e \<noteq> UNASSIGNED_SWARM_ID" by (force simp: map_of_eq_None_iff)
    then have "m0 = m" by (simp add: m0_def erase_key_def)
    with None show ?thesis by (simp add: unassigned_def)
  next
    case (Some v)
    then show ?thesis using swarm_nodes_split [OF assms(1) Some] by (simp add: unassigned_def m0_def)
  qed
  have one: "m1 = [(0, [])]" if "m0 = []"
    using that by (simp add: m1_def om_insert_new_def keys_of_def get_new_swarm_id_def)
  have nodes10: "swarm_nodes m1 = swarm_nodes m0"
    using one by (cases "m0 = []") (simp_all add: swarm_nodes_def m1_def)
  with nodes0 show nodes: "mset unassigned + swarm_nodes m1 = swarm_nodes m" by simp
  show "m1 \<noteq> []" using one by (cases "m0 = []") (simp_all add: m1_def)
  have "count (swarm_nodes m) x \<le> 1" for x
    using assms(2) by (simp add: swarm_nodes_def distinct_count_atmost_1)
  then have cnt: "count (swarm_nodes m1) x \<le> 1" for x unfolding nodes [symmetric] by (metis add_leE count_union)
  have size: "size (swarm_nodes m1) < 2 ^ 63"
    using assms(3) arg_cong [OF nodes, of size] by (simp add: swarm_nodes_def)
  have "om_wf m0" unfolding m0_def by (rule om.wf_erase [OF assms(1)])
  then have "om_wf m1 \<and> UNASSIGNED_SWARM_ID \<notin> set (keys_of m1)"
    using one by (cases "m0 = []")
      (auto simp: om_wf_def keys_of_def UNASSIGNED_SWARM_ID_def m1_def m0_def erase_key_def)
  with cnt size show "swarm_inv m1" by (simp add: swarm_inv_def)
  show "anchored m1"
  proof (cases "m0 = []")
    case True
    have "MAX_ID div 2 \<noteq> 0" by (simp add: MAX_ID_def)
    with one [OF True] show ?thesis by (simp add: anchored_def keys_of_def)
  next
    case False
    with assms(4) show ?thesis by (simp add: m1_def m0_def)
  qed
qed

lemma calc_swarm_changes_returns:
  assumes "fair_generator (rng env)" and "size_sort (sort_sizes env)"
    and "om_wf m" and "distinct (concat (map snd m))" and "length (concat (map snd m)) < 2 ^ 63"
    and "anchored (erase_key UNASSIGNED_SWARM_ID m)" and "MIN_SWARM_SIZE \<le> length (concat (map snd m))"
  shows "\<exists>m'. calc_swarm_changes env m seed = ret m' \<and> om_wf m' \<and>
           mset (concat (map snd m')) = mset (concat (map snd m)) \<and>
           UNASSIGNED_SWARM_ID \<notin> set (keys_of m') \<and> (\<forall>e \<in> set m'. MIN_SWARM_SIZE \<le> length (snd e))"
proof -
  define un where "un = (case map_of m UNASSIGNED_SWARM_ID of None \<Rightarrow> [] | Some sns \<Rightarrow> sns)"
  define m0 where "m0 = erase_key UNASSIGNED_SWARM_ID m"
  define m1 where "m1 = (if length m0 = 0 then om_insert_new (get_new_swarm_id []) [] m0 else m0)"
  note init = initial_swarms [OF assms(3-6), folded un_def m0_def, folded m1_def]
  have cnt: "\<forall>x. count (mset un + swarm_nodes m1) x \<le> 1"
    unfolding init(4) using assms(4) by (simp add: swarm_nodes_def distinct_count_atmost_1)
  have sz: "size (swarm_nodes m1) + length un < 2 ^ 63"
    using assms(5) arg_cong [OF init(4), of size] by (simp add: swarm_nodes_def)
  have "FILL_SWARM_LOWER_PERCENTILE \<le> 100" by (simp add: const_defs)
  from assign_snodes_returns [OF assms(1,2) this init(1,2) disjI2 [OF init(3)] sz cnt] obtain m2 g2 where
    m2: "assign_snodes env un m1 (gen_seed (rng env) seed) FILL_SWARM_LOWER_PERCENTILE = ret (m2, g2)"
    "swarm_nodes m2 = swarm_nodes m" "keeps_swarms m1 m2" unfolding init(4) by blast
  then have inv2: "swarm_inv m2" by (simp add: keeps_swarms_def)
  then have wf2: "om_wf m2" by (simp add: swarm_inv_def)
  from robin_hood_round_returns [OF assms(1) inv2 calc_swarm_sizes_round [OF assms(2) wf2]] obtain m3 g3 where
    m3: "robin_hood_round env (calc_swarm_sizes env m2) (calc_swarm_sizes env m2) m2 g2 = ret (m3, g3)"
    "swarm_nodes m3 = swarm_nodes m" "keeps_swarms m2 m3" using m2(2) by metis
  have keep3: "keeps_swarms m1 m3" by (rule keeps_swarms_trans [OF m2(3) m3(3)])
  have ne: "m' \<noteq> []" if "keeps_swarms m1 m'" for m'
    using that init(3) by (cases m1; cases m') (auto simp: keeps_swarms_def keys_of_def)
  have "swarm_inv m3" "anchored m3" using keep3 init(2) by (simp_all add: keeps_swarms_def)
  from create_new_swarm_returns [OF assms(1) this ne [OF keep3]] obtain m4 g4 where
    m4: "create_new_swarm_from_excess env m3 g3 = ret (m4, g4)" "swarm_nodes m4 = swarm_nodes m"
    "keeps_swarms m3 m4" using m3(2) by metis
  have keep4: "keeps_swarms m1 m4" by (rule keeps_swarms_trans [OF keep3 m4(3)])
  have inv4: "swarm_inv m4" "anchored m4" using keep4 init(2) by (simp_all add: keeps_swarms_def)
  have enough: "MIN_SWARM_SIZE \<le> size (swarm_nodes m4)" using assms(7) m4(2) by (simp add: swarm_nodes_def)
  obtain m5 g5 where
    m5: "(if 1 < length m4 then decommission_swarms env m4 g4 else ret (m4, g4)) = ret (m5, g5)"
    "swarm_nodes m5 = swarm_nodes m" "swarm_inv m5" "starving m5 = {}"
  proof (cases "1 < length m4")
    case True
    with decommission_swarms_returns [OF assms(1,2) inv4 ne [OF keep4] enough, of g4] m4(2) that
    show ?thesis by auto
  next
    case False
    then obtain k v where m: "m4 = [(k, v)]" using ne [OF keep4] by (cases m4) auto
    then have "starving m4 = {}" using enough by (simp add: starving_def swarm_nodes_def)
    with False m4(2) inv4 that show ?thesis by simp
  qed
  have "length m \<noteq> 0" using assms(7) by (auto simp: const_defs)
  then have "calc_swarm_changes env m seed = ret m5"
    unfolding calc_swarm_changes_def Let_def
    by (simp only: un_def [symmetric] m0_def [symmetric] m1_def [symmetric] if_False m2(1) rbind_ret prod.case
        m3(1) m4(1) m5(1))
  moreover have "\<forall>e \<in> set m5. MIN_SWARM_SIZE \<le> length (snd e)"
    using has_starving_iff [of m5] m5(3,4) by (auto simp: has_starving_swarms_def swarm_inv_def not_less)
  ultimately show ?thesis using m5 by (simp add: swarm_inv_def swarm_nodes_def)
qed


definition example_env :: "u64 swarm_env" where
  "example_env = \<lparr>rng = one_shot_generator, sort_sizes = sort_key ss_size\<rparr>"

lemma example_env_fair: "fair_generator (rng example_env)" and example_env_sort: "size_sort (sort_sizes example_env)"
  by (simp_all add: example_env_def fair_one_shot_generator size_sort_def)

lemma UNASSIGNED_SWARM_ID_value: "UNASSIGNED_SWARM_ID = 18446744073709551615"
  by (simp add: UNASSIGNED_SWARM_ID_def)


section \<open>Two defects\<close>

text \<open>A creation round on the single swarm with the id that would be handed out next.\<close>

lemma lone_middle_swarm_round:
  assumes "fair_generator (rng env)" and "distinct v" and "length v < 2 ^ 63" and "NEW_SWARM_SIZE + 2 \<le> length v - 5"
  shows "\<exists>v1 g1. create_swarms_loop env [(MAX_ID div 2, v)] g = create_swarms_loop env [(MAX_ID div 2, v1)] g1 \<and>
           distinct v1 \<and> length v1 + NEW_SWARM_SIZE = length v"
proof -
  let ?m = "[(MAX_ID div 2, v)]"
  have "MAX_ID div 2 \<noteq> UNASSIGNED_SWARM_ID" by (simp add: MAX_ID_def UNASSIGNED_SWARM_ID_def)
  then have inv: "swarm_inv ?m"
    using assms(2,3) by (simp add: swarm_inv_def om_wf_def keys_of_def swarm_nodes_def distinct_count_atmost_1)
  have ex: "calc_excess ?m = length v - 5" by (simp add: calc_excess_def const_defs)
  from take_excess_snodes_returns [OF assms(1) inv, of NEW_SWARM_SIZE "[]" g] ex assms(4) obtain new m1 g1 where
    t: "take_excess_snodes env NEW_SWARM_SIZE [] ?m g = ret (Some new, m1, g1)" "swarm_inv m1"
    "keys_of m1 = keys_of ?m" "length new = NEW_SWARM_SIZE" "mset new + swarm_nodes m1 = swarm_nodes ?m" by auto
  then obtain v1 where m1: "m1 = [(MAX_ID div 2, v1)]" by (auto simp: keys_of_def)
  have "calc_threshold ?m \<le> calc_excess ?m" using ex assms(4) by (simp add: calc_threshold_def const_defs)
  then have "create_swarms_loop env ?m g = create_swarms_loop env m1 g1"
    by (subst create_swarms_loop.simps) (simp add: t(1) m1 get_new_swarm_id_def om_insert_new_def keys_of_def)
  moreover have "distinct v1" using distinct_swarm [OF t(2)] by (simp add: m1)
  moreover have "length v1 + NEW_SWARM_SIZE = length v"
    using arg_cong [OF t(5), of size] t(4) by (simp add: m1 swarm_nodes_def)
  ultimately show ?thesis using m1 by blast
qed

lemma lone_middle_swarm_loop:
  assumes "fair_generator (rng env)" and "distinct v" and "length v < 2 ^ 63"
  shows "\<exists>v' g'. create_swarms_loop env [(MAX_ID div 2, v)] g = ret ([(MAX_ID div 2, v')], g') \<and>
           length v' \<le> length v \<and> (14 \<le> length v \<longrightarrow> length v' + 7 \<le> length v)"
  using assms(2,3)
proof (induction "length v" arbitrary: v g rule: less_induct)
  case less
  show ?case
  proof (cases "14 \<le> length v")
    case True
    then have "NEW_SWARM_SIZE + 2 \<le> length v - 5" by (simp add: const_defs)
    then obtain v1 g1 where
      v1: "create_swarms_loop env [(MAX_ID div 2, v)] g = create_swarms_loop env [(MAX_ID div 2, v1)] g1"
      "distinct v1" "length v1 + 7 = length v"
      using lone_middle_swarm_round [OF assms(1) less.prems, of g] by (auto simp: const_defs)
    from less.hyps [of v1 g1] v1 less.prems(2) obtain v' g' where
      "create_swarms_loop env [(MAX_ID div 2, v1)] g1 = ret ([(MAX_ID div 2, v')], g')" "length v' \<le> length v1"
      by auto
    with v1 show ?thesis by auto
  next
    case False
    then show ?thesis
      by (subst create_swarms_loop.simps) (auto simp: calc_threshold_def calc_excess_def const_defs)
  qed
qed

text \<open>
  when the only swarm has the id \<^verbatim>\<open>MAX_ID / 2\<close>, the new swarm is given the same id, the insertion
  into the map does nothing, and the seven nodes taken for the new swarm are lost from the map.
\<close>

theorem lone_middle_swarm_loses_nodes:
  assumes "fair_generator (rng env)" and "distinct v" and "14 \<le> length v" and "length v < 2 ^ 63"
  shows "\<exists>v' g'. create_new_swarm_from_excess env [(MAX_ID div 2, v)] g = ret ([(MAX_ID div 2, v')], g') \<and>
           length v' + 7 \<le> length v"
  using lone_middle_swarm_loop [OF assms(1,2,4), of g] assms(3)
  by (auto simp: create_new_swarm_from_excess_def has_starving_swarms_def const_defs)

theorem lone_middle_swarm_loses_nodes_witness:
  "\<exists>v' g'. create_new_swarm_from_excess example_env [(MAX_ID div 2, [1, 2, 3, 4, 5, 6, 7, 8, 9, 10, 11, 12, 13, 14])] 3 = ret ([(MAX_ID div 2, v')], g') \<and>
     length v' + 7 \<le> length ([1, 2, 3, 4, 5, 6, 7, 8, 9, 10, 11, 12, 13, 14] :: public_key list)"
  by (rule lone_middle_swarm_loses_nodes [OF example_env_fair]) simp_all

lemma assign_to_only_swarm:
  assumes "fair_generator (rng env)" and "size_sort (sort_sizes env)" and "length (w @ v) < MIN_SWARM_SIZE"
  shows "\<exists>g'. assign_snodes env v [(b, w)] g percentile = ret ([(b, w @ v)], g')"
  using assms(3)
proof (induction v arbitrary: w g)
  case Nil
  then show ?case by simp
next
  case (Cons pk v)
  have "calc_swarm_sizes env [(b, w)] = [\<lparr>ss_swarm_id = b, ss_size = length w\<rparr>]"
    using calc_swarm_sizes_mset [OF assms(2), of "[(b, w)]"] by simp
  moreover obtain j g1 where j: "uniform_distribution_portable (rng env) 1 g = Some (j, g1)"
    using uniform_distribution_returns [OF assms(1), of 1 g] by auto
  moreover have "j = 0" using uniform_distribution_bound [OF _ j] by simp
  moreover have "has_starving_swarms [(b, w @ [pk])]"
    using Cons.prems by (simp add: has_starving_swarms_def)
  ultimately have "assign_snode env pk [(b, w)] g percentile = ret ([(b, w @ [pk])], g1)"
    by (simp add: assign_snode_def Let_def modify_key_def create_new_swarm_from_excess_def)
  with Cons.IH [of "w @ [pk]" g1] Cons.prems show ?case by simp
qed

lemma robin_hood_all_poor:
  assumes "\<forall>e \<in> set m. length (snd e) < MIN_SWARM_SIZE"
    and "\<forall>s \<in> set swarms. map_of m (ss_swarm_id s) \<noteq> None"
  shows "robin_hood_round env sizes swarms m g = ret (m, g)"
proof (cases swarms)
  case (Cons s ss)
  have "filter (\<lambda>e. max MIN_SWARM_SIZE t < length (snd e)) m = []" for t
    using assms(1) by (auto simp: filter_empty_conv)
  then have pool: "get_excess_pool (max MIN_SWARM_SIZE t) m 0 = ([], 0)" for t
    by (simp add: get_excess_pool_def)
  obtain v where v: "map_of m (ss_swarm_id s) = Some v" using assms(2) Cons by auto
  then have "length v < MIN_SWARM_SIZE" using assms(1) map_of_SomeD [OF v] by force
  then have "steal_for_swarm env sizes (ss_swarm_id s) m g = ret (True, m, g)"
    using v by (subst steal_for_swarm.simps) (simp add: Let_def pool)
  with v Cons show ?thesis by simp
qed simp

text \<open>
  C38: the number of swarms is tested only before the decommissioning loop.  When two swarms have fewer
  than \<^verbatim>\<open>MIN_SWARM_SIZE\<close> nodes together, the loop removes the last swarm as well and the assignment
  of its nodes to an empty map throws \<^verbatim>\<open>std::out_of_range\<close>.
\<close>

theorem two_small_swarms_throw:
  assumes "fair_generator (rng env)" and "size_sort (sort_sizes env)"
    and "a < b" and "b \<noteq> UNASSIGNED_SWARM_ID" and "0 < length v" and "length v + length w < MIN_SWARM_SIZE"
  shows "calc_swarm_changes env [(a, v), (b, w)] seed = throw out_of_range"
proof -
  let ?m = "[(a, v), (b, w)]" and ?g = "gen_seed (rng env) seed"
  have a: "a \<noteq> UNASSIGNED_SWARM_ID" using assms(3) unat_lt64 [of b]
    by (auto simp: UNASSIGNED_SWARM_ID_def word_less_nat_alt unat_UINT64_MAX)
  have "om_wf ?m" using assms(3) by (simp add: om_wf_def keys_of_def)
  then have "\<forall>s \<in> set (calc_swarm_sizes env ?m). map_of ?m (ss_swarm_id s) \<noteq> None"
    using calc_swarm_sizes_member [OF assms(2), of _ ?m] by (metis option.distinct(1))
  then have rh: "robin_hood_round env (calc_swarm_sizes env ?m) (calc_swarm_sizes env ?m) ?m g = ret (?m, g)" for g
    using assms(6) by (intro robin_hood_all_poor) simp_all
  have cr: "create_new_swarm_from_excess env ?m g = ret (?m, g)" for g
    using assms(6) by (simp add: create_new_swarm_from_excess_def has_starving_swarms_def)
  obtain g1 where g1: "assign_snodes env v [(b, w)] ?g 0 = ret ([(b, w @ v)], g1)"
    using assign_to_only_swarm [OF assms(1,2), of w v b ?g 0] assms(6) by auto
  have empty: "assign_snodes env (w @ v) [] g1 0 = throw out_of_range"
    using assms(5) calc_swarm_sizes_mset [OF assms(2), of "[]"] by (cases "w @ v") (auto simp: assign_snode_def)
  have "decommission_swarms env [(b, w @ v)] g1 = throw out_of_range"
    using assms(6) empty by (subst decommission_swarms.simps) (simp add: erase_key_def
        DECOMMISSIONED_REDISTRIBUTION_LOWER_PERCENTILE_def)
  then have "decommission_swarms env ?m ?g = throw out_of_range"
    using less_imp_neq [OF assms(3)] assms(6) g1 by (subst decommission_swarms.simps) (auto simp: erase_key_def
        DECOMMISSIONED_REDISTRIBUTION_LOWER_PERCENTILE_def)
  with a assms(4) show ?thesis
    by (simp add: calc_swarm_changes_def erase_key_def rh cr)
qed

theorem two_small_swarms_throw_witness:
  "calc_swarm_changes example_env [(0, [1, 2]), (7, [3, 4])] 42 = throw out_of_range"
  by (rule two_small_swarms_throw [OF example_env_fair example_env_sort])
    (simp_all add: UNASSIGNED_SWARM_ID_value MIN_SWARM_SIZE_def)

end
