(* ===== verification/Chain_Types.thy ===== *)
theory Chain_Types
  imports Config
begin

text \<open>
  The data the service node code reads off the chain: transactions, blocks, the fields of a
  transaction's extra data, checkpoints and quorums (\<^verbatim>\<open>src/src/cryptonote_basic\<close>,
  \<^verbatim>\<open>src/src/checkpoints/checkpoints.h\<close>, \<^verbatim>\<open>src/src/cryptonote_core/service_node_quorum_cop.h\<close>).

  The extra data of a transaction is the list of fields that \<^verbatim>\<open>parse_tx_extra\<close> finds in its bytes;
  a reader looks for the first field of its type, as \<^verbatim>\<open>find_tx_extra_field_by_type\<close> does.  Fields
  of types that no modelled reader looks at are \<open>extra_other\<close> with their tag.  The ring
  signature data of a transaction is its type and an opaque blob.

  The records have the fields that the modelled code reads; the asset type and view tag of an
  output, the nonce of a block and similar fields are left out.

  The cryptographic primitives the code calls are the fields of the record \<open>crypto_ops\<close>, an
  argument of every definition that uses one.
\<close>

unbundle bit_operations_syntax

section \<open>Cryptographic primitives\<close>

type_synonym key_derivation = "256 word"
type_synonym ed25519_public_key = "256 word"
type_synonym x25519_public_key = "256 word"
type_synonym ed25519_secret_key = "512 word"

record rct_sig =
  rct_type :: u8
  rct_data :: "u8 list"

record account_public_address =
  m_spend_public_key :: public_key
  m_view_public_key :: public_key

record crypto_ops =
  cn_fast_hash :: "u8 list \<Rightarrow> hash256"
  check_key :: "public_key \<Rightarrow> bool"
  check_signature :: "hash256 \<Rightarrow> public_key \<Rightarrow> signature \<Rightarrow> bool"
  generate_signature :: "hash256 \<Rightarrow> public_key \<Rightarrow> secret_key \<Rightarrow> signature"
  check_ring_signature :: "hash256 \<Rightarrow> key_image \<Rightarrow> public_key list \<Rightarrow> signature \<Rightarrow> bool"
  generate_key_derivation :: "public_key \<Rightarrow> secret_key \<Rightarrow> key_derivation option"
  derive_public_key :: "key_derivation \<Rightarrow> nat \<Rightarrow> public_key \<Rightarrow> public_key option"
  derivation_to_scalar :: "key_derivation \<Rightarrow> nat \<Rightarrow> secret_key"
  decode_rct_simple :: "rct_sig \<Rightarrow> secret_key \<Rightarrow> nat \<Rightarrow> u64 option"
  decode_rct :: "rct_sig \<Rightarrow> secret_key \<Rightarrow> nat \<Rightarrow> u64 option"
  deterministic_secret_key :: "u64 \<Rightarrow> secret_key"

definition RCTTypeNull :: u8 where [const_defs]: "RCTTypeNull = 0"
definition RCTTypeFull :: u8 where [const_defs]: "RCTTypeFull = 1"
definition RCTTypeSimple :: u8 where [const_defs]: "RCTTypeSimple = 2"
definition RCTTypeBulletproof :: u8 where [const_defs]: "RCTTypeBulletproof = 3"
definition RCTTypeBulletproof2 :: u8 where [const_defs]: "RCTTypeBulletproof2 = 4"
definition RCTTypeCLSAG :: u8 where [const_defs]: "RCTTypeCLSAG = 5"
definition RCTTypeBulletproofPlus :: u8 where [const_defs]: "RCTTypeBulletproofPlus = 6"

section \<open>Extra fields\<close>

record tx_extra_service_node_register =
  m_public_spend_keys :: "public_key list"
  m_public_view_keys :: "public_key list"
  m_portions_for_operator :: u64
  m_portions :: "u64 list"
  m_expiration_timestamp :: u64
  m_service_node_signature :: signature

record state_change_tx_vote =
  scv_signature :: signature
  scv_validator_index :: u32

record tx_extra_service_node_state_change =
  sc_state :: new_state
  sc_block_height :: u64
  sc_service_node_index :: u32
  sc_votes :: "state_change_tx_vote list"

record tx_extra_service_node_deregister_old =
  dereg_block_height :: u64
  dereg_service_node_index :: u32
  dereg_votes :: "state_change_tx_vote list"

record key_image_proof =
  kip_key_image :: key_image
  kip_signature :: signature

record tx_extra_tx_key_image_unlock =
  kiu_key_image :: key_image
  kiu_signature :: signature
  kiu_nonce :: u32

datatype tx_extra_field =
    extra_service_node_pubkey public_key
  | extra_service_node_register tx_extra_service_node_register
  | extra_service_node_contributor account_public_address
  | extra_service_node_winner public_key
  | extra_service_node_state_change tx_extra_service_node_state_change
  | extra_service_node_deregister_old tx_extra_service_node_deregister_old
  | extra_tx_secret_key secret_key
  | extra_tx_key_image_proofs "key_image_proof list"
  | extra_tx_key_image_unlock tx_extra_tx_key_image_unlock
  | extra_burn u64
  | extra_other u8 "u8 list"

text \<open>The first field for which the reader is defined.\<close>

fun find_tx_extra_field :: "(tx_extra_field \<Rightarrow> 'a option) \<Rightarrow> tx_extra_field list \<Rightarrow> 'a option" where
  "find_tx_extra_field rd [] = None"
| "find_tx_extra_field rd (f # fs) =
     (case rd f of Some x \<Rightarrow> Some x | None \<Rightarrow> find_tx_extra_field rd fs)"

definition get_service_node_pubkey_from_tx_extra :: "tx_extra_field list \<Rightarrow> public_key option" where
  "get_service_node_pubkey_from_tx_extra =
     find_tx_extra_field (\<lambda>f. case f of extra_service_node_pubkey k \<Rightarrow> Some k | _ \<Rightarrow> None)"

definition get_tx_secret_key_from_tx_extra :: "tx_extra_field list \<Rightarrow> secret_key option" where
  "get_tx_secret_key_from_tx_extra =
     find_tx_extra_field (\<lambda>f. case f of extra_tx_secret_key k \<Rightarrow> Some k | _ \<Rightarrow> None)"

definition get_tx_key_image_proofs_from_tx_extra :: "tx_extra_field list \<Rightarrow> key_image_proof list option" where
  "get_tx_key_image_proofs_from_tx_extra =
     find_tx_extra_field (\<lambda>f. case f of extra_tx_key_image_proofs ps \<Rightarrow> Some ps | _ \<Rightarrow> None)"

definition get_tx_key_image_unlock_from_tx_extra ::
    "tx_extra_field list \<Rightarrow> tx_extra_tx_key_image_unlock option" where
  "get_tx_key_image_unlock_from_tx_extra =
     find_tx_extra_field (\<lambda>f. case f of extra_tx_key_image_unlock u \<Rightarrow> Some u | _ \<Rightarrow> None)"

definition get_service_node_contributor_from_tx_extra ::
    "tx_extra_field list \<Rightarrow> account_public_address option" where
  "get_service_node_contributor_from_tx_extra =
     find_tx_extra_field (\<lambda>f. case f of extra_service_node_contributor a \<Rightarrow> Some a | _ \<Rightarrow> None)"

definition get_service_node_register_from_tx_extra ::
    "tx_extra_field list \<Rightarrow> tx_extra_service_node_register option" where
  "get_service_node_register_from_tx_extra extra =
     (case find_tx_extra_field
             (\<lambda>f. case f of extra_service_node_register r \<Rightarrow> Some r | _ \<Rightarrow> None) extra of
        None \<Rightarrow> None
      | Some r \<Rightarrow>
          if length (m_public_spend_keys r) = length (m_public_view_keys r) then Some r else None)"

definition get_service_node_state_change_from_tx_extra ::
    "tx_extra_field list \<Rightarrow> u8 \<Rightarrow> tx_extra_service_node_state_change option" where
  "get_service_node_state_change_from_tx_extra extra hf_version =
     (if network_version_12_checkpointing \<le> hf_version
      then find_tx_extra_field
             (\<lambda>f. case f of extra_service_node_state_change sc \<Rightarrow> Some sc | _ \<Rightarrow> None) extra
      else map_option
             (\<lambda>d. \<lparr>sc_state = deregister, sc_block_height = dereg_block_height d,
                   sc_service_node_index = dereg_service_node_index d, sc_votes = dereg_votes d\<rparr>)
             (find_tx_extra_field
                (\<lambda>f. case f of extra_service_node_deregister_old d \<Rightarrow> Some d | _ \<Rightarrow> None) extra))"

definition get_service_node_winner_from_tx_extra :: "tx_extra_field list \<Rightarrow> public_key" where
  "get_service_node_winner_from_tx_extra extra =
     (case find_tx_extra_field (\<lambda>f. case f of extra_service_node_winner k \<Rightarrow> Some k | _ \<Rightarrow> None) extra of
        None \<Rightarrow> null_pkey
      | Some k \<Rightarrow> k)"

text \<open>The writers of single fields append to the extra data.\<close>

definition add_service_node_pubkey_to_tx_extra :: "tx_extra_field list \<Rightarrow> public_key \<Rightarrow> tx_extra_field list" where
  "add_service_node_pubkey_to_tx_extra extra k = extra @ [extra_service_node_pubkey k]"

definition add_service_node_register_to_tx_extra ::
    "tx_extra_field list \<Rightarrow> account_public_address list \<Rightarrow> u64 \<Rightarrow> u64 list \<Rightarrow> u64 \<Rightarrow> signature \<Rightarrow>
       tx_extra_field list option" where
  "add_service_node_register_to_tx_extra extra addresses portions_for_operator portions
       expiration_timestamp service_node_signature =
     (if length addresses \<noteq> length portions then None
      else Some (extra @ [extra_service_node_register
             \<lparr>m_public_spend_keys = map m_spend_public_key addresses,
              m_public_view_keys = map m_view_public_key addresses,
              m_portions_for_operator = portions_for_operator,
              m_portions = portions,
              m_expiration_timestamp = expiration_timestamp,
              m_service_node_signature = service_node_signature\<rparr>]))"

section \<open>Transactions and blocks\<close>

datatype txout_target = txout_to_script | txout_to_scripthash | txout_sispop_tagged_key public_key

record tx_out =
  out_amount :: u64
  out_target :: txout_target

datatype txin = txin_gen u64 | txin_to_script | txin_to_scripthash | txin_sispop_key u64 key_image

datatype txtype =
    tx_standard | tx_state_change | tx_key_image_unlock | tx_stake | tx_sispop_name_system
  | other_txtype u16

fun txtype_value :: "txtype \<Rightarrow> u16" where
  "txtype_value tx_standard = 0"
| "txtype_value tx_state_change = 1"
| "txtype_value tx_key_image_unlock = 2"
| "txtype_value tx_stake = 3"
| "txtype_value tx_sispop_name_system = 4"
| "txtype_value (other_txtype v) = v"

definition v3_per_output_unlock_times :: u16 where [const_defs]: "v3_per_output_unlock_times = 3"

record transaction =
  tx_version :: u16
  tx_type :: txtype
  tx_unlock_time :: u64
  tx_vin :: "txin list"
  tx_vout :: "tx_out list"
  tx_extra :: "tx_extra_field list"
  tx_output_unlock_times :: "u64 list"
  tx_rct_signatures :: rct_sig

definition get_max_type_for_hf :: "u8 \<Rightarrow> txtype" where
  "get_max_type_for_hf hf_version =
     (if network_version_15_lns \<le> hf_version then tx_sispop_name_system
      else if network_version_14_blink \<le> hf_version then tx_stake
      else if network_version_11_infinite_staking \<le> hf_version then tx_key_image_unlock
      else if network_version_9_service_nodes \<le> hf_version then tx_state_change
      else tx_standard)"

text \<open>The hash of a block is cached in the block; the model has it as a field.\<close>

record block =
  blk_major_version :: u8
  blk_minor_version :: u8
  blk_timestamp :: u64
  blk_prev_id :: hash256
  blk_miner_tx :: transaction
  blk_tx_hashes :: "hash256 list"
  blk_hash :: hash256

definition get_block_height :: "block \<Rightarrow> u64" where
  "get_block_height b = (case tx_vin (blk_miner_tx b) of [txin_gen h] \<Rightarrow> h | _ \<Rightarrow> 0)"

section \<open>Quorums and checkpoints\<close>

record quorum =
  validators :: "public_key list"
  workers :: "public_key list"

record quorum_manager =
  qm_obligations :: "quorum option"
  qm_checkpointing :: "quorum option"
  qm_blink :: "quorum option"

definition empty_quorums :: quorum_manager where
  "empty_quorums = \<lparr>qm_obligations = None, qm_checkpointing = None, qm_blink = None\<rparr>"

fun quorum_manager_get :: "quorum_manager \<Rightarrow> quorum_type \<Rightarrow> quorum option" where
  "quorum_manager_get m obligations = qm_obligations m"
| "quorum_manager_get m checkpointing = qm_checkpointing m"
| "quorum_manager_get m blink = qm_blink m"
| "quorum_manager_get m (other_quorum_type v) = None"

record voter_to_signature =
  vs_voter_index :: u16
  vs_signature :: signature

datatype checkpoint_type = hardcoded | service_node

record checkpoint_t =
  cp_version :: u8
  cp_type :: checkpoint_type
  cp_height :: u64
  cp_block_hash :: hash256
  cp_signatures :: "voter_to_signature list"
  cp_prev_height :: u64

record service_node_keys =
  sn_key :: secret_key
  sn_pub :: public_key
  sn_key_ed25519 :: ed25519_secret_key
  sn_pub_ed25519 :: ed25519_public_key

section \<open>Verification contexts\<close>

record vote_verification_context =
  m_verification_failed :: bool
  m_invalid_block_height :: bool
  m_duplicate_voters :: bool
  m_validator_index_out_of_bounds :: bool
  m_worker_index_out_of_bounds :: bool
  m_signature_not_valid :: bool
  m_added_to_pool :: bool
  m_not_enough_votes :: bool
  m_incorrect_voting_group :: bool
  m_invalid_vote_type :: bool
  m_votes_not_sorted :: bool

definition clean_vvc :: vote_verification_context where
  "clean_vvc = \<lparr>m_verification_failed = False, m_invalid_block_height = False, m_duplicate_voters = False,
     m_validator_index_out_of_bounds = False, m_worker_index_out_of_bounds = False,
     m_signature_not_valid = False, m_added_to_pool = False, m_not_enough_votes = False,
     m_incorrect_voting_group = False, m_invalid_vote_type = False, m_votes_not_sorted = False\<rparr>"

text \<open>The fields of \<^verbatim>\<open>tx_verification_context\<close> that the service node code sets.\<close>

record tx_verification_context =
  m_verifivation_failed :: bool
  m_vote_ctx :: vote_verification_context

definition clean_tvc :: tx_verification_context where
  "clean_tvc = \<lparr>m_verifivation_failed = False, m_vote_ctx = clean_vvc\<rparr>"

section \<open>Bytes\<close>

text \<open>Integers in little-endian order, as \<^verbatim>\<open>tools::memcpy_le\<close> lays them out, and blobs as they are.\<close>

definition le_bytes :: "nat \<Rightarrow> 'a :: len word \<Rightarrow> u8 list" where
  "le_bytes n v = map (\<lambda>i. ucast (drop_bit (8 * i) v)) [0 ..< n]"

definition be_bytes :: "nat \<Rightarrow> 'a :: len word \<Rightarrow> u8 list" where
  "be_bytes n v = rev (le_bytes n v)"

definition of_le_bytes :: "u8 list \<Rightarrow> 'a :: len word" where
  "of_le_bytes bs = foldr (\<lambda>b acc. ucast b OR push_bit 8 acc) bs 0"

definition of_be_bytes :: "u8 list \<Rightarrow> 'a :: len word" where
  "of_be_bytes bs = of_le_bytes (rev bs)"

definition address_bytes :: "account_public_address \<Rightarrow> u8 list" where
  "address_bytes a = be_bytes 32 (m_spend_public_key a) @ be_bytes 32 (m_view_public_key a)"

section \<open>Byte round trips\<close>

lemma bit_of_le_bytes:
  "bit (of_le_bytes bs :: 'a :: len word) i \<longleftrightarrow>
     i < LENGTH('a) \<and> i div 8 < length bs \<and> bit (bs ! (i div 8)) (i mod 8)"
proof (induction bs arbitrary: i)
  case Nil
  then show ?case by (simp add: of_le_bytes_def)
next
  case (Cons b bs)
  have step: "of_le_bytes (b # bs) = (ucast b OR push_bit 8 (of_le_bytes bs) :: 'a word)"
    by (simp add: of_le_bytes_def)
  show ?case
  proof (cases "i < 8")
    case True
    then show ?thesis by (auto simp: step bit_or_iff bit_push_bit_iff bit_unsigned_iff)
  next
    case False
    then obtain j where j: "i = j + 8" by (metis add.commute le_add_diff_inverse not_less)
    have "\<not> bit (ucast b :: 'a word) i"
      using j by (auto simp: bit_unsigned_iff dest: bit_imp_le_length)
    moreover have "(j + 8) div 8 = Suc (j div 8)" by simp
    ultimately show ?thesis
      using Cons.IH [of j] j by (auto simp: step bit_or_iff bit_push_bit_iff)
  qed
qed

lemma of_le_bytes_inverse:
  assumes "LENGTH('a :: len) \<le> 8 * n"
  shows "of_le_bytes (le_bytes n (v :: 'a word)) = v"
proof (rule bit_word_eqI)
  fix i assume "i < LENGTH('a)"
  moreover have "8 * (i div 8) + i mod 8 = i" by simp
  ultimately show "bit (of_le_bytes (le_bytes n v) :: 'a word) i \<longleftrightarrow> bit v i"
    using assms by (auto simp: bit_of_le_bytes le_bytes_def bit_unsigned_iff bit_drop_bit_eq)
qed

lemma of_be_bytes_inverse:
  "LENGTH('a :: len) \<le> 8 * n \<Longrightarrow> of_be_bytes (be_bytes n (v :: 'a word)) = v"
  by (simp add: of_be_bytes_def be_bytes_def of_le_bytes_inverse)

lemma length_le_bytes [simp]: "length (le_bytes n v) = n"
  by (simp add: le_bytes_def)

lemma length_be_bytes [simp]: "length (be_bytes n v) = n"
  by (simp add: be_bytes_def)

end
