(* ===== verification/Voting.thy ===== *)
theory Voting
  imports Chain_Types
begin

text \<open>
  Votes of quorum members: \<^verbatim>\<open>src/src/cryptonote_core/service_node_voting.cpp\<close> and
  \<^verbatim>\<open>service_node_voting.h\<close>.  The verification functions return their verdict together with the
  updated verification context.  The pool of received votes has two vectors of entries with the
  same template operations; they are one polymorphic record here and the locale \<open>typed_pool\<close> has
  the lemmas for both.

  The union in a vote is a field for each member; the code reads the member that the type of
  the vote selects.  The arrays in which the verifiers count the votes of each validator are
  functions: they are as large as the largest quorum, and indices are checked against the
  quorum before they are used.
\<close>

section \<open>Data\<close>

record quorum_vote_t =
  qv_version :: u8
  qv_type :: quorum_type
  qv_block_height :: u64
  qv_group :: quorum_group
  qv_index_in_group :: u16
  qv_signature :: signature
  qv_worker_index :: u16
  qv_state :: new_state
  qv_block_hash :: hash256

record pool_vote_entry =
  pv_vote :: quorum_vote_t
  pv_time_last_sent_p2p :: u64

text \<open>A pool entry: the height, the other fields its equality compares, and the votes.\<close>

record 'k pool_entry =
  pe_height :: u64
  pe_key :: 'k
  pe_votes :: "pool_vote_entry list"

type_synonym obligations_pool_entry = "(u32 \<times> new_state) pool_entry"
type_synonym checkpoint_pool_entry = "hash256 pool_entry"

record voting_pool =
  m_obligations_pool :: "obligations_pool_entry list"
  m_checkpoint_pool :: "checkpoint_pool_entry list"

section \<open>Making and verifying votes\<close>

definition make_state_change_vote_hash :: "crypto_ops \<Rightarrow> u64 \<Rightarrow> u32 \<Rightarrow> new_state \<Rightarrow> hash256" where
  "make_state_change_vote_hash C block_height service_node_index state =
     (let state_int = new_state_value state;
          buf = le_bytes 8 block_height @ le_bytes 4 service_node_index @ le_bytes 2 state_int;
          size = (if state = deregister then length buf - 2 else length buf)
      in cn_fast_hash C (take size buf))"

definition make_signature_from_vote :: "crypto_ops \<Rightarrow> quorum_vote_t \<Rightarrow> service_node_keys \<Rightarrow> signature" where
  "make_signature_from_vote C vote keys =
     (case qv_type vote of
        obligations \<Rightarrow>
          generate_signature C
            (make_state_change_vote_hash C (qv_block_height vote) (ucast (qv_worker_index vote)) (qv_state vote))
            (sn_pub keys) (sn_key keys)
      | checkpointing \<Rightarrow> generate_signature C (qv_block_hash vote) (sn_pub keys) (sn_key keys)
      | _ \<Rightarrow> 0)"

definition make_signature_from_tx_state_change ::
    "crypto_ops \<Rightarrow> tx_extra_service_node_state_change \<Rightarrow> service_node_keys \<Rightarrow> signature" where
  "make_signature_from_tx_state_change C state_change keys =
     generate_signature C
       (make_state_change_vote_hash C (sc_block_height state_change)
          (sc_service_node_index state_change) (sc_state state_change))
       (sn_pub keys) (sn_key keys)"

definition bounds_check_worker_index ::
    "quorum \<Rightarrow> u32 \<Rightarrow> vote_verification_context \<Rightarrow> bool \<times> vote_verification_context" where
  "bounds_check_worker_index q worker_index vvc =
     (if length (workers q) \<le> unat worker_index
      then (False, vvc\<lparr>m_worker_index_out_of_bounds := True\<rparr>) else (True, vvc))"

definition bounds_check_validator_index ::
    "quorum \<Rightarrow> u32 \<Rightarrow> vote_verification_context \<Rightarrow> bool \<times> vote_verification_context" where
  "bounds_check_validator_index q validator_index vvc =
     (if length (validators q) \<le> unat validator_index
      then (False, vvc\<lparr>m_validator_index_out_of_bounds := True\<rparr>) else (True, vvc))"

definition bad_tx :: "tx_verification_context \<Rightarrow> bool \<times> tx_verification_context" where
  "bad_tx tvc = (False, tvc\<lparr>m_verifivation_failed := True\<rparr>)"

text \<open>
  The loop over the votes of a state change, with the counts of the validators seen and the last
  index; the index comparison is on \<^verbatim>\<open>int\<close>, to which a 32-bit index is converted.
\<close>

fun check_state_change_votes ::
    "crypto_ops \<Rightarrow> u8 \<Rightarrow> quorum \<Rightarrow> hash256 \<Rightarrow> (nat \<Rightarrow> nat) \<Rightarrow> int \<Rightarrow> state_change_tx_vote list \<Rightarrow>
       tx_verification_context \<Rightarrow> bool \<times> tx_verification_context" where
  "check_state_change_votes C hf_version q hash validator_set tracker [] tvc = (True, tvc)"
| "check_state_change_votes C hf_version q hash validator_set tracker (vote # votes) tvc =
     (let vvc = m_vote_ctx tvc;
          index = scv_validator_index vote;
          ordered = (network_version_13_enforce_checkpoints \<le> hf_version)
      in if ordered \<and> sint index \<le> tracker
         then bad_tx (tvc\<lparr>m_vote_ctx := vvc\<lparr>m_votes_not_sorted := True\<rparr>\<rparr>)
         else
           let tracker = (if ordered then sint index else tracker);
               (ok, vvc) = bounds_check_validator_index q index vvc
           in if \<not> ok then bad_tx (tvc\<lparr>m_vote_ctx := vvc\<rparr>)
              else
                let validator_set = validator_set(unat index := validator_set (unat index) + 1)
                in if 1 < validator_set (unat index)
                   then bad_tx (tvc\<lparr>m_vote_ctx := vvc\<lparr>m_duplicate_voters := True\<rparr>\<rparr>)
                   else if \<not> check_signature C hash (validators q ! unat index) (scv_signature vote)
                   then bad_tx (tvc\<lparr>m_vote_ctx := vvc\<lparr>m_signature_not_valid := True\<rparr>\<rparr>)
                   else check_state_change_votes C hf_version q hash validator_set tracker votes tvc)"

definition verify_tx_state_change ::
    "crypto_ops \<Rightarrow> tx_extra_service_node_state_change \<Rightarrow> u64 \<Rightarrow> tx_verification_context \<Rightarrow> quorum \<Rightarrow> u8 \<Rightarrow>
       bool \<times> tx_verification_context" where
  "verify_tx_state_change C state_change latest_height tvc q hf_version =
     (let vvc = m_vote_ctx tvc;
          height = sc_block_height state_change
      in if sc_state state_change \<noteq> deregister \<and> hf_version < network_version_12_checkpointing then bad_tx tvc
         else if 4 \<le> new_state_value (sc_state state_change) then bad_tx tvc
         else if length (sc_votes state_change) < STATE_CHANGE_MIN_VOTES_TO_CHANGE_STATE
         then bad_tx (tvc\<lparr>m_vote_ctx := vvc\<lparr>m_not_enough_votes := True\<rparr>\<rparr>)
         else if STATE_CHANGE_QUORUM_SIZE < length (sc_votes state_change) then bad_tx tvc
         else
           let (ok, vvc) = bounds_check_worker_index q (sc_service_node_index state_change) vvc
           in if \<not> ok then bad_tx (tvc\<lparr>m_vote_ctx := vvc\<rparr>)
              else if latest_height \<le> height
              then (False, tvc\<lparr>m_vote_ctx := vvc\<lparr>m_invalid_block_height := True\<rparr>,
                     m_verifivation_failed :=
                       (if latest_height + VOTE_OR_TX_VERIFY_HEIGHT_BUFFER \<le> height then True
                        else m_verifivation_failed tvc)\<rparr>)
              else if height + STATE_CHANGE_TX_LIFETIME_IN_BLOCKS \<le> latest_height
              then (False, tvc\<lparr>m_vote_ctx := vvc\<lparr>m_invalid_block_height := True\<rparr>,
                     m_verifivation_failed :=
                       (if height + (STATE_CHANGE_TX_LIFETIME_IN_BLOCKS + VOTE_OR_TX_VERIFY_HEIGHT_BUFFER) \<le> latest_height
                        then True else m_verifivation_failed tvc)\<rparr>)
              else
                check_state_change_votes C hf_version q
                  (make_state_change_vote_hash C height (sc_service_node_index state_change) (sc_state state_change))
                  (\<lambda>_. 0) (- 1) (sc_votes state_change) tvc)"

text \<open>The loop over the signatures of a checkpoint.\<close>

fun check_checkpoint_votes ::
    "crypto_ops \<Rightarrow> u8 \<Rightarrow> quorum \<Rightarrow> hash256 \<Rightarrow> (nat \<Rightarrow> nat) \<Rightarrow> voter_to_signature list \<Rightarrow> bool" where
  "check_checkpoint_votes C hf_version q hash unique_vote_set [] = True"
| "check_checkpoint_votes C hf_version q hash unique_vote_set (v # vs) =
     (let index = vs_voter_index v
      in if network_version_13_enforce_checkpoints \<le> hf_version \<and> vs \<noteq> [] \<and> vs_voter_index (hd vs) \<le> index
         then False
         else if \<not> fst (bounds_check_validator_index q (ucast index) clean_vvc) then False
         else if unique_vote_set (unat index) \<noteq> 0 then False
         else if \<not> check_signature C hash (validators q ! unat index) (vs_signature v) then False
         else check_checkpoint_votes C hf_version q hash
                (unique_vote_set(unat index := unique_vote_set (unat index) + 1)) vs)"

definition verify_checkpoint :: "crypto_ops \<Rightarrow> u8 \<Rightarrow> checkpoint_t \<Rightarrow> quorum \<Rightarrow> bool" where
  "verify_checkpoint C hf_version checkpoint q =
     (if cp_type checkpoint = service_node
      then
        if cp_height checkpoint mod CHECKPOINT_INTERVAL \<noteq> 0 then False
        else if length (cp_signatures checkpoint) < CHECKPOINT_MIN_VOTES then False
        else if CHECKPOINT_QUORUM_SIZE < length (cp_signatures checkpoint) then False
        else check_checkpoint_votes C hf_version q (cp_block_hash checkpoint) (\<lambda>_. 0) (cp_signatures checkpoint)
      else length (cp_signatures checkpoint) = 0)"

definition empty_vote :: quorum_vote_t where
  "empty_vote = \<lparr>qv_version = 0, qv_type = obligations, qv_block_height = 0, qv_group = group_invalid,
     qv_index_in_group = 0, qv_signature = 0, qv_worker_index = 0, qv_state = deregister, qv_block_hash = 0\<rparr>"

definition make_state_change_vote ::
    "crypto_ops \<Rightarrow> u64 \<Rightarrow> u16 \<Rightarrow> u16 \<Rightarrow> new_state \<Rightarrow> service_node_keys \<Rightarrow> quorum_vote_t" where
  "make_state_change_vote C block_height validator_index worker_index state keys =
     (let result = empty_vote\<lparr>qv_type := obligations, qv_block_height := block_height,
            qv_group := group_validator, qv_index_in_group := validator_index,
            qv_worker_index := worker_index, qv_state := state\<rparr>
      in result\<lparr>qv_signature := make_signature_from_vote C result keys\<rparr>)"

definition make_checkpointing_vote ::
    "crypto_ops \<Rightarrow> hash256 \<Rightarrow> u64 \<Rightarrow> u16 \<Rightarrow> service_node_keys \<Rightarrow> quorum_vote_t" where
  "make_checkpointing_vote C block_hash block_height index_in_quorum keys =
     (let result = empty_vote\<lparr>qv_type := checkpointing, qv_block_hash := block_hash,
            qv_block_height := block_height, qv_group := group_validator,
            qv_index_in_group := index_in_quorum\<rparr>
      in result\<lparr>qv_signature := make_signature_from_vote C result keys\<rparr>)"

definition make_empty_service_node_checkpoint :: "hash256 \<Rightarrow> u64 \<Rightarrow> checkpoint_t" where
  "make_empty_service_node_checkpoint block_hash height =
     \<lparr>cp_version = 0, cp_type = service_node, cp_height = height, cp_block_hash = block_hash,
      cp_signatures = [], cp_prev_height = 0\<rparr>"

definition verify_vote_age ::
    "quorum_vote_t \<Rightarrow> u64 \<Rightarrow> vote_verification_context \<Rightarrow> bool \<times> vote_verification_context" where
  "verify_vote_age vote latest_height vvc =
     (let height = qv_block_height vote;
          (height_in_buffer, vvc) =
            (if height + VOTE_LIFETIME < latest_height
             then (latest_height \<le> height + (VOTE_LIFETIME + VOTE_OR_TX_VERIFY_HEIGHT_BUFFER),
                   vvc\<lparr>m_invalid_block_height := True\<rparr>)
             else if latest_height < height
             then (height \<le> latest_height + VOTE_OR_TX_VERIFY_HEIGHT_BUFFER,
                   vvc\<lparr>m_invalid_block_height := True\<rparr>)
             else (False, vvc))
      in if m_invalid_block_height vvc
         then (False, vvc\<lparr>m_verification_failed := \<not> height_in_buffer\<rparr>)
         else (True, vvc))"

definition verify_vote_signature ::
    "crypto_ops \<Rightarrow> quorum_vote_t \<Rightarrow> vote_verification_context \<Rightarrow> quorum \<Rightarrow> bool \<times> vote_verification_context" where
  "verify_vote_signature C vote vvc q =
     (let bad_type = (2 < quorum_type_value (qv_type vote));
          bad_group = (2 < quorum_group_value (qv_group vote) \<or> quorum_group_value (qv_group vote) < 1);
          vvc = (if bad_type then vvc\<lparr>m_invalid_vote_type := True\<rparr> else vvc);
          vvc = (if bad_group then vvc\<lparr>m_incorrect_voting_group := True\<rparr> else vvc)
      in if bad_type \<or> bad_group then (False, vvc)
         else
           let (ok, vvc) =
                 (if qv_group vote = group_validator
                  then bounds_check_validator_index q (ucast (qv_index_in_group vote)) vvc
                  else bounds_check_worker_index q (ucast (qv_index_in_group vote)) vvc)
           in if \<not> ok then (False, vvc)
              else
                let (ok, vvc, key, hash) =
                      (case qv_type vote of
                         obligations \<Rightarrow>
                           if qv_group vote \<noteq> group_validator
                           then (False, vvc\<lparr>m_incorrect_voting_group := True\<rparr>, null_pkey, null_hash)
                           else
                             let (ok, vvc) = bounds_check_worker_index q (ucast (qv_worker_index vote)) vvc
                             in (ok, vvc, validators q ! unat (qv_index_in_group vote),
                                 make_state_change_vote_hash C (qv_block_height vote)
                                   (ucast (qv_worker_index vote)) (qv_state vote))
                       | checkpointing \<Rightarrow>
                           if qv_group vote \<noteq> group_validator
                           then (False, vvc\<lparr>m_incorrect_voting_group := True\<rparr>, null_pkey, null_hash)
                           else (True, vvc, validators q ! unat (qv_index_in_group vote), qv_block_hash vote)
                       | _ \<Rightarrow> (False, vvc, null_pkey, null_hash))
                in if \<not> ok then (False, vvc)
                   else if check_signature C hash key (qv_signature vote) then (True, vvc)
                   else (False, vvc\<lparr>m_signature_not_valid := True\<rparr>))"

section \<open>The vote pool\<close>

definition obligations_entry_of :: "quorum_vote_t \<Rightarrow> obligations_pool_entry" where
  "obligations_entry_of vote =
     \<lparr>pe_height = qv_block_height vote, pe_key = (ucast (qv_worker_index vote), qv_state vote), pe_votes = []\<rparr>"

definition obligations_entry_of_tx :: "tx_extra_service_node_state_change \<Rightarrow> obligations_pool_entry" where
  "obligations_entry_of_tx sc =
     \<lparr>pe_height = sc_block_height sc, pe_key = (sc_service_node_index sc, sc_state sc), pe_votes = []\<rparr>"

definition checkpoint_entry_of :: "quorum_vote_t \<Rightarrow> checkpoint_pool_entry" where
  "checkpoint_entry_of vote =
     \<lparr>pe_height = qv_block_height vote, pe_key = qv_block_hash vote, pe_votes = []\<rparr>"

definition same_entry :: "'k pool_entry \<Rightarrow> 'k pool_entry \<Rightarrow> bool" where
  "same_entry a b \<longleftrightarrow> pe_height a = pe_height b \<and> pe_key a = pe_key b"

definition find_entry :: "'k pool_entry list \<Rightarrow> 'k pool_entry \<Rightarrow> nat option" where
  "find_entry pool e =
     (let i = length (takeWhile (\<lambda>x. \<not> same_entry x e) pool)
      in if i < length pool then Some i else None)"

text \<open>The index of the entry of a vote and the pool, which grows when the entry is created.\<close>

definition find_vote_in_pool ::
    "'k pool_entry list \<Rightarrow> 'k pool_entry \<Rightarrow> bool \<Rightarrow> nat option \<times> 'k pool_entry list" where
  "find_vote_in_pool pool typed_vote create =
     (case find_entry pool typed_vote of
        Some i \<Rightarrow> (Some i, pool)
      | None \<Rightarrow> if \<not> create then (None, pool) else (Some (length pool), pool @ [typed_vote]))"

definition update_entry_votes ::
    "nat \<Rightarrow> (pool_vote_entry list \<Rightarrow> pool_vote_entry list) \<Rightarrow> 'k pool_entry list \<Rightarrow> 'k pool_entry list" where
  "update_entry_votes i f pool = pool[i := (pool ! i)\<lparr>pe_votes := f (pe_votes (pool ! i))\<rparr>]"

text \<open>\<^verbatim>\<open>std::find_if\<close> for the voter, and the change of its time stamp.\<close>

fun mark_relayed :: "u16 \<Rightarrow> u64 \<Rightarrow> pool_vote_entry list \<Rightarrow> pool_vote_entry list" where
  "mark_relayed index now [] = []"
| "mark_relayed index now (e # es) =
     (if index = qv_index_in_group (pv_vote e) then e\<lparr>pv_time_last_sent_p2p := now\<rparr> # es
      else e # mark_relayed index now es)"

definition set_relayed_in ::
    "u64 \<Rightarrow> u16 \<Rightarrow> 'k pool_entry list \<Rightarrow> 'k pool_entry \<Rightarrow> 'k pool_entry list" where
  "set_relayed_in now index pool typed_vote =
     (case find_vote_in_pool pool typed_vote False of
        (None, pool) \<Rightarrow> pool
      | (Some i, pool) \<Rightarrow> update_entry_votes i (mark_relayed index now) pool)"

definition set_relayed_vote :: "u64 \<Rightarrow> quorum_vote_t \<Rightarrow> voting_pool \<Rightarrow> voting_pool" where
  "set_relayed_vote now vote pool =
     (case qv_type vote of
        obligations \<Rightarrow>
          pool\<lparr>m_obligations_pool :=
            set_relayed_in now (qv_index_in_group vote) (m_obligations_pool pool) (obligations_entry_of vote)\<rparr>
      | checkpointing \<Rightarrow>
          pool\<lparr>m_checkpoint_pool :=
            set_relayed_in now (qv_index_in_group vote) (m_checkpoint_pool pool) (checkpoint_entry_of vote)\<rparr>
      | _ \<Rightarrow> pool)"

definition set_relayed :: "u64 \<Rightarrow> quorum_vote_t list \<Rightarrow> voting_pool \<Rightarrow> voting_pool" where
  "set_relayed now votes pool = fold (set_relayed_vote now) votes pool"

definition append_relayable_votes ::
    "quorum_vote_t list \<Rightarrow> 'k pool_entry list \<Rightarrow> u64 \<Rightarrow> u64 \<Rightarrow> quorum_vote_t list" where
  "append_relayable_votes result pool max_last_sent min_height =
     result @ concat (map (\<lambda>e. map pv_vote (filter
       (\<lambda>v. min_height \<le> qv_block_height (pv_vote v) \<and> pv_time_last_sent_p2p v \<le> max_last_sent)
       (pe_votes e))) pool)"

definition get_relayable_votes :: "u64 \<Rightarrow> u64 \<Rightarrow> u8 \<Rightarrow> bool \<Rightarrow> voting_pool \<Rightarrow> quorum_vote_t list" where
  "get_relayable_votes now height hf_version quorum_relay pool =
     (let max_last_sent = now - 60 * 2;
          min_height = (if VOTE_LIFETIME < height then height - VOTE_LIFETIME else 0)
      in if quorum_relay \<and> hf_version < network_version_14_blink then []
         else
           let result =
                 (if hf_version < network_version_14_blink \<or> quorum_relay
                  then append_relayable_votes [] (m_obligations_pool pool) max_last_sent min_height else [])
           in if hf_version < network_version_14_blink \<or> \<not> quorum_relay
              then append_relayable_votes result (m_checkpoint_pool pool) max_last_sent min_height else result)"

text \<open>
  \<^verbatim>\<open>std::lower_bound\<close> on the votes, which are sorted by voter, and the insertion before the
  position it finds.
\<close>

definition add_vote_to_pool_if_unique ::
    "pool_vote_entry list \<Rightarrow> quorum_vote_t \<Rightarrow> bool \<times> pool_vote_entry list" where
  "add_vote_to_pool_if_unique votes vote =
     (let smaller = (\<lambda>e. qv_index_in_group (pv_vote e) < qv_index_in_group vote);
          before = takeWhile smaller votes;
          after = dropWhile smaller votes
      in if after = [] \<or> qv_index_in_group (pv_vote (hd after)) \<noteq> qv_index_in_group vote
         then (True, before @ \<lparr>pv_vote = vote, pv_time_last_sent_p2p = 0\<rparr> # after)
         else (False, votes))"

definition add_vote_in ::
    "quorum_vote_t \<Rightarrow> 'k pool_entry list \<Rightarrow> 'k pool_entry \<Rightarrow> bool \<times> pool_vote_entry list \<times> 'k pool_entry list" where
  "add_vote_in vote pool typed_vote =
     (let (i, pool) = find_vote_in_pool pool typed_vote True;
          (added, votes) = add_vote_to_pool_if_unique (pe_votes (pool ! the i)) vote
      in (added, votes, update_entry_votes (the i) (\<lambda>_. votes) pool))"

definition add_pool_vote_if_unique ::
    "quorum_vote_t \<Rightarrow> vote_verification_context \<Rightarrow> voting_pool \<Rightarrow>
       pool_vote_entry list \<times> vote_verification_context \<times> voting_pool" where
  "add_pool_vote_if_unique vote vvc pool =
     (case qv_type vote of
        obligations \<Rightarrow>
          let (added, votes, p) = add_vote_in vote (m_obligations_pool pool) (obligations_entry_of vote)
          in (votes, vvc\<lparr>vote_verification_context.m_added_to_pool := added\<rparr>, pool\<lparr>m_obligations_pool := p\<rparr>)
      | checkpointing \<Rightarrow>
          let (added, votes, p) = add_vote_in vote (m_checkpoint_pool pool) (checkpoint_entry_of vote)
          in (votes, vvc\<lparr>vote_verification_context.m_added_to_pool := added\<rparr>, pool\<lparr>m_checkpoint_pool := p\<rparr>)
      | _ \<Rightarrow> ([], vvc, pool))"

definition remove_used_votes_tx :: "u8 \<Rightarrow> transaction \<Rightarrow> obligations_pool_entry list \<Rightarrow> obligations_pool_entry list" where
  "remove_used_votes_tx hard_fork_version tx pool =
     (if tx_type tx \<noteq> tx_state_change then pool
      else
        case get_service_node_state_change_from_tx_extra (tx_extra tx) hard_fork_version of
          None \<Rightarrow> pool
        | Some state_change \<Rightarrow>
            (case find_entry pool (obligations_entry_of_tx state_change) of
               None \<Rightarrow> pool
             | Some i \<Rightarrow> take i pool @ drop (Suc i) pool))"

definition remove_used_votes :: "transaction list \<Rightarrow> u8 \<Rightarrow> voting_pool \<Rightarrow> voting_pool" where
  "remove_used_votes txs hard_fork_version pool =
     pool\<lparr>m_obligations_pool := fold (remove_used_votes_tx hard_fork_version) txs (m_obligations_pool pool)\<rparr>"

definition cull_votes :: "'k pool_entry list \<Rightarrow> u64 \<Rightarrow> u64 \<Rightarrow> 'k pool_entry list" where
  "cull_votes vote_pool min_height max_height =
     filter (\<lambda>e. \<not> (pe_height e < min_height \<or> max_height < pe_height e)) vote_pool"

definition remove_expired_votes :: "u64 \<Rightarrow> voting_pool \<Rightarrow> voting_pool" where
  "remove_expired_votes height pool =
     (let min_height = (if height < VOTE_LIFETIME then 0 else height - VOTE_LIFETIME)
      in pool\<lparr>m_obligations_pool := cull_votes (m_obligations_pool pool) min_height height,
              m_checkpoint_pool := cull_votes (m_checkpoint_pool pool) min_height height\<rparr>)"

definition received_checkpoint_vote :: "u64 \<Rightarrow> nat \<Rightarrow> voting_pool \<Rightarrow> bool" where
  "received_checkpoint_vote height index_in_quorum pool =
     (case find (\<lambda>e. pe_height e = height) (m_checkpoint_pool pool) of
        None \<Rightarrow> False
      | Some e \<Rightarrow> (\<exists>v \<in> set (pe_votes e). unat (qv_index_in_group (pv_vote v)) = index_in_quorum))"

section \<open>The blob of a vote\<close>

definition vote_to_blob :: "quorum_vote_t \<Rightarrow> u8 list" where
  "vote_to_blob vote =
     [qv_version vote, quorum_type_value (qv_type vote)] @ replicate 6 0
     @ le_bytes 8 (qv_block_height vote)
     @ [quorum_group_value (qv_group vote), 0]
     @ le_bytes 2 (qv_index_in_group vote)
     @ be_bytes 64 (qv_signature vote)
     @ (if qv_type vote = checkpointing
        then be_bytes 32 (qv_block_hash vote) @ replicate 4 0
        else le_bytes 2 (qv_worker_index vote) @ le_bytes 2 (new_state_value (qv_state vote)) @ replicate 32 0)"

definition blob_part :: "u8 list \<Rightarrow> nat \<Rightarrow> nat \<Rightarrow> u8 list" where
  "blob_part blob start n = take n (drop start blob)"

text \<open>The union of the target keeps what it held outside the member that is read.\<close>

definition blob_to_vote :: "u8 list \<Rightarrow> quorum_vote_t \<Rightarrow> quorum_vote_t" where
  "blob_to_vote blob vote =
     (let vote = vote\<lparr>qv_version := blob ! 0, qv_type := quorum_type_of_value (blob ! 1),
            qv_block_height := of_le_bytes (blob_part blob 8 8),
            qv_group := quorum_group_of_value (blob ! 16),
            qv_index_in_group := of_le_bytes (blob_part blob 18 2),
            qv_signature := of_be_bytes (blob_part blob 20 64)\<rparr>
      in if qv_type vote = checkpointing
         then vote\<lparr>qv_block_hash := of_be_bytes (blob_part blob 84 32)\<rparr>
         else vote\<lparr>qv_worker_index := of_le_bytes (blob_part blob 84 2),
                   qv_state := new_state_of_value (of_le_bytes (blob_part blob 86 2))\<rparr>)"

section \<open>What the verifiers accept\<close>

lemma bounds_check_fst [simp]:
  "fst (bounds_check_validator_index q i vvc) \<longleftrightarrow> unat i < length (validators q)"
  "fst (bounds_check_worker_index q i vvc) \<longleftrightarrow> unat i < length (workers q)"
  by (auto simp: bounds_check_validator_index_def bounds_check_worker_index_def)

lemma bad_tx_fst [simp]: "\<not> fst (bad_tx tvc)"
  by (simp add: bad_tx_def)

text \<open>A signed vote of a member of the quorum.\<close>

definition valid_tx_vote :: "crypto_ops \<Rightarrow> quorum \<Rightarrow> hash256 \<Rightarrow> state_change_tx_vote \<Rightarrow> bool" where
  "valid_tx_vote C q hash v \<longleftrightarrow> unat (scv_validator_index v) < length (validators q) \<and>
     check_signature C hash (validators q ! unat (scv_validator_index v)) (scv_signature v)"

lemma check_state_change_votes_iff:
  "fst (check_state_change_votes C hf q hash S t votes tvc) \<longleftrightarrow>
     (\<forall>v \<in> set votes. valid_tx_vote C q hash v \<and> S (unat (scv_validator_index v)) = 0) \<and>
     distinct (map scv_validator_index votes) \<and>
     (network_version_13_enforce_checkpoints \<le> hf \<longrightarrow>
        sorted_wrt (<) (t # map (\<lambda>v. sint (scv_validator_index v)) votes))"
proof (induction votes arbitrary: S t tvc)
  case Nil
  then show ?case by simp
next
  case (Cons v vs)
  let ?i = "unat (scv_validator_index v)" and ?o = "network_version_13_enforce_checkpoints \<le> hf"
  let ?t = "if ?o then sint (scv_validator_index v) else t"
  have "fst (check_state_change_votes C hf q hash S t (v # vs) tvc) \<longleftrightarrow>
      \<not> (?o \<and> sint (scv_validator_index v) \<le> t) \<and> ?i < length (validators q) \<and> S ?i = 0 \<and>
      check_signature C hash (validators q ! ?i) (scv_signature v) \<and>
      fst (check_state_change_votes C hf q hash (S(?i := S ?i + 1)) ?t vs tvc)"
    by (auto simp: Let_def bounds_check_validator_index_def)
  also have "\<dots> \<longleftrightarrow> \<not> (?o \<and> sint (scv_validator_index v) \<le> t) \<and> valid_tx_vote C q hash v \<and> S ?i = 0 \<and>
      (\<forall>w \<in> set vs. valid_tx_vote C q hash w \<and> S (unat (scv_validator_index w)) = 0 \<and> scv_validator_index w \<noteq> scv_validator_index v) \<and>
      distinct (map scv_validator_index vs) \<and>
      (?o \<longrightarrow> sorted_wrt (<) (sint (scv_validator_index v) # map (\<lambda>v. sint (scv_validator_index v)) vs))"
    unfolding Cons.IH valid_tx_vote_def by (auto simp: word_unat_eq_iff split: if_splits)
  also have "\<dots> \<longleftrightarrow> (\<forall>w \<in> set (v # vs). valid_tx_vote C q hash w \<and> S (unat (scv_validator_index w)) = 0) \<and>
     distinct (map scv_validator_index (v # vs)) \<and>
     (?o \<longrightarrow> sorted_wrt (<) (t # map (\<lambda>v. sint (scv_validator_index v)) (v # vs)))"
    by (auto simp: not_le image_iff)
  finally show ?case .
qed


text \<open>
  C28: a state change transaction passes verification exactly when its kind is allowed at the hard
  fork, it is in the window of heights, its worker exists, and it has between
  \<^verbatim>\<open>STATE_CHANGE_MIN_VOTES_TO_CHANGE_STATE\<close> and \<^verbatim>\<open>STATE_CHANGE_QUORUM_SIZE\<close> votes of
  pairwise different validators of the quorum, each signed by that validator, in ascending order
  from hard fork 13 on.
\<close>

theorem verify_tx_state_change_iff:
  "fst (verify_tx_state_change C sc latest_height tvc q hf) \<longleftrightarrow>
     (sc_state sc = deregister \<or> network_version_12_checkpointing \<le> hf) \<and> new_state_value (sc_state sc) < 4 \<and>
     unat (sc_service_node_index sc) < length (workers q) \<and>
     sc_block_height sc < latest_height \<and> latest_height < sc_block_height sc + STATE_CHANGE_TX_LIFETIME_IN_BLOCKS \<and>
     STATE_CHANGE_MIN_VOTES_TO_CHANGE_STATE \<le> length (sc_votes sc) \<and>
     length (sc_votes sc) \<le> STATE_CHANGE_QUORUM_SIZE \<and>
     distinct (map scv_validator_index (sc_votes sc)) \<and>
     (\<forall>v \<in> set (sc_votes sc). valid_tx_vote C q
        (make_state_change_vote_hash C (sc_block_height sc) (sc_service_node_index sc) (sc_state sc)) v) \<and>
     (network_version_13_enforce_checkpoints \<le> hf \<longrightarrow>
        sorted_wrt (<) (- 1 # map (\<lambda>v. sint (scv_validator_index v)) (sc_votes sc)))"
proof -
  let ?hash = "make_state_change_vote_hash C (sc_block_height sc) (sc_service_node_index sc) (sc_state sc)"
  have "fst (verify_tx_state_change C sc latest_height tvc q hf) \<longleftrightarrow>
      (sc_state sc = deregister \<or> \<not> hf < network_version_12_checkpointing) \<and> \<not> 4 \<le> new_state_value (sc_state sc) \<and>
      \<not> length (sc_votes sc) < STATE_CHANGE_MIN_VOTES_TO_CHANGE_STATE \<and>
      \<not> STATE_CHANGE_QUORUM_SIZE < length (sc_votes sc) \<and>
      unat (sc_service_node_index sc) < length (workers q) \<and> \<not> latest_height \<le> sc_block_height sc \<and>
      \<not> sc_block_height sc + STATE_CHANGE_TX_LIFETIME_IN_BLOCKS \<le> latest_height \<and>
      fst (check_state_change_votes C hf q ?hash (\<lambda>_. 0) (- 1) (sc_votes sc) tvc)"
    by (simp add: verify_tx_state_change_def Let_def bounds_check_worker_index_def)
  then show ?thesis
    unfolding check_state_change_votes_iff by (simp only: not_le not_less) blast
qed

definition example_crypto :: crypto_ops where
  "example_crypto =
     \<lparr>cn_fast_hash = (\<lambda>bs. of_be_bytes bs), check_key = (\<lambda>k. k \<noteq> 0),
      check_signature = (\<lambda>h k s. s = ucast h + ucast k),
      generate_signature = (\<lambda>h k sk. ucast h + ucast k),
      check_ring_signature = (\<lambda>h ki ks s. s = ucast ki),
      generate_key_derivation = (\<lambda>k sk. Some (k + sk)),
      derive_public_key = (\<lambda>d i k. Some (d + of_nat i + k)),
      derivation_to_scalar = (\<lambda>d i. d + of_nat i),
      decode_rct_simple = (\<lambda>r s i. Some (of_nat (length (rct_data r)))),
      decode_rct = (\<lambda>r s i. Some (of_nat (length (rct_data r)))),
      deterministic_secret_key = (\<lambda>h. ucast h)\<rparr>"

definition example_quorum :: quorum where
  "example_quorum = \<lparr>validators = [11, 12, 13, 14, 15, 16, 17, 18, 19, 20], workers = [21, 22]\<rparr>"

definition example_state_change :: tx_extra_service_node_state_change where
  "example_state_change =
     \<lparr>sc_state = decommission, sc_block_height = 1000, sc_service_node_index = 1,
      sc_votes = map (\<lambda>i. \<lparr>scv_signature = ucast (make_state_change_vote_hash example_crypto 1000 1 decommission)
        + of_nat (11 + i), scv_validator_index = of_nat i\<rparr>) [0, 1, 2, 3, 4, 5, 6]\<rparr>"

theorem verify_tx_state_change_iff_witness:
  "fst (verify_tx_state_change example_crypto example_state_change 1010 clean_tvc example_quorum 16)"
  by (subst verify_tx_state_change_iff)
    (simp add: example_state_change_def example_quorum_def valid_tx_vote_def const_defs,
     simp add: example_crypto_def)

definition valid_checkpoint_vote :: "crypto_ops \<Rightarrow> quorum \<Rightarrow> hash256 \<Rightarrow> voter_to_signature \<Rightarrow> bool" where
  "valid_checkpoint_vote C q hash v \<longleftrightarrow> unat (vs_voter_index v) < length (validators q) \<and>
     check_signature C hash (validators q ! unat (vs_voter_index v)) (vs_signature v)"

lemma sorted_wrt_adjacent:
  "sorted_wrt (<) (map f (v # vs)) \<longleftrightarrow> (vs = [] \<or> (f v :: 'a :: linorder) < f (hd vs)) \<and> sorted_wrt (<) (map f vs)"
  by (cases vs) (auto dest: less_trans)

lemma unat_ucast_u16_u32 [simp]: "unat (ucast (i :: u16) :: u32) = unat i"
  by (simp add: unsigned_ucast_eq take_bit_nat_eq_self order_less_trans [OF unsigned_less])

lemma check_checkpoint_votes_iff:
  "check_checkpoint_votes C hf q hash S vs \<longleftrightarrow>
     (\<forall>v \<in> set vs. valid_checkpoint_vote C q hash v \<and> S (unat (vs_voter_index v)) = 0) \<and>
     distinct (map vs_voter_index vs) \<and>
     (network_version_13_enforce_checkpoints \<le> hf \<longrightarrow> sorted_wrt (<) (map vs_voter_index vs))"
proof (induction vs arbitrary: S)
  case Nil
  then show ?case by simp
next
  case (Cons v vs)
  let ?i = "unat (vs_voter_index v)" and ?o = "network_version_13_enforce_checkpoints \<le> hf"
  have "check_checkpoint_votes C hf q hash S (v # vs) \<longleftrightarrow>
      \<not> (?o \<and> vs \<noteq> [] \<and> vs_voter_index (hd vs) \<le> vs_voter_index v) \<and> valid_checkpoint_vote C q hash v \<and> S ?i = 0 \<and>
      check_checkpoint_votes C hf q hash (S(?i := S ?i + 1)) vs"
    by (auto simp: Let_def valid_checkpoint_vote_def)
  also have "\<dots> \<longleftrightarrow> \<not> (?o \<and> vs \<noteq> [] \<and> vs_voter_index (hd vs) \<le> vs_voter_index v) \<and>
      valid_checkpoint_vote C q hash v \<and> S ?i = 0 \<and>
      (\<forall>w \<in> set vs. valid_checkpoint_vote C q hash w \<and> S (unat (vs_voter_index w)) = 0 \<and> vs_voter_index w \<noteq> vs_voter_index v) \<and>
      distinct (map vs_voter_index vs) \<and> (?o \<longrightarrow> sorted_wrt (<) (map vs_voter_index vs))"
    unfolding Cons.IH by (auto simp: word_unat_eq_iff split: if_splits)
  also have "\<dots> \<longleftrightarrow> (\<forall>w \<in> set (v # vs). valid_checkpoint_vote C q hash w \<and> S (unat (vs_voter_index w)) = 0) \<and>
     distinct (map vs_voter_index (v # vs)) \<and> (?o \<longrightarrow> sorted_wrt (<) (map vs_voter_index (v # vs)))"
    unfolding sorted_wrt_adjacent by (auto simp: not_le image_iff)
  finally show ?case .
qed

text \<open>
  C29: a service node checkpoint passes verification exactly when its height is a multiple of the
  checkpoint interval and it has between \<^verbatim>\<open>CHECKPOINT_MIN_VOTES\<close> and \<^verbatim>\<open>CHECKPOINT_QUORUM_SIZE\<close>
  signatures of pairwise different validators over its block hash, in ascending order from hard
  fork 13 on; a hardcoded checkpoint passes exactly when it has no signatures.
\<close>

theorem verify_checkpoint_iff:
  "verify_checkpoint C hf cp q \<longleftrightarrow>
     (case cp_type cp of
        hardcoded \<Rightarrow> cp_signatures cp = []
      | service_node \<Rightarrow>
          cp_height cp mod CHECKPOINT_INTERVAL = 0 \<and>
          CHECKPOINT_MIN_VOTES \<le> length (cp_signatures cp) \<and> length (cp_signatures cp) \<le> CHECKPOINT_QUORUM_SIZE \<and>
          distinct (map vs_voter_index (cp_signatures cp)) \<and>
          (\<forall>v \<in> set (cp_signatures cp). valid_checkpoint_vote C q (cp_block_hash cp) v) \<and>
          (network_version_13_enforce_checkpoints \<le> hf \<longrightarrow> sorted_wrt (<) (map vs_voter_index (cp_signatures cp))))"
  unfolding verify_checkpoint_def check_checkpoint_votes_iff
  by (cases "cp_type cp") (auto simp: not_less)

definition example_checkpoint :: checkpoint_t where
  "example_checkpoint =
     \<lparr>cp_version = 0, cp_type = service_node, cp_height = 400, cp_block_hash = 7,
      cp_signatures = map (\<lambda>i. \<lparr>vs_voter_index = of_nat i, vs_signature = 7 + of_nat (100 + i)\<rparr>)
        [0, 1, 2, 3, 4, 5, 6, 7, 8, 9, 10, 11, 12],
      cp_prev_height = 0\<rparr>"

theorem verify_checkpoint_iff_witness:
  "verify_checkpoint example_crypto 16 example_checkpoint
     \<lparr>validators = [100, 101, 102, 103, 104, 105, 106, 107, 108, 109, 110, 111, 112], workers = []\<rparr>"
  by (subst verify_checkpoint_iff)
    (simp add: example_checkpoint_def valid_checkpoint_vote_def const_defs, simp add: example_crypto_def)

section \<open>Votes made by this node\<close>

definition signing_key_pair :: "crypto_ops \<Rightarrow> service_node_keys \<Rightarrow> bool" where
  "signing_key_pair C keys \<longleftrightarrow>
     (\<forall>h. check_signature C h (sn_pub keys) (generate_signature C h (sn_pub keys) (sn_key keys)))"

text \<open>
  C30: with a key pair whose signatures verify, the state change vote and the checkpoint vote a
  validator makes for itself pass the signature check of the quorum it is a member of, leaving
  the verification context unchanged.
\<close>

theorem own_votes_verify:
  assumes "signing_key_pair C keys" and "unat index < length (validators q)"
    and "validators q ! unat index = sn_pub keys" and "unat worker < length (workers q)"
  shows "verify_vote_signature C (make_state_change_vote C height index worker state keys) vvc q = (True, vvc) \<and>
         verify_vote_signature C (make_checkpointing_vote C block_hash height index keys) vvc q = (True, vvc)"
  using assms
  by (simp add: verify_vote_signature_def make_state_change_vote_def make_checkpointing_vote_def
      make_signature_from_vote_def signing_key_pair_def bounds_check_validator_index_def
      bounds_check_worker_index_def Let_def empty_vote_def)

definition example_keys :: service_node_keys where
  "example_keys = \<lparr>sn_key = 5, sn_pub = 13, sn_key_ed25519 = 0, sn_pub_ed25519 = 0\<rparr>"

theorem own_votes_verify_witness:
  "verify_vote_signature example_crypto (make_state_change_vote example_crypto 1000 2 1 recommission example_keys)
     clean_vvc example_quorum = (True, clean_vvc) \<and>
   verify_vote_signature example_crypto (make_checkpointing_vote example_crypto 99 1000 2 example_keys)
     clean_vvc example_quorum = (True, clean_vvc)"
  by (rule own_votes_verify)
    (simp_all add: signing_key_pair_def example_crypto_def example_keys_def example_quorum_def)

text \<open>
  a fresh context accepts the age of a vote exactly when the vote is not newer than the chain
  and at most \<^verbatim>\<open>VOTE_LIFETIME\<close> blocks old; a vote that is off by at most
  \<^verbatim>\<open>VOTE_OR_TX_VERIFY_HEIGHT_BUFFER\<close> blocks is refused without marking the sender as faulty.
\<close>

theorem verify_vote_age_cases:
  assumes "unat latest < 2 ^ 63" and "unat (qv_block_height vote) < 2 ^ 63"
  defines "h \<equiv> unat (qv_block_height vote)" and "l \<equiv> unat latest"
  shows "verify_vote_age vote latest clean_vvc =
     (if h \<le> l \<and> l \<le> h + 60 then (True, clean_vvc)
      else (False, clean_vvc\<lparr>m_invalid_block_height := True,
              m_verification_failed := \<not> (l \<le> h + 65 \<and> h \<le> l + 5)\<rparr>))"
proof -
  have VL: "unat VOTE_LIFETIME = 60" and VB: "unat VOTE_OR_TX_VERIFY_HEIGHT_BUFFER = 5"
    and VLB: "unat (VOTE_LIFETIME + VOTE_OR_TX_VERIFY_HEIGHT_BUFFER) = 65" by (simp_all add: const_defs)
  have s: "unat (qv_block_height vote + VOTE_LIFETIME) = h + 60"
    "unat (qv_block_height vote + (VOTE_LIFETIME + VOTE_OR_TX_VERIFY_HEIGHT_BUFFER)) = h + 65"
    "unat (latest + VOTE_OR_TX_VERIFY_HEIGHT_BUFFER) = l + 5"
    using assms(1,2) by (simp_all only: h_def l_def) (subst unat_add_no_wrap, simp_all add: VL VB VLB)+
  show ?thesis
    unfolding verify_vote_age_def Let_def word_less_nat_alt word_le_nat_alt s h_def [symmetric] l_def [symmetric]
    by (auto simp: clean_vvc_def)
qed

theorem verify_vote_age_cases_witness:
  "verify_vote_age (empty_vote\<lparr>qv_block_height := 1000\<rparr>) 1063 clean_vvc =
     (False, clean_vvc\<lparr>m_invalid_block_height := True, m_verification_failed := False\<rparr>)"
  using verify_vote_age_cases [of 1063 "empty_vote\<lparr>qv_block_height := 1000\<rparr>"] by simp

section \<open>The invariant of the vote pool\<close>

abbreviation vote_index :: "pool_vote_entry \<Rightarrow> u16" where
  "vote_index e \<equiv> qv_index_in_group (pv_vote e)"

definition votes_sorted :: "pool_vote_entry list \<Rightarrow> bool" where
  "votes_sorted votes \<longleftrightarrow> sorted_wrt (<) (map vote_index votes)"

text \<open>
  Entries differ in their key; the votes of an entry are for its key and have strictly ascending
  voters, so no voter counts twice.
\<close>

definition pool_wf :: "(quorum_vote_t \<Rightarrow> 'k pool_entry) \<Rightarrow> 'k pool_entry list \<Rightarrow> bool" where
  "pool_wf entry_of pool \<longleftrightarrow> distinct (map (\<lambda>e. (pe_height e, pe_key e)) pool) \<and>
     (\<forall>e \<in> set pool. votes_sorted (pe_votes e) \<and> (\<forall>v \<in> set (pe_votes e). same_entry e (entry_of (pv_vote v))))"

lemma takeWhile_index:
  assumes "votes_sorted votes"
  shows "set (takeWhile (\<lambda>e. vote_index e < i) votes) = {e \<in> set votes. vote_index e < i}"
  using assms unfolding votes_sorted_def by (induction votes) (auto simp: not_less)

lemma dropWhile_index:
  assumes "votes_sorted votes"
  shows "set (dropWhile (\<lambda>e. vote_index e < i) votes) = {e \<in> set votes. i \<le> vote_index e}"
  using assms unfolding votes_sorted_def by (induction votes) (auto simp: not_less)

lemma add_vote_unique:
  assumes "votes_sorted votes" and "add_vote_to_pool_if_unique votes vote = (added, votes')"
  shows "votes_sorted votes'" and "added \<longleftrightarrow> qv_index_in_group vote \<notin> vote_index ` set votes"
    and "set votes' = (if added then insert \<lparr>pv_vote = vote, pv_time_last_sent_p2p = 0\<rparr> (set votes) else set votes)"
proof -
  let ?i = "qv_index_in_group vote" and ?new = "\<lparr>pv_vote = vote, pv_time_last_sent_p2p = 0\<rparr>"
  define before where "before = takeWhile (\<lambda>e. vote_index e < ?i) votes"
  define after where "after = dropWhile (\<lambda>e. vote_index e < ?i) votes"
  have split: "votes = before @ after" by (simp add: before_def after_def)
  have b: "set before = {e \<in> set votes. vote_index e < ?i}" and a: "set after = {e \<in> set votes. ?i \<le> vote_index e}"
    using takeWhile_index [OF assms(1)] dropWhile_index [OF assms(1)] by (simp_all add: before_def after_def)
  have sorted: "sorted_wrt (<) (map vote_index before)" "sorted_wrt (<) (map vote_index after)"
    using assms(1) unfolding votes_sorted_def split by (simp_all add: sorted_wrt_append)
  have free: "after = [] \<or> vote_index (hd after) \<noteq> ?i \<longleftrightarrow> ?i \<notin> vote_index ` set votes"
  proof
    assume l: "after = [] \<or> vote_index (hd after) \<noteq> ?i"
    show "?i \<notin> vote_index ` set votes"
    proof
      assume "?i \<in> vote_index ` set votes"
      then obtain e where e: "e \<in> set votes" "vote_index e = ?i" by auto
      then have "e \<in> set after" by (simp add: a)
      then obtain h t where ht: "after = h # t" by (cases after) auto
      have "?i \<le> vote_index h" using a ht by auto
      moreover have "vote_index h \<le> ?i"
        using \<open>e \<in> set after\<close> e(2) sorted(2) ht by auto
      ultimately show False using l ht by simp
    qed
  next
    assume "?i \<notin> vote_index ` set votes"
    then show "after = [] \<or> vote_index (hd after) \<noteq> ?i" using split by (cases after) force+
  qed
  have res: "(added, votes') = (if ?i \<notin> vote_index ` set votes then (True, before @ ?new # after) else (False, votes))"
    using assms(2) unfolding add_vote_to_pool_if_unique_def Let_def
    by (simp only: before_def [symmetric] after_def [symmetric] free)
  then show "added \<longleftrightarrow> ?i \<notin> vote_index ` set votes" by (simp split: if_splits)
  show "set votes' = (if added then insert ?new (set votes) else set votes)"
    using res split by (auto split: if_splits)
  show "votes_sorted votes'"
  proof (cases added)
    case True
    then have free': "?i \<notin> vote_index ` set votes" and v: "votes' = before @ ?new # after"
      using res by (simp_all split: if_splits)
    have "\<forall>e \<in> set after. ?i < vote_index e" using a free' by (force simp: order_le_less)
    moreover have "\<forall>e \<in> set before. vote_index e < ?i" using b by simp
    ultimately show ?thesis
      using sorted unfolding votes_sorted_def v by (fastforce simp: sorted_wrt_append)
  next
    case False
    then show ?thesis using res assms(1) by (simp split: if_splits)
  qed
qed

lemma find_entry_Some: "find_entry pool e = Some i \<Longrightarrow> i < length pool \<and> same_entry (pool ! i) e"
  unfolding find_entry_def Let_def
  by (auto split: if_splits dest: nth_length_takeWhile)

lemma find_entry_None: "find_entry pool e = None \<Longrightarrow> x \<in> set pool \<Longrightarrow> \<not> same_entry x e"
  unfolding find_entry_def Let_def
  by (metis option.distinct(1) length_takeWhile_le le_neq_implies_less takeWhile_eq_all_conv takeWhile_eq_take take_all_iff)

lemma same_entry_iff: "same_entry a b \<longleftrightarrow> (pe_height a, pe_key a) = (pe_height b, pe_key b)"
  by (simp add: same_entry_def)

text \<open>
  The contract of the two instances of the pool template: a vote gives an entry of its height that
  has no votes yet.
\<close>

locale typed_pool =
  fixes entry_of :: "quorum_vote_t \<Rightarrow> 'k pool_entry"
  assumes entry_height: "pe_height (entry_of v) = qv_block_height v"
    and entry_empty: "pe_votes (entry_of v) = []"
begin

lemma wf_empty: "pool_wf entry_of []"
  by (simp add: pool_wf_def)

lemma wf_filter: "pool_wf entry_of pool \<Longrightarrow> pool_wf entry_of (filter P pool)"
  by (auto simp: pool_wf_def distinct_map_filter)

lemma wf_remove: "pool_wf entry_of pool \<Longrightarrow> pool_wf entry_of (take i pool @ drop (Suc i) pool)"
proof -
  assume wf: "pool_wf entry_of pool"
  let ?k = "\<lambda>e. (pe_height e, pe_key e)"
  have "set (take i pool @ drop (Suc i) pool) \<subseteq> set pool"
    by (auto dest: in_set_takeD in_set_dropD)
  moreover have "distinct (map ?k (take i pool @ drop (Suc i) pool))"
  proof -
    have "distinct (map ?k (take i pool) @ map ?k (drop i pool))"
      using wf by (simp add: pool_wf_def flip: map_append)
    moreover have "drop (Suc i) pool = tl (drop i pool)" by (simp add: drop_Suc tl_drop)
    ultimately show ?thesis by (cases "drop i pool") auto
  qed
  ultimately show ?thesis using wf unfolding pool_wf_def by blast
qed

lemma wf_update:
  assumes "pool_wf entry_of pool" and "i < length pool" and "votes_sorted (f (pe_votes (pool ! i)))"
    and "\<forall>v \<in> set (f (pe_votes (pool ! i))). same_entry (pool ! i) (entry_of (pv_vote v))"
  shows "pool_wf entry_of (update_entry_votes i f pool)"
proof -
  have "map (\<lambda>e. (pe_height e, pe_key e)) (update_entry_votes i f pool) = map (\<lambda>e. (pe_height e, pe_key e)) pool"
    using assms(2) by (simp add: update_entry_votes_def map_update list_update_same_conv)
  moreover have "same_entry (e\<lparr>pe_votes := vs\<rparr>) x = same_entry e x" for e :: "'k pool_entry" and vs x
    by (simp add: same_entry_def)
  ultimately show ?thesis
    using assms unfolding pool_wf_def update_entry_votes_def
    by (auto dest!: set_update_subset_insert [THEN subsetD])
qed

lemma wf_append:
  assumes "pool_wf entry_of pool" and "\<forall>x \<in> set pool. \<not> same_entry x (entry_of v)"
  shows "pool_wf entry_of (pool @ [entry_of v])"
proof -
  have "(pe_height (entry_of v), pe_key (entry_of v)) \<notin> set (map (\<lambda>e. (pe_height e, pe_key e)) pool)"
    using assms(2) by (fastforce simp: same_entry_def)
  then show ?thesis using assms(1) by (simp add: pool_wf_def entry_empty votes_sorted_def)
qed

lemma find_create:
  assumes "pool_wf entry_of pool" and "find_vote_in_pool pool (entry_of v) True = (j, pool')"
  shows "\<exists>i. j = Some i \<and> i < length pool' \<and> same_entry (pool' ! i) (entry_of v) \<and> pool_wf entry_of pool' \<and>
    (\<forall>w. w \<in> set (pe_votes (pool' ! i)) \<longleftrightarrow> (\<exists>e \<in> set pool. same_entry e (entry_of v) \<and> w \<in> set (pe_votes e)))"
proof (cases "find_entry pool (entry_of v)")
  case None
  note none = find_entry_None [OF None]
  then have "j = Some (length pool)" "pool' = pool @ [entry_of v]" "pool_wf entry_of pool'"
    using assms None wf_append [OF assms(1), of v] by (auto simp: find_vote_in_pool_def)
  with none show ?thesis by (auto simp: same_entry_def entry_empty)
next
  case (Some i)
  note found = find_entry_Some [OF Some]
  have res: "j = Some i" "pool' = pool" using assms(2) Some by (auto simp: find_vote_in_pool_def)
  have "e = pool ! i" if mem: "e \<in> set pool" and same: "same_entry e (entry_of v)" for e
  proof -
    obtain k where k: "k < length pool" "e = pool ! k" using mem by (auto simp: in_set_conv_nth)
    then have "map (\<lambda>e. (pe_height e, pe_key e)) pool ! k = map (\<lambda>e. (pe_height e, pe_key e)) pool ! i"
      using found same by (simp add: same_entry_iff)
    moreover have "distinct (map (\<lambda>e. (pe_height e, pe_key e)) pool)" using assms(1) by (simp add: pool_wf_def)
    ultimately have "k = i"
      using k(1) found nth_eq_iff_index_eq [of "map (\<lambda>e. (pe_height e, pe_key e)) pool" k i] by (simp only: length_map)
    with k show ?thesis by simp
  qed
  then have "w \<in> set (pe_votes (pool ! i)) \<longleftrightarrow> (\<exists>e \<in> set pool. same_entry e (entry_of v) \<and> w \<in> set (pe_votes e))" for w
    using found nth_mem by blast
  then show ?thesis using res found assms(1) by simp
qed

lemma add_vote:
  assumes "pool_wf entry_of pool" and "add_vote_in v pool (entry_of v) = (added, votes, pool')"
  shows "pool_wf entry_of pool' \<and> votes_sorted votes \<and> qv_index_in_group v \<in> vote_index ` set votes \<and>
    (\<forall>w \<in> set votes. same_entry (entry_of (pv_vote w)) (entry_of v)) \<and>
    (added \<longleftrightarrow> \<not> (\<exists>e \<in> set pool. same_entry e (entry_of v) \<and> qv_index_in_group v \<in> vote_index ` set (pe_votes e)))"
proof -
  obtain j p where fp: "find_vote_in_pool pool (entry_of v) True = (j, p)" by fastforce
  from find_create [OF assms(1) fp] obtain i where i: "j = Some i" "i < length p" "same_entry (p ! i) (entry_of v)"
    "pool_wf entry_of p" and
    mem: "\<And>w. w \<in> set (pe_votes (p ! i)) \<longleftrightarrow> (\<exists>e \<in> set pool. same_entry e (entry_of v) \<and> w \<in> set (pe_votes e))" by blast
  obtain a vs where av: "add_vote_to_pool_if_unique (pe_votes (p ! i)) v = (a, vs)" by fastforce
  have res: "added = a" "votes = vs" "pool' = update_entry_votes i (\<lambda>_. vs) p"
    using assms(2) by (auto simp: add_vote_in_def fp i(1) av)
  have srt: "votes_sorted (pe_votes (p ! i))" and own: "\<forall>w \<in> set (pe_votes (p ! i)). same_entry (p ! i) (entry_of (pv_vote w))"
    using i(2,4) by (auto simp: pool_wf_def)
  note add = add_vote_unique [OF srt av]
  have vs: "\<forall>w \<in> set vs. same_entry (p ! i) (entry_of (pv_vote w))"
    using own i(3) unfolding add(3) by (auto split: if_splits)
  have "pool_wf entry_of pool'" unfolding res by (rule wf_update [OF i(4,2)]) (use add(1) vs in simp_all)
  moreover have "qv_index_in_group v \<in> vote_index ` set vs" using add(2,3) by (cases a) auto
  moreover have "\<forall>w \<in> set vs. same_entry (entry_of (pv_vote w)) (entry_of v)"
    using vs i(3) by (simp add: same_entry_def)
  moreover have "a \<longleftrightarrow> \<not> (\<exists>e \<in> set pool. same_entry e (entry_of v) \<and> qv_index_in_group v \<in> vote_index ` set (pe_votes e))"
    unfolding add(2) using mem by blast
  ultimately show ?thesis using res add(1) by simp
qed

lemma relayed:
  assumes "pool_wf entry_of pool"
  shows "pool_wf entry_of (set_relayed_in now index pool (entry_of v))"
proof (cases "find_entry pool (entry_of v)")
  case None
  then show ?thesis using assms by (simp add: set_relayed_in_def find_vote_in_pool_def)
next
  case (Some i)
  have keep: "map pv_vote (mark_relayed index now vs) = map pv_vote vs" for vs by (induction vs) auto
  have idx: "map vote_index (mark_relayed index now vs) = map vote_index vs" for vs by (induction vs) auto
  have i: "i < length pool" using find_entry_Some [OF Some] by simp
  then have e: "votes_sorted (pe_votes (pool ! i))" "\<forall>v \<in> set (pe_votes (pool ! i)). same_entry (pool ! i) (entry_of (pv_vote v))"
    using assms by (auto simp: pool_wf_def)
  have "same_entry (pool ! i) (entry_of (pv_vote w))" if "w \<in> set (mark_relayed index now (pe_votes (pool ! i)))" for w
  proof -
    have "pv_vote w \<in> set (map pv_vote (mark_relayed index now (pe_votes (pool ! i))))" using that by simp
    then have "pv_vote w \<in> set (map pv_vote (pe_votes (pool ! i)))" by (simp only: keep)
    then show ?thesis using e(2) by auto
  qed
  then have "pool_wf entry_of (update_entry_votes i (mark_relayed index now) pool)"
    using e(1) by (intro wf_update [OF assms i]) (simp_all add: votes_sorted_def idx)
  with Some show ?thesis by (simp add: set_relayed_in_def find_vote_in_pool_def)
qed

end

interpretation obl: typed_pool obligations_entry_of
  by unfold_locales (simp_all add: obligations_entry_of_def)

interpretation chk: typed_pool checkpoint_entry_of
  by unfold_locales (simp_all add: checkpoint_entry_of_def)

section \<open>Reachable pools\<close>

definition empty_voting_pool :: voting_pool where
  "empty_voting_pool = \<lparr>m_obligations_pool = [], m_checkpoint_pool = []\<rparr>"

inductive pool_step :: "voting_pool \<Rightarrow> voting_pool \<Rightarrow> bool" where
  step_add: "pool_step p (snd (snd (add_pool_vote_if_unique vote vvc p)))"
| step_relayed: "pool_step p (set_relayed now votes p)"
| step_used: "pool_step p (remove_used_votes txs hf p)"
| step_expired: "pool_step p (remove_expired_votes height p)"

inductive pool_reachable :: "voting_pool \<Rightarrow> bool" where
  reach_empty: "pool_reachable empty_voting_pool"
| reach_step: "pool_reachable p \<Longrightarrow> pool_step p p' \<Longrightarrow> pool_reachable p'"

inductive_cases pool_stepE: "pool_step p p'"

definition voting_pool_wf :: "voting_pool \<Rightarrow> bool" where
  "voting_pool_wf p \<longleftrightarrow> pool_wf obligations_entry_of (m_obligations_pool p) \<and> pool_wf checkpoint_entry_of (m_checkpoint_pool p)"

lemma wf_add_pool_vote:
  assumes "voting_pool_wf p"
  shows "voting_pool_wf (snd (snd (add_pool_vote_if_unique vote vvc p)))"
proof (cases "qv_type vote")
  case obligations
  obtain a vs q where "add_vote_in vote (m_obligations_pool p) (obligations_entry_of vote) = (a, vs, q)"
    by (metis prod_cases3)
  with obl.add_vote [of "m_obligations_pool p" vote a vs q] obligations assms show ?thesis
    by (simp add: add_pool_vote_if_unique_def voting_pool_wf_def)
next
  case checkpointing
  obtain a vs q where "add_vote_in vote (m_checkpoint_pool p) (checkpoint_entry_of vote) = (a, vs, q)"
    by (metis prod_cases3)
  with chk.add_vote [of "m_checkpoint_pool p" vote a vs q] checkpointing assms show ?thesis
    by (simp add: add_pool_vote_if_unique_def voting_pool_wf_def)
qed (use assms in \<open>simp_all add: add_pool_vote_if_unique_def\<close>)

lemma wf_set_relayed: "voting_pool_wf p \<Longrightarrow> voting_pool_wf (set_relayed now votes p)"
  unfolding set_relayed_def
proof (induction votes arbitrary: p)
  case (Cons v votes)
  have "voting_pool_wf (set_relayed_vote now v p)"
    using Cons.prems
    by (cases "qv_type v") (simp_all add: set_relayed_vote_def voting_pool_wf_def obl.relayed chk.relayed)
  with Cons.IH show ?case by simp
qed simp

lemma wf_remove_used_tx:
  "pool_wf obligations_entry_of pool \<Longrightarrow> pool_wf obligations_entry_of (remove_used_votes_tx hf tx pool)"
  by (auto simp: remove_used_votes_tx_def obl.wf_remove split: option.splits)

lemma wf_remove_used: "voting_pool_wf p \<Longrightarrow> voting_pool_wf (remove_used_votes txs hf p)"
proof -
  have "pool_wf obligations_entry_of pool \<Longrightarrow> pool_wf obligations_entry_of (fold (remove_used_votes_tx hf) txs pool)" for pool
    by (induction txs arbitrary: pool) (simp_all add: wf_remove_used_tx)
  then show "voting_pool_wf p \<Longrightarrow> ?thesis" by (simp add: voting_pool_wf_def remove_used_votes_def)
qed

lemma wf_remove_expired: "voting_pool_wf p \<Longrightarrow> voting_pool_wf (remove_expired_votes height p)"
  by (simp add: voting_pool_wf_def remove_expired_votes_def Let_def cull_votes_def obl.wf_filter chk.wf_filter)

lemma reachable_pool_wf: "pool_reachable p \<Longrightarrow> voting_pool_wf p"
proof (induction rule: pool_reachable.induct)
  case reach_empty
  then show ?case by (simp add: empty_voting_pool_def voting_pool_wf_def obl.wf_empty chk.wf_empty)
next
  case (reach_step p p')
  from reach_step.hyps(2) reach_step.IH show ?case
    by (elim pool_stepE) (simp_all add: wf_add_pool_vote wf_set_relayed wf_remove_used wf_remove_expired)
qed



section \<open>The blob round trip\<close>

lemma vote_blob_parts:
  assumes "blob = vote_to_blob vote"
  shows "blob ! 0 = qv_version vote" "blob ! 1 = quorum_type_value (qv_type vote)"
    "blob_part blob 8 8 = le_bytes 8 (qv_block_height vote)" "blob ! 16 = quorum_group_value (qv_group vote)"
    "blob_part blob 18 2 = le_bytes 2 (qv_index_in_group vote)"
    "blob_part blob 20 64 = be_bytes 64 (qv_signature vote)"
    "qv_type vote = checkpointing \<Longrightarrow> blob_part blob 84 32 = be_bytes 32 (qv_block_hash vote)"
    "qv_type vote \<noteq> checkpointing \<Longrightarrow> blob_part blob 84 2 = le_bytes 2 (qv_worker_index vote)"
    "qv_type vote \<noteq> checkpointing \<Longrightarrow> blob_part blob 86 2 = le_bytes 2 (new_state_value (qv_state vote))"
  unfolding assms vote_to_blob_def blob_part_def by (simp_all add: nth_append)

text \<open>The enumerations of a vote hold the values with a name under that name.\<close>

definition named_values :: "quorum_vote_t \<Rightarrow> bool" where
  "named_values vote \<longleftrightarrow> quorum_type_of_value (quorum_type_value (qv_type vote)) = qv_type vote \<and>
     quorum_group_of_value (quorum_group_value (qv_group vote)) = qv_group vote \<and>
     new_state_of_value (new_state_value (qv_state vote)) = qv_state vote"

text \<open>
  reading back the blob of a vote gives the vote: every field, and of the union the member that
  the type of the vote selects; the blob always has 120 bytes.
\<close>

theorem vote_blob_round_trip:
  assumes "named_values vote"
  shows "length (vote_to_blob vote) = 120 \<and>
    blob_to_vote (vote_to_blob vote) old =
      (if qv_type vote = checkpointing
       then vote\<lparr>qv_worker_index := qv_worker_index old, qv_state := qv_state old\<rparr>
       else vote\<lparr>qv_block_hash := qv_block_hash old\<rparr>)"
proof
  show "length (vote_to_blob vote) = 120" by (simp add: vote_to_blob_def)
  note parts = vote_blob_parts [OF refl, of vote]
  have one: "quorum_type_of_value 1 = checkpointing" by (simp add: quorum_type_of_value_def)
  show "blob_to_vote (vote_to_blob vote) old =
      (if qv_type vote = checkpointing
       then vote\<lparr>qv_worker_index := qv_worker_index old, qv_state := qv_state old\<rparr>
       else vote\<lparr>qv_block_hash := qv_block_hash old\<rparr>)"
    using assms parts(7-9) unfolding blob_to_vote_def Let_def parts(1-6) named_values_def
    by (cases vote; cases old) (simp add: of_le_bytes_inverse of_be_bytes_inverse one)
qed

theorem vote_blob_round_trip_witness:
  "length (vote_to_blob (make_checkpointing_vote example_crypto 99 1000 2 example_keys)) = 120 \<and>
   blob_to_vote (vote_to_blob (make_checkpointing_vote example_crypto 99 1000 2 example_keys)) empty_vote =
     make_checkpointing_vote example_crypto 99 1000 2 example_keys"
  using vote_blob_round_trip [of "make_checkpointing_vote example_crypto 99 1000 2 example_keys" empty_vote]
  by (simp add: named_values_def make_checkpointing_vote_def empty_vote_def Let_def quorum_type_of_value_def
      quorum_group_of_value_def new_state_of_value_def)

section \<open>A defect\<close>

text \<open>
  \<^verbatim>\<open>received_checkpoint_vote\<close> looks only at the first pool entry of the height.  When validators
  have voted for two different hashes of the same height, it denies the vote of a validator that
  voted for the hash whose entry is not the first.
\<close>

theorem received_checkpoint_vote_misses_second_hash:
  fixes C :: crypto_ops and height :: u64 and my_keys :: service_node_keys
  assumes "hash1 \<noteq> hash2" and "i \<noteq> j"
  defines "vote1 \<equiv> make_checkpointing_vote C hash1 height i my_keys" and "vote2 \<equiv> make_checkpointing_vote C hash2 height j my_keys"
  defines "p1 \<equiv> snd (snd (add_pool_vote_if_unique vote1 clean_vvc empty_voting_pool))"
  defines "p2 \<equiv> snd (snd (add_pool_vote_if_unique vote2 clean_vvc p1))"
  shows "pool_reachable p2 \<and> (\<exists>e \<in> set (m_checkpoint_pool p2). \<exists>v \<in> set (pe_votes e). pv_vote v = vote2) \<and>
    \<not> received_checkpoint_vote height (unat j) p2"
proof -
  have "pool_reachable p2"
    unfolding p2_def p1_def by (intro reach_step [OF reach_step [OF reach_empty step_add] step_add])
  moreover have p1: "m_checkpoint_pool p1 = [\<lparr>pe_height = height, pe_key = hash1,
      pe_votes = [\<lparr>pv_vote = vote1, pv_time_last_sent_p2p = 0\<rparr>]\<rparr>]"
    by (simp add: p1_def vote1_def make_checkpointing_vote_def Let_def add_pool_vote_if_unique_def empty_voting_pool_def
        add_vote_in_def find_vote_in_pool_def find_entry_def checkpoint_entry_of_def add_vote_to_pool_if_unique_def
        update_entry_votes_def empty_vote_def)
  have "m_checkpoint_pool p2 = m_checkpoint_pool p1 @ [\<lparr>pe_height = height, pe_key = hash2,
      pe_votes = [\<lparr>pv_vote = vote2, pv_time_last_sent_p2p = 0\<rparr>]\<rparr>]"
    using assms(1) by (simp add: p1 p2_def vote2_def make_checkpointing_vote_def Let_def add_pool_vote_if_unique_def
        add_vote_in_def find_vote_in_pool_def find_entry_def checkpoint_entry_of_def add_vote_to_pool_if_unique_def
        update_entry_votes_def empty_vote_def same_entry_def)
  moreover have "unat (qv_index_in_group vote1) \<noteq> unat j"
    using assms(2) by (simp add: vote1_def make_checkpointing_vote_def Let_def word_unat_eq_iff [symmetric])
  ultimately show ?thesis by (simp add: p1 received_checkpoint_vote_def)
qed

theorem received_checkpoint_vote_misses_second_hash_witness:
  "\<not> received_checkpoint_vote 400 3
     (snd (snd (add_pool_vote_if_unique (make_checkpointing_vote example_crypto 8 400 3 example_keys) clean_vvc
       (snd (snd (add_pool_vote_if_unique (make_checkpointing_vote example_crypto 7 400 2 example_keys) clean_vvc
          empty_voting_pool))))))"
  using received_checkpoint_vote_misses_second_hash [of 7 8 2 3 example_crypto 400 example_keys] by simp

end
