(* ===== verification/Node_Info.thy ===== *)
theory Node_Info
  imports Chain_Types Staking_Rules Ordered_Map Outcome
begin

text \<open>
  The records a service node list is made of (\<^verbatim>\<open>src/src/cryptonote_core/service_node_list.h\<close>): the
  proof data of a node, its contributions and contributors, its registration info, and the
  state after a block; with the predicates and queries on them that change nothing.

  An entry of \<^verbatim>\<open>service_nodes_infos\<close> is a shared pointer to a constant info that a writer
  replaces by a changed copy (\<^verbatim>\<open>duplicate_info\<close>); states that share an info never see the change,
  so infos are values here.  \<^verbatim>\<open>active_since_height\<close> is a signed field: it is a word read with
  \<^term>\<open>sint\<close>.  The version fields of contributions, contributors and blacklist entries have a
  single value and are left out.  Every state belongs to a service node list, so the pointer \<^verbatim>\<open>sn_list\<close> is not null.
\<close>

section \<open>Proofs of uptime\<close>

definition INVALID_HEIGHT :: u64 where [const_defs]: "INVALID_HEIGHT = UINT64_MAX"

record checkpoint_vote_record =
  cvr_height :: u64
  cvr_voted :: bool

definition default_vote_record :: checkpoint_vote_record where
  "default_vote_record = \<lparr>cvr_height = INVALID_HEIGHT, cvr_voted = True\<rparr>"

record proof_info =
  pi_timestamp :: u64
  pi_effective_timestamp :: u64
  pi_votes :: "checkpoint_vote_record list"
  pi_vote_index :: u8
  pi_public_ips :: "(u32 \<times> u64) \<times> (u32 \<times> u64)"
  pi_storage_server_reachable :: bool
  pi_storage_server_reachable_timestamp :: u64
  pi_public_ip :: u32
  pi_storage_port :: u16
  pi_storage_lmq_port :: u16
  pi_quorumnet_port :: u16
  pi_version :: "u16 list"
  pi_pubkey_ed25519 :: ed25519_public_key
  pi_pubkey_x25519 :: x25519_public_key

definition empty_votes :: "checkpoint_vote_record list" where
  "empty_votes = replicate CHECKPOINT_NUM_QUORUMS_TO_PARTICIPATE_IN default_vote_record"

definition default_proof :: proof_info where
  "default_proof = \<lparr>pi_timestamp = 0, pi_effective_timestamp = 0, pi_votes = empty_votes,
     pi_vote_index = 0, pi_public_ips = ((0, 0), (0, 0)), pi_storage_server_reachable = True,
     pi_storage_server_reachable_timestamp = 0, pi_public_ip = 0, pi_storage_port = 0,
     pi_storage_lmq_port = 0, pi_quorumnet_port = 0, pi_version = [0, 0, 0],
     pi_pubkey_ed25519 = 0, pi_pubkey_x25519 = 0\<rparr>"

text \<open>The map of proofs; \<^verbatim>\<open>proofs[key]\<close> creates a default entry when there is none.\<close>

type_synonym proof_map = "(public_key \<times> proof_info) list"

definition proof_at :: "proof_map \<Rightarrow> public_key \<Rightarrow> proof_info" where
  "proof_at proofs key = (case map_of proofs key of None \<Rightarrow> default_proof | Some p \<Rightarrow> p)"

definition update_proof :: "public_key \<Rightarrow> (proof_info \<Rightarrow> proof_info) \<Rightarrow> proof_map \<Rightarrow> proof_map" where
  "update_proof key f proofs = um_assign_key key (f (proof_at proofs key)) proofs"

section \<open>Registration info\<close>

datatype info_version =
    v0_checkpointing | v1_add_registration_hf_version | v2_ed25519 | v3_quorumnet | v4_noproofs

record contribution_t =
  cn_key_image_pub_key :: public_key
  cn_key_image :: key_image
  cn_amount :: u64

record contributor_t =
  ct_amount :: u64
  ct_reserved :: u64
  ct_address :: account_public_address
  ct_locked_contributions :: "contribution_t list"

record service_node_info =
  registration_height :: u64
  requested_unlock_height :: u64
  last_reward_block_height :: u64
  last_reward_transaction_index :: u32
  decommission_count :: u32
  active_since_height :: i64
  last_decommission_height :: u64
  contributors :: "contributor_t list"
  total_contributed :: u64
  total_reserved :: u64
  staking_requirement :: u64
  portions_for_operator :: u64
  sni_swarm_id :: swarm_id_t
  operator_address :: account_public_address
  last_ip_change_height :: u64
  sni_version :: info_version
  registration_hf_version :: u8

definition null_address :: account_public_address where
  "null_address = \<lparr>m_spend_public_key = 0, m_view_public_key = 0\<rparr>"

definition default_info :: service_node_info where
  "default_info = \<lparr>registration_height = 0, requested_unlock_height = 0, last_reward_block_height = 0,
     last_reward_transaction_index = 0, decommission_count = 0, active_since_height = 0,
     last_decommission_height = 0, contributors = [], total_contributed = 0, total_reserved = 0,
     staking_requirement = 0, portions_for_operator = 0, sni_swarm_id = 0,
     operator_address = null_address, last_ip_change_height = 0, sni_version = v4_noproofs,
     registration_hf_version = 0\<rparr>"

definition default_contributor :: contributor_t where
  "default_contributor = \<lparr>ct_amount = 0, ct_reserved = 0, ct_address = null_address,
     ct_locked_contributions = []\<rparr>"

definition is_fully_funded :: "service_node_info \<Rightarrow> bool" where
  "is_fully_funded info = (staking_requirement info \<le> total_contributed info)"

definition is_decommissioned :: "service_node_info \<Rightarrow> bool" where
  "is_decommissioned info = (sint (active_since_height info) < 0)"

definition is_active :: "service_node_info \<Rightarrow> bool" where
  "is_active info = (is_fully_funded info \<and> \<not> is_decommissioned info)"

definition total_num_locked_contributions :: "service_node_info \<Rightarrow> nat" where
  "total_num_locked_contributions info =
     sum_list (map (\<lambda>c. length (ct_locked_contributions c)) (contributors info))"

definition can_be_voted_on :: "service_node_info \<Rightarrow> u64 \<Rightarrow> bool" where
  "can_be_voted_on info height =
     (if \<not> is_fully_funded info \<or> height \<le> registration_height info then False
      else if is_decommissioned info \<and> height \<le> last_decommission_height info then False
      else if is_active info \<and> height \<le> active_since_height info then False
      else True)"

definition can_transition_to_state :: "service_node_info \<Rightarrow> u8 \<Rightarrow> u64 \<Rightarrow> new_state \<Rightarrow> bool" where
  "can_transition_to_state info hf_version height proposed_state =
     (if network_version_13_enforce_checkpoints \<le> hf_version
      then
        if \<not> can_be_voted_on info height then False
        else if proposed_state = deregister \<and> height \<le> registration_height info then False
        else if proposed_state = ip_change_penalty \<and> height \<le> last_ip_change_height info then False
        else if is_decommissioned info
             then proposed_state \<noteq> decommission \<and> proposed_state \<noteq> ip_change_penalty
             else proposed_state \<noteq> recommission
      else
        if proposed_state = deregister \<and> height < registration_height info then False
        else if is_decommissioned info
             then proposed_state \<noteq> decommission \<and> proposed_state \<noteq> ip_change_penalty
             else proposed_state \<noteq> recommission)"

definition get_min_service_node_info_version_for_hf :: "u8 \<Rightarrow> info_version" where
  "get_min_service_node_info_version_for_hf hf_version =
     (if hf_version < network_version_14_blink then v2_ed25519 else v3_quorumnet)"

section \<open>States\<close>

record key_image_blacklist_entry =
  kb_key_image :: key_image
  kb_unlock_height :: u64
  kb_amount :: u64

type_synonym service_nodes_infos_t = "(public_key \<times> service_node_info) list"

record state_t =
  st_only_loaded_quorums :: bool
  st_height :: u64
  st_service_nodes_infos :: service_nodes_infos_t
  st_key_image_blacklist :: "key_image_blacklist_entry list"
  st_quorums :: quorum_manager
  st_block_hash :: hash256

definition initial_state :: state_t where
  "initial_state = \<lparr>st_only_loaded_quorums = False, st_height = 0, st_service_nodes_infos = [],
     st_key_image_blacklist = [], st_quorums = empty_quorums, st_block_hash = null_hash\<rparr>"

abbreviation infos_of :: "state_t \<Rightarrow> service_nodes_infos_t" where
  "infos_of st \<equiv> st_service_nodes_infos st"

text \<open>A set of states ordered by height.\<close>

type_synonym state_set = "state_t list"

definition find_state :: "u64 \<Rightarrow> state_set \<Rightarrow> state_t option" where
  "find_state height states = find (\<lambda>s. st_height s = height) states"

text \<open>
  The entries are compared as raw memory, which begins with the public key; keys are distinct,
  so the order is that of the keys.
\<close>

definition sort_and_filter ::
    "(service_node_info \<Rightarrow> bool) \<Rightarrow> service_nodes_infos_t \<Rightarrow> service_nodes_infos_t" where
  "sort_and_filter p infos = sort_key fst (filter (\<lambda>(k, info). p info) infos)"

definition active_service_nodes_infos :: "state_t \<Rightarrow> service_nodes_infos_t" where
  "active_service_nodes_infos st = sort_and_filter is_active (infos_of st)"

definition decommissioned_service_nodes_infos :: "state_t \<Rightarrow> service_nodes_infos_t" where
  "decommissioned_service_nodes_infos st =
     sort_and_filter (\<lambda>info. is_decommissioned info \<and> is_fully_funded info) (infos_of st)"

definition get_pubkey_from_quorum :: "quorum \<Rightarrow> quorum_group \<Rightarrow> nat \<Rightarrow> public_key option" where
  "get_pubkey_from_quorum q grp quorum_index =
     (case grp of
        group_validator \<Rightarrow> if length (validators q) \<le> quorum_index then None
                           else Some (validators q ! quorum_index)
      | group_worker \<Rightarrow> if length (workers q) \<le> quorum_index then None
                        else Some (workers q ! quorum_index)
      | _ \<Rightarrow> None)"

definition is_service_node :: "state_t \<Rightarrow> public_key \<Rightarrow> bool \<Rightarrow> bool" where
  "is_service_node st pubkey require_active =
     (case map_of (infos_of st) pubkey of
        None \<Rightarrow> False
      | Some info \<Rightarrow> \<not> require_active \<or> is_active info)"

definition get_service_node_list_state ::
    "state_t \<Rightarrow> public_key list \<Rightarrow> service_nodes_infos_t" where
  "get_service_node_list_state st service_node_pubkeys =
     (if service_node_pubkeys = [] then infos_of st
      else List.map_filter (\<lambda>k. map_option (Pair k) (map_of (infos_of st) k)) service_node_pubkeys)"

text \<open>
  The first locked contribution with the key image, in the order of the nodes, with the unlock
  height of its node.
\<close>

definition is_key_image_locked :: "state_t \<Rightarrow> key_image \<Rightarrow> (u64 \<times> contribution_t) option" where
  "is_key_image_locked st check_image =
     (case filter (\<lambda>(h, cn). cn_key_image cn = check_image)
             (concat (map (\<lambda>(k, info). map (Pair (requested_unlock_height info))
                        (concat (map ct_locked_contributions (contributors info)))) (infos_of st))) of
        [] \<Rightarrow> None
      | e # _ \<Rightarrow> Some e)"

definition offset_testing_quorum_height :: "quorum_type \<Rightarrow> u64 \<Rightarrow> u64" where
  "offset_testing_quorum_height type height =
     (if type = checkpointing
      then if height < REORG_SAFETY_BUFFER_BLOCKS_POST_HF12 then 0
           else height - REORG_SAFETY_BUFFER_BLOCKS_POST_HF12
      else height)"

end
