(* ===== verification/Registration.thy ===== *)
theory Registration
  imports Node_Info
begin

text \<open>
  Registrations and contributions: \<^verbatim>\<open>get_registration_hash\<close> of
  \<^verbatim>\<open>src/src/cryptonote_basic/cryptonote_format_utils.cpp\<close> and \<^verbatim>\<open>get_contribution\<close>,
  \<^verbatim>\<open>is_registration_tx\<close>, \<^verbatim>\<open>process_registration_tx\<close> and \<^verbatim>\<open>process_contribution_tx\<close> of
  \<^verbatim>\<open>src/src/cryptonote_core/service_node_list.cpp\<close>.  Log messages are left out; storing a proof in
  the database is left out, since the map of proofs holds the same value.

  The lemmas show the stake accounting of a node: what is reserved never exceeds the staking
  requirement, what is contributed never exceeds what is reserved, the totals are the sums over
  the contributors, and from hard fork 11 on every credited amount is backed by locked outputs.
\<close>

section \<open>Definitions\<close>

text \<open>What the code reads of its surroundings: primitives, the decay of the requirement, the network.\<close>

record chain_env =
  env_crypto :: crypto_ops
  env_exp2_share :: "u64 \<Rightarrow> u64 \<Rightarrow> u64"
  env_nettype :: network_type

fun portions_fit :: "u64 \<Rightarrow> u64 list \<Rightarrow> bool" where
  "portions_fit portions_left [] = True"
| "portions_fit portions_left (portion # portions) =
     (if portions_left < portion then False else portions_fit (portions_left - portion) portions)"

definition get_registration_hash ::
    "crypto_ops \<Rightarrow> account_public_address list \<Rightarrow> u64 \<Rightarrow> u64 list \<Rightarrow> u64 \<Rightarrow> hash256 option" where
  "get_registration_hash C addresses operator_portions portions expiration_timestamp =
     (if length addresses \<noteq> length portions then None
      else if \<not> portions_fit STAKING_PORTIONS portions then None
      else Some (cn_fast_hash C
             (le_bytes 8 operator_portions @
              concat (map (\<lambda>(a, p). address_bytes a @ le_bytes 8 p) (zip addresses portions)) @
              le_bytes 8 expiration_timestamp)))"

record registration_fields =
  rf_addresses :: "account_public_address list"
  rf_portions_for_operator :: u64
  rf_portions :: "u64 list"
  rf_expiration_timestamp :: u64
  rf_service_node_key :: public_key
  rf_signature :: signature

definition reg_tx_extract_fields :: "transaction \<Rightarrow> registration_fields option" where
  "reg_tx_extract_fields tx =
     (case get_service_node_register_from_tx_extra (tx_extra tx) of
        None \<Rightarrow> None
      | Some r \<Rightarrow>
          (case get_service_node_pubkey_from_tx_extra (tx_extra tx) of
             None \<Rightarrow> None
           | Some key \<Rightarrow> Some
               \<lparr>rf_addresses = map (\<lambda>(s, v). \<lparr>m_spend_public_key = s, m_view_public_key = v\<rparr>)
                  (zip (m_public_spend_keys r) (m_public_view_keys r)),
                rf_portions_for_operator = m_portions_for_operator r,
                rf_portions = m_portions r,
                rf_expiration_timestamp = m_expiration_timestamp r,
                rf_service_node_key = key,
                rf_signature = m_service_node_signature r\<rparr>))"

record parsed_tx_contribution =
  ptc_address :: account_public_address
  ptc_transferred :: u64
  ptc_tx_key :: secret_key
  ptc_locked_contributions :: "contribution_t list"

definition get_tx_output_amount :: "crypto_ops \<Rightarrow> transaction \<Rightarrow> nat \<Rightarrow> key_derivation \<Rightarrow> u64" where
  "get_tx_output_amount C tx i derivation =
     (case out_target (tx_vout tx ! i) of
        txout_sispop_tagged_key k \<Rightarrow>
          (let scalar1 = derivation_to_scalar C derivation i;
               sig = tx_rct_signatures tx;
               decoded = (if rct_type sig \<in> {RCTTypeSimple, RCTTypeBulletproof, RCTTypeBulletproof2}
                          then decode_rct_simple C sig scalar1 i
                          else if rct_type sig = RCTTypeFull then decode_rct C sig scalar1 i
                          else None)
           in case decoded of None \<Rightarrow> 0 | Some money_transferred \<Rightarrow> money_transferred)
      | _ \<Rightarrow> 0)"

text \<open>The first proof whose ring signature is good, and the proofs without it.\<close>

fun take_key_image_proof ::
    "crypto_ops \<Rightarrow> public_key \<Rightarrow> key_image_proof list \<Rightarrow> (key_image_proof \<times> key_image_proof list) option" where
  "take_key_image_proof C ephemeral_pub_key [] = None"
| "take_key_image_proof C ephemeral_pub_key (p # ps) =
     (if check_ring_signature C (kip_key_image p) (kip_key_image p) [ephemeral_pub_key] (kip_signature p)
      then Some (p, ps)
      else map_option (\<lambda>(q, rest). (q, p # rest)) (take_key_image_proof C ephemeral_pub_key ps))"

text \<open>One output of a staking transaction: the remaining proofs and the contribution so far.\<close>

definition lock_output ::
    "crypto_ops \<Rightarrow> transaction \<Rightarrow> key_derivation \<Rightarrow> nat \<Rightarrow> key_image_proof list \<times> parsed_tx_contribution \<Rightarrow>
       key_image_proof list \<times> parsed_tx_contribution" where
  "lock_output C tx derivation output_index acc =
     (let (proofs, parsed) = acc;
          transferred = get_tx_output_amount C tx output_index derivation
      in if transferred = 0 then acc
         else
           case derive_public_key C derivation output_index (m_spend_public_key (ptc_address parsed)) of
             None \<Rightarrow> acc
           | Some ephemeral_pub_key \<Rightarrow>
               if out_target (tx_vout tx ! output_index) \<noteq> txout_sispop_tagged_key ephemeral_pub_key
               then acc
               else
                 case take_key_image_proof C ephemeral_pub_key proofs of
                   None \<Rightarrow> acc
                 | Some (p, rest) \<Rightarrow>
                     (rest, parsed\<lparr>ptc_locked_contributions := ptc_locked_contributions parsed @
                              [\<lparr>cn_key_image_pub_key = ephemeral_pub_key, cn_key_image = kip_key_image p,
                                cn_amount = transferred\<rparr>],
                            ptc_transferred := ptc_transferred parsed + transferred\<rparr>))"

definition time_locked_amount ::
    "crypto_ops \<Rightarrow> network_type \<Rightarrow> u64 \<Rightarrow> transaction \<Rightarrow> key_derivation \<Rightarrow> nat \<Rightarrow> u64 \<Rightarrow> u64" where
  "time_locked_amount C nettype block_height tx derivation i transferred =
     (let unlock_time = (if v3_per_output_unlock_times \<le> tx_version tx
                         then tx_output_unlock_times tx ! i else tx_unlock_time tx);
          min_height = block_height + staking_num_lock_blocks nettype
      in if unlock_time < CRYPTONOTE_MAX_BLOCK_NUMBER \<and> min_height \<le> unlock_time
         then transferred + get_tx_output_amount C tx i derivation
         else transferred)"

definition get_contribution ::
    "crypto_ops \<Rightarrow> network_type \<Rightarrow> u8 \<Rightarrow> transaction \<Rightarrow> u64 \<Rightarrow> parsed_tx_contribution option" where
  "get_contribution C nettype hf_version tx block_height =
     (case get_service_node_contributor_from_tx_extra (tx_extra tx) of
        None \<Rightarrow> None
      | Some address \<Rightarrow>
      case get_tx_secret_key_from_tx_extra (tx_extra tx) of
        None \<Rightarrow> None
      | Some tx_key \<Rightarrow>
      case generate_key_derivation C (m_view_public_key address) tx_key of
        None \<Rightarrow> None
      | Some derivation \<Rightarrow>
          let parsed = \<lparr>ptc_address = address, ptc_transferred = 0, ptc_tx_key = tx_key,
                        ptc_locked_contributions = []\<rparr>;
              outputs = [0 ..< length (tx_vout tx)]
          in if network_version_11_infinite_staking \<le> hf_version
             then
               case get_tx_key_image_proofs_from_tx_extra (tx_extra tx) of
                 None \<Rightarrow> None
               | Some proofs \<Rightarrow> Some (snd (fold (lock_output C tx derivation) outputs (proofs, parsed)))
             else Some (parsed\<lparr>ptc_transferred :=
                    fold (time_locked_amount C nettype block_height tx derivation) outputs 0\<rparr>))"

text \<open>The loop over the participants of a registration; \<open>seen\<close> are the addresses before the current one.\<close>

fun reserve_contributors ::
    "account_public_address list \<Rightarrow> (account_public_address \<times> u64) list \<Rightarrow> service_node_info \<Rightarrow>
       service_node_info option" where
  "reserve_contributors seen [] info = Some info"
| "reserve_contributors seen ((address, portion) # rest) info =
     (if address \<in> set seen then None
      else
        let amount = portions_to_amount portion (staking_requirement info);
            contributor = default_contributor\<lparr>ct_reserved := amount, ct_address := address\<rparr>
        in reserve_contributors (seen @ [address]) rest
             (info\<lparr>contributors := contributors info @ [contributor],
                   total_reserved := total_reserved info + amount\<rparr>))"

definition is_registration_tx ::
    "chain_env \<Rightarrow> u8 \<Rightarrow> transaction \<Rightarrow> u64 \<Rightarrow> u64 \<Rightarrow> u32 \<Rightarrow> service_node_info \<Rightarrow>
       (public_key \<times> service_node_info) option" where
  "is_registration_tx E hf_version tx block_timestamp block_height index info =
     (case reg_tx_extract_fields tx of
        None \<Rightarrow> None
      | Some r \<Rightarrow>
          if length (rf_portions r) \<noteq> length (rf_addresses r) \<or> rf_portions r = [] then None
          else if \<not> check_service_node_portions hf_version (rf_portions r) then None
          else if STAKING_PORTIONS < rf_portions_for_operator r then None
          else
            case get_registration_hash (env_crypto E) (rf_addresses r) (rf_portions_for_operator r)
                   (rf_portions r) (rf_expiration_timestamp r) of
              None \<Rightarrow> None
            | Some hash \<Rightarrow>
                if \<not> check_key (env_crypto E) (rf_service_node_key r) \<or>
                   \<not> check_signature (env_crypto E) hash (rf_service_node_key r) (rf_signature r)
                then None
                else if rf_expiration_timestamp r < block_timestamp then None
                else
                  let requirement = get_staking_requirement (env_exp2_share E) (env_nettype E)
                                      block_height hf_version
                  in case get_contribution (env_crypto E) (env_nettype E) hf_version tx block_height of
                       None \<Rightarrow> None
                     | Some parsed \<Rightarrow>
                         if ptc_transferred parsed <
                              get_min_node_contribution hf_version requirement (total_reserved info)
                                (total_num_locked_contributions info)
                         then None
                         else if MAX_NUMBER_OF_CONTRIBUTORS <
                              (if ptc_address parsed \<in> set (rf_addresses r) then length (rf_addresses r)
                               else length (rf_addresses r) + 1)
                         then None
                         else map_option (Pair (rf_service_node_key r))
                           (reserve_contributors [] (zip (rf_addresses r) (rf_portions r))
                              (info\<lparr>staking_requirement := requirement,
                                    operator_address := hd (rf_addresses r),
                                    portions_for_operator := rf_portions_for_operator r,
                                    registration_height := block_height,
                                    registration_hf_version := hf_version,
                                    last_reward_block_height := block_height,
                                    last_reward_transaction_index := index,
                                    sni_swarm_id := UNASSIGNED_SWARM_ID,
                                    last_ip_change_height := block_height,
                                    sni_version := get_min_service_node_info_version_for_hf hf_version\<rparr>)))"

definition process_registration_tx ::
    "chain_env \<Rightarrow> bool \<Rightarrow> block \<Rightarrow> transaction \<Rightarrow> u32 \<Rightarrow> proof_map \<times> state_t \<Rightarrow> bool \<times> proof_map \<times> state_t" where
  "process_registration_tx E rescanning blk tx index ps =
     (let (proofs, st) = ps;
          hf_version = blk_major_version blk;
          block_height = get_block_height blk
      in case is_registration_tx E hf_version tx (blk_timestamp blk) block_height index default_info of
           None \<Rightarrow> (False, ps)
         | Some (key, info) \<Rightarrow>
             if network_version_11_infinite_staking \<le> hf_version
             then
               if map_of (infos_of st) key \<noteq> None then (False, ps)
               else (True, if rescanning then proofs else update_proof key (\<lambda>_. default_proof) proofs,
                     st\<lparr>st_service_nodes_infos := um_assign_key key info (infos_of st)\<rparr>)
             else
               case map_of (infos_of st) key of
                 None \<Rightarrow> (True, proofs, st\<lparr>st_service_nodes_infos := um_assign_key key info (infos_of st)\<rparr>)
               | Some old_info \<Rightarrow>
                   if network_version_10_bulletproofs \<le> hf_version
                   then
                     let expiry_height = registration_height old_info +
                                         staking_num_lock_blocks (env_nettype E)
                     in if block_height < expiry_height then (False, ps)
                        else (True, proofs, st\<lparr>st_service_nodes_infos := um_assign_key key
                               (info\<lparr>last_reward_block_height := last_reward_block_height old_info,
                                     last_reward_transaction_index := last_reward_transaction_index old_info\<rparr>)
                               (infos_of st)\<rparr>)
                   else (False, ps))"

text \<open>The contributor with the address, or the position after the last one.\<close>

definition contributor_position :: "account_public_address \<Rightarrow> contributor_t list \<Rightarrow> nat" where
  "contributor_position address cs = length (takeWhile (\<lambda>c. ct_address c \<noteq> address) cs)"

definition with_contributor :: "account_public_address \<Rightarrow> contributor_t list \<Rightarrow> contributor_t list" where
  "with_contributor address cs =
     (if contributor_position address cs = length cs
      then cs @ [default_contributor\<lparr>ct_address := address\<rparr>] else cs)"

definition activate_if_funded :: "u64 \<Rightarrow> service_node_info \<Rightarrow> service_node_info" where
  "activate_if_funded block_height info =
     (if is_fully_funded info then info\<lparr>active_since_height := block_height\<rparr> else info)"

definition add_contribution ::
    "u8 \<Rightarrow> u64 \<Rightarrow> u32 \<Rightarrow> parsed_tx_contribution \<Rightarrow> service_node_info \<Rightarrow> service_node_info" where
  "add_contribution hf_version block_height index parsed info =
     (let position = contributor_position (ptc_address parsed) (contributors info);
          cs = with_contributor (ptc_address parsed) (contributors info);
          contributor = cs ! position;
          can_increase_reserved_by = staking_requirement info - total_reserved info;
          max_amount = ct_reserved contributor + can_increase_reserved_by;
          transferred = min (max_amount - ct_amount contributor) (ptc_transferred parsed);
          amount = ct_amount contributor + transferred;
          total_reserved' = (if ct_reserved contributor < amount
                             then total_reserved info + (amount - ct_reserved contributor)
                             else total_reserved info);
          reserved' = (if ct_reserved contributor < amount then amount else ct_reserved contributor);
          locked' = (if network_version_11_infinite_staking \<le> hf_version
                     then ct_locked_contributions contributor @ ptc_locked_contributions parsed
                     else ct_locked_contributions contributor);
          contributor' = contributor\<lparr>ct_amount := amount, ct_reserved := reserved',
                                      ct_locked_contributions := locked'\<rparr>
      in activate_if_funded block_height
           (info\<lparr>contributors := cs[position := contributor'],
                 total_contributed := total_contributed info + transferred,
                 total_reserved := total_reserved',
                 last_reward_block_height := block_height,
                 last_reward_transaction_index := index\<rparr>))"

definition process_contribution_tx ::
    "chain_env \<Rightarrow> block \<Rightarrow> transaction \<Rightarrow> u32 \<Rightarrow> state_t \<Rightarrow> bool \<times> state_t" where
  "process_contribution_tx E blk tx index st =
     (let block_height = get_block_height blk; hf_version = blk_major_version blk
      in case get_service_node_pubkey_from_tx_extra (tx_extra tx) of
           None \<Rightarrow> (False, st)
         | Some pubkey \<Rightarrow>
         case get_contribution (env_crypto E) (env_nettype E) hf_version tx block_height of
           None \<Rightarrow> (False, st)
         | Some parsed \<Rightarrow>
         case map_of (infos_of st) pubkey of
           None \<Rightarrow> (False, st)
         | Some curinfo \<Rightarrow>
             if is_fully_funded curinfo then (False, st)
             else if get_tx_secret_key_from_tx_extra (tx_extra tx) = None then (False, st)
             else
               let new_contributor = (contributor_position (ptc_address parsed) (contributors curinfo) =
                                      length (contributors curinfo));
                   too_many_contributions =
                     (if network_version_11_infinite_staking \<le> hf_version
                      then MAX_NUMBER_OF_CONTRIBUTORS <
                             total_num_locked_contributions curinfo + length (ptc_locked_contributions parsed)
                      else new_contributor \<and> MAX_NUMBER_OF_CONTRIBUTORS \<le> length (contributors curinfo));
                   min_contribution =
                     (if \<not> new_contributor \<and> hf_version < network_version_11_infinite_staking then 1
                      else get_min_node_contribution hf_version (staking_requirement curinfo)
                             (total_reserved curinfo) (total_num_locked_contributions curinfo))
               in if too_many_contributions then (False, st)
                  else if ptc_transferred parsed < min_contribution then (False, st)
                  else
                    let info = add_contribution hf_version block_height index parsed curinfo
                    in (is_fully_funded info,
                        st\<lparr>st_service_nodes_infos := modify_key pubkey (\<lambda>_. info) (infos_of st)\<rparr>))"

section \<open>Stake accounting\<close>

text \<open>
  The reserved amounts of a node add up to its total, which is within the requirement; the
  credited amounts add up to theirs and are within what is reserved; nobody is listed twice, and
  there are at most four locked contributions.
\<close>

definition stake_ok :: "service_node_info \<Rightarrow> bool" where
  "stake_ok info \<longleftrightarrow>
     sum_list (map (\<lambda>c. unat (ct_reserved c)) (contributors info)) = unat (total_reserved info) \<and>
     sum_list (map (\<lambda>c. unat (ct_amount c)) (contributors info)) = unat (total_contributed info) \<and>
     (\<forall>c \<in> set (contributors info). ct_amount c \<le> ct_reserved c) \<and>
     total_reserved info \<le> staking_requirement info \<and>
     distinct (map ct_address (contributors info)) \<and>
     total_num_locked_contributions info \<le> MAX_NUMBER_OF_CONTRIBUTORS"

text \<open>What a contributor of a node of the infinite staking era is credited is locked on the chain.\<close>

definition stake_backed :: "service_node_info \<Rightarrow> bool" where
  "stake_backed info \<longleftrightarrow>
     (network_version_11_infinite_staking \<le> registration_hf_version info \<longrightarrow>
      (\<forall>c \<in> set (contributors info).
         unat (ct_amount c) \<le> sum_list (map (\<lambda>cn. unat (cn_amount cn)) (ct_locked_contributions c))))"

definition staking_state_ok :: "state_t \<Rightarrow> bool" where
  "staking_state_ok st \<longleftrightarrow>
     um_wf (infos_of st) \<and> (\<forall>(k, info) \<in> set (infos_of st). stake_ok info \<and> stake_backed info)"

lemma portions_fit_iff: "portions_fit left ps \<longleftrightarrow> sum_list (map unat ps) \<le> unat left"
  by (induction left ps rule: portions_fit.induct)
     (auto simp: word_less_nat_alt unat_sub_no_wrap not_less)

definition reserved_contributor :: "u64 \<Rightarrow> account_public_address \<times> u64 \<Rightarrow> contributor_t" where
  "reserved_contributor req ap =
     default_contributor\<lparr>ct_reserved := portions_to_amount (snd ap) req, ct_address := fst ap\<rparr>"

lemma reserve_contributors_eq:
  "reserve_contributors seen aps info =
     (if distinct (map fst aps) \<and> set seen \<inter> fst ` set aps = {}
      then Some (info\<lparr>contributors := contributors info @ map (reserved_contributor (staking_requirement info)) aps,
                      total_reserved := total_reserved info +
                        sum_list (map (\<lambda>ap. portions_to_amount (snd ap) (staking_requirement info)) aps)\<rparr>)
      else None)"
proof (induction seen aps info rule: reserve_contributors.induct)
  case (1 seen info)
  then show ?case by simp
next
  case (2 seen address portion rest info)
  show ?case
  proof (cases "address \<in> set seen")
    case True
    then show ?thesis by simp
  next
    case False
    then show ?thesis
      using 2 [OF False refl refl]
      by (auto simp: reserved_contributor_def algebra_simps Let_def)
  qed
qed

lemma sum_portions_to_amount:
  assumes "sum_list (map unat ps) \<le> unat STAKING_PORTIONS"
  shows "sum_list (map (\<lambda>p. unat (portions_to_amount p req)) ps) \<le>
           unat req * sum_list (map unat ps) div unat STAKING_PORTIONS"
  using assms
proof (induction ps)
  case Nil
  then show ?case by simp
next
  case (Cons p ps)
  let ?S = "unat STAKING_PORTIONS"
  have p: "unat p \<le> ?S" and ps: "sum_list (map unat ps) \<le> ?S" using Cons.prems by simp_all
  have "sum_list (map (\<lambda>p. unat (portions_to_amount p req)) (p # ps)) \<le>
          unat req * unat p div ?S + unat req * sum_list (map unat ps) div ?S"
    using Cons.IH [OF ps] portions_to_amount_exact [OF p, of req] by simp
  also have "\<dots> \<le> (unat req * unat p + unat req * sum_list (map unat ps)) div ?S"
    by (metis div_add1_eq le_add1)
  finally show ?case by (simp add: algebra_simps)
qed

lemma sum_portions_within:
  assumes "sum_list (map unat ps) \<le> unat STAKING_PORTIONS"
  shows "sum_list (map (\<lambda>p. unat (portions_to_amount p req)) ps) \<le> unat req"
proof -
  have "unat req * sum_list (map unat ps) div unat STAKING_PORTIONS \<le>
          unat req * unat STAKING_PORTIONS div unat STAKING_PORTIONS"
    using assms by (intro div_le_mono mult_le_mono2)
  also have "\<dots> = unat req" by (simp add: unat_STAKING_PORTIONS)
  finally show ?thesis using sum_portions_to_amount [OF assms, of req] by simp
qed

lemma unat_sum_list:
  fixes xs :: "u64 list"
  assumes "sum_list (map unat xs) < 2 ^ 64"
  shows "unat (sum_list xs) = sum_list (map unat xs)"
  using assms
proof (induction xs)
  case (Cons x xs)
  then have "unat (sum_list xs) = sum_list (map unat xs)" by simp
  with Cons.prems show ?case by (simp add: unat_add_no_wrap)
qed simp

lemma is_registration_txE:
  assumes "is_registration_tx E hf tx ts h idx info0 = Some (key, info)"
  obtains r hash parsed where
    "reg_tx_extract_fields tx = Some r" "key = rf_service_node_key r"
    "length (rf_portions r) = length (rf_addresses r)" "rf_portions r \<noteq> []"
    "check_service_node_portions hf (rf_portions r)"
    "rf_portions_for_operator r \<le> STAKING_PORTIONS"
    "get_registration_hash (env_crypto E) (rf_addresses r) (rf_portions_for_operator r)
       (rf_portions r) (rf_expiration_timestamp r) = Some hash"
    "check_key (env_crypto E) key" "check_signature (env_crypto E) hash key (rf_signature r)"
    "ts \<le> rf_expiration_timestamp r"
    "get_contribution (env_crypto E) (env_nettype E) hf tx h = Some parsed"
    "get_min_node_contribution hf
       (get_staking_requirement (env_exp2_share E) (env_nettype E) h hf) (total_reserved info0)
       (total_num_locked_contributions info0) \<le> ptc_transferred parsed"
    "length (rf_addresses r) \<le> MAX_NUMBER_OF_CONTRIBUTORS"
    "reserve_contributors [] (zip (rf_addresses r) (rf_portions r))
       (info0\<lparr>staking_requirement := get_staking_requirement (env_exp2_share E) (env_nettype E) h hf,
             operator_address := hd (rf_addresses r),
             portions_for_operator := rf_portions_for_operator r,
             registration_height := h, registration_hf_version := hf,
             last_reward_block_height := h, last_reward_transaction_index := idx,
             sni_swarm_id := UNASSIGNED_SWARM_ID, last_ip_change_height := h,
             sni_version := get_min_service_node_info_version_for_hf hf\<rparr>) = Some info"
  using assms unfolding is_registration_tx_def
  by (auto simp: Let_def not_less split: option.splits if_splits)

text \<open>The node a registration creates: the fields it sets, and a reservation for each participant.\<close>

definition registered_info ::
    "u8 \<Rightarrow> u64 \<Rightarrow> u32 \<Rightarrow> u64 \<Rightarrow> registration_fields \<Rightarrow> service_node_info" where
  "registered_info hf h idx req r = default_info\<lparr>
     staking_requirement := req, operator_address := hd (rf_addresses r),
     portions_for_operator := rf_portions_for_operator r,
     registration_height := h, registration_hf_version := hf,
     last_reward_block_height := h, last_reward_transaction_index := idx,
     sni_swarm_id := UNASSIGNED_SWARM_ID, last_ip_change_height := h,
     sni_version := get_min_service_node_info_version_for_hf hf,
     contributors := map (reserved_contributor req) (zip (rf_addresses r) (rf_portions r)),
     total_reserved := sum_list (map (\<lambda>p. portions_to_amount p req) (rf_portions r))\<rparr>"

lemma zip_snd_map: "length xs = length ys \<Longrightarrow> map (\<lambda>p. f (snd p)) (zip xs ys) = map f ys"
  by (induction xs ys rule: list_induct2) simp_all

lemma zip_fst_map: "length xs = length ys \<Longrightarrow> map (\<lambda>p. f (fst p)) (zip xs ys) = map f xs"
  by (induction xs ys rule: list_induct2) simp_all

lemma is_registration_tx_info:
  assumes "is_registration_tx E hf tx ts h idx default_info = Some (key, info)"
    and "reg_tx_extract_fields tx = Some r"
  shows "info = registered_info hf h idx
           (get_staking_requirement (env_exp2_share E) (env_nettype E) h hf) r \<and>
         distinct (rf_addresses r) \<and> sum_list (map unat (rf_portions r)) \<le> unat STAKING_PORTIONS \<and>
         length (rf_portions r) = length (rf_addresses r)"
  using assms(1)
proof (rule is_registration_txE, goal_cases)
  case (1 r' hash parsed)
  have [simp]: "r' = r" using 1(1) assms(2) by simp
  have len: "length (rf_addresses r) = length (rf_portions r)" using 1(3) by simp
  have "sum_list (map unat (rf_portions r)) \<le> unat STAKING_PORTIONS"
    using 1(7) by (auto simp: get_registration_hash_def portions_fit_iff split: if_splits)
  moreover have "distinct (rf_addresses r)"
    using 1(14) len by (auto simp: reserve_contributors_eq split: if_splits)
  moreover have "info = registered_info hf h idx
      (get_staking_requirement (env_exp2_share E) (env_nettype E) h hf) r"
    using 1(14) zip_snd_map [OF len, of "\<lambda>p. portions_to_amount p
        (get_staking_requirement (env_exp2_share E) (env_nettype E) h hf)"]
    unfolding reserve_contributors_eq registered_info_def
    by (simp add: default_info_def split: if_splits)
  ultimately show ?case using 1(3) by simp
qed

lemma sum_list_zero: "(\<And>x. x \<in> set xs \<Longrightarrow> f x = (0 :: nat)) \<Longrightarrow> sum_list (map f xs) = 0"
  by (induction xs) simp_all

lemma sum_reserved_contributors:
  "length as = length ps \<Longrightarrow>
     sum_list (map (\<lambda>c. unat (ct_reserved c)) (map (reserved_contributor req) (zip as ps))) =
     sum_list (map (\<lambda>p. unat (portions_to_amount p req)) ps)"
  by (induction as ps rule: list_induct2) (simp_all add: reserved_contributor_def)

lemma registered_info_ok:
  assumes "distinct (rf_addresses r)" and fits: "sum_list (map unat (rf_portions r)) \<le> unat STAKING_PORTIONS"
    and len: "length (rf_portions r) = length (rf_addresses r)"
  shows "stake_ok (registered_info hf h idx req r) \<and> stake_backed (registered_info hf h idx req r) \<and>
         total_contributed (registered_info hf h idx req r) = 0 \<and>
         total_num_locked_contributions (registered_info hf h idx req r) = 0"
proof -
  let ?cs = "map (reserved_contributor req) (zip (rf_addresses r) (rf_portions r))"
  have within: "sum_list (map (\<lambda>p. unat (portions_to_amount p req)) (rf_portions r)) \<le> unat req"
    by (rule sum_portions_within [OF fits])
  then have "sum_list (map unat (map (\<lambda>p. portions_to_amount p req) (rf_portions r))) < 2 ^ 64"
    using unat_lt64 [of req] by (simp add: comp_def)
  then have total: "unat (sum_list (map (\<lambda>p. portions_to_amount p req) (rf_portions r))) =
      sum_list (map (\<lambda>p. unat (portions_to_amount p req)) (rf_portions r))"
    by (simp add: unat_sum_list comp_def)
  have addresses: "map ct_address ?cs = rf_addresses r"
    using len by (simp add: reserved_contributor_def comp_def zip_fst_map [where f = "\<lambda>x. x"])
  have empty: "ct_amount c = 0 \<and> ct_locked_contributions c = []" if "c \<in> set ?cs" for c
    using that by (auto simp: reserved_contributor_def default_contributor_def)
  have empties: "unat (ct_amount c) = 0" "length (ct_locked_contributions c) = 0" if "c \<in> set ?cs" for c
    using empty [OF that] by simp_all
  have zero: "sum_list (map (\<lambda>c. unat (ct_amount c)) ?cs) = 0"
    by (rule sum_list_zero, rule empties(1))
  have locked: "sum_list (map (\<lambda>c. length (ct_locked_contributions c)) ?cs) = 0"
    by (rule sum_list_zero, rule empties(2))
  have fields: "contributors (registered_info hf h idx req r) = ?cs"
    "total_reserved (registered_info hf h idx req r) =
       sum_list (map (\<lambda>p. portions_to_amount p req) (rf_portions r))"
    "staking_requirement (registered_info hf h idx req r) = req"
    "total_contributed (registered_info hf h idx req r) = 0"
    by (simp_all add: registered_info_def default_info_def)
  have small: "\<forall>c \<in> set ?cs. ct_amount c \<le> ct_reserved c"
    and backed: "\<forall>c \<in> set ?cs. unat (ct_amount c) \<le>
        sum_list (map (\<lambda>cn. unat (cn_amount cn)) (ct_locked_contributions c))"
    by (metis empty word_zero_le, metis empties(1) le0)
  show ?thesis
    unfolding stake_ok_def stake_backed_def total_num_locked_contributions_def fields
      zero locked addresses sum_reserved_contributors [OF len [symmetric]] total
    using assms(1) within small backed by (simp add: word_le_nat_alt total MAX_NUMBER_OF_CONTRIBUTORS_def)
qed

lemma sum_list_replace:
  fixes f :: "'a \<Rightarrow> nat"
  assumes "p < length cs"
  shows "sum_list (map f (cs[p := c])) + f (cs ! p) = sum_list (map f cs) + f c"
  using assms by (induction cs arbitrary: p) (auto split: nat.split simp: less_Suc_eq_0_disj)

lemma contributor_position_le: "contributor_position a cs \<le> length cs"
  unfolding contributor_position_def by (rule length_takeWhile_le)

lemma position_in_range: "contributor_position a cs < length (with_contributor a cs)"
  using contributor_position_le [of a cs] by (auto simp: with_contributor_def)

lemma position_end_iff: "contributor_position a cs = length cs \<longleftrightarrow> a \<notin> ct_address ` set cs"
  by (induction cs) (auto simp: contributor_position_def)

lemma address_at_position: "ct_address (with_contributor a cs ! contributor_position a cs) = a"
proof (cases "contributor_position a cs = length cs")
  case True
  then show ?thesis by (simp add: with_contributor_def nth_append)
next
  case False
  then have "length (takeWhile (\<lambda>c. ct_address c \<noteq> a) cs) < length cs"
    using contributor_position_le [of a cs] by (simp add: contributor_position_def)
  from nth_length_takeWhile [OF this] show ?thesis
    using False by (simp add: with_contributor_def contributor_position_def)
qed

lemma with_contributor_sums:
  "f (default_contributor\<lparr>ct_address := a\<rparr>) = (0 :: nat) \<Longrightarrow>
     sum_list (map f (with_contributor a cs)) = sum_list (map f cs)"
  by (simp add: with_contributor_def)

lemma distinct_with_contributor:
  "distinct (map ct_address cs) \<Longrightarrow> distinct (map ct_address (with_contributor a cs))"
  using position_end_iff [of a cs] by (auto simp: with_contributor_def)

lemma with_contributor_member:
  "c \<in> set (with_contributor a cs) \<Longrightarrow> c \<in> set cs \<or> c = default_contributor\<lparr>ct_address := a\<rparr>"
  by (auto simp: with_contributor_def split: if_splits)

text \<open>The amounts of a contribution, as natural numbers.\<close>

lemma contribution_amounts:
  fixes a r R Q T :: u64
  assumes "unat a \<le> unat r" "unat r \<le> unat R" "unat R \<le> unat Q"
  defines "t \<equiv> min (r + (Q - R) - a) T"
  shows "unat t = min (unat r + (unat Q - unat R) - unat a) (unat T) \<and>
         unat (a + t) = unat a + unat t \<and>
         unat (a + t) \<le> unat r + (unat Q - unat R)"
proof -
  have Q: "unat Q < 2 ^ 64" using unat_lt64 [of Q] by simp
  have d: "unat (Q - R) = unat Q - unat R" by (rule unat_sub_no_wrap [OF assms(3)])
  have m: "unat (r + (Q - R)) = unat r + (unat Q - unat R)"
    using unat_add_no_wrap [of r "Q - R"] assms(2,3) d Q by linarith
  have s: "unat (r + (Q - R) - a) = unat r + (unat Q - unat R) - unat a"
    using unat_sub_no_wrap [of a "r + (Q - R)"] assms(1) m by linarith
  have t: "unat t = min (unat r + (unat Q - unat R) - unat a) (unat T)"
    unfolding t_def unat_min_u64 s ..
  have le: "unat a + unat t \<le> unat r + (unat Q - unat R)" using t assms(1) by linarith
  have sum: "unat (a + t) = unat a + unat t"
    using unat_add_no_wrap [of a t] le assms(2,3) Q by linarith
  show ?thesis by (intro conjI t sum) (simp only: sum le)
qed

text \<open>The contributor, and the totals, after a contribution.\<close>

lemma raise_to_max:
  fixes r x R :: u64
  shows "(if r < x then x else r) = max r x" "(if r < x then R + (x - r) else R) = R + (max r x - r)"
  using less_imp_le [of r x] leI [of r x] by (cases "r < x"; simp add: max_absorb1 max_absorb2)+

lemma activate_if_funded_fields [simp]:
  "contributors (activate_if_funded h info) = contributors info"
  "total_contributed (activate_if_funded h info) = total_contributed info"
  "total_reserved (activate_if_funded h info) = total_reserved info"
  "staking_requirement (activate_if_funded h info) = staking_requirement info"
  "registration_hf_version (activate_if_funded h info) = registration_hf_version info"
  by (simp_all add: activate_if_funded_def)

lemma add_contribution_fields:
  fixes parsed info hf h idx
  defines "p \<equiv> contributor_position (ptc_address parsed) (contributors info)"
    and "cs \<equiv> with_contributor (ptc_address parsed) (contributors info)"
  defines "c \<equiv> cs ! p"
  defines "t \<equiv> min (ct_reserved c + (staking_requirement info - total_reserved info) - ct_amount c)
                   (ptc_transferred parsed)"
  defines "c' \<equiv> c\<lparr>ct_amount := ct_amount c + t,
      ct_reserved := max (ct_reserved c) (ct_amount c + t),
      ct_locked_contributions := (if network_version_11_infinite_staking \<le> hf
        then ct_locked_contributions c @ ptc_locked_contributions parsed else ct_locked_contributions c)\<rparr>"
  shows "contributors (add_contribution hf h idx parsed info) = cs[p := c'] \<and>
         total_contributed (add_contribution hf h idx parsed info) = total_contributed info + t \<and>
         total_reserved (add_contribution hf h idx parsed info) =
           total_reserved info + (max (ct_reserved c) (ct_amount c + t) - ct_reserved c) \<and>
         staking_requirement (add_contribution hf h idx parsed info) = staking_requirement info \<and>
         registration_hf_version (add_contribution hf h idx parsed info) = registration_hf_version info"
  unfolding add_contribution_def Let_def p_def [symmetric] cs_def [symmetric] c_def [symmetric]
    t_def [symmetric] raise_to_max
  by (simp add: c'_def)

lemma member_le_sum:
  fixes f :: "'a \<Rightarrow> nat"
  shows "p < length cs \<Longrightarrow> f (cs ! p) \<le> sum_list (map f cs)"
  using elem_le_sum_list [of p "map f cs"] by simp

lemma sum_le_sum:
  fixes f g :: "'a \<Rightarrow> nat"
  shows "(\<forall>c \<in> set cs. f c \<le> g c) \<Longrightarrow> sum_list (map f cs) \<le> sum_list (map g cs)"
  by (induction cs) auto

lemma with_contributor_ok:
  fixes a
  assumes "stake_ok info"
  defines "cs \<equiv> with_contributor a (contributors info)"
  shows "sum_list (map (\<lambda>c. unat (ct_reserved c)) cs) = unat (total_reserved info) \<and>
         sum_list (map (\<lambda>c. unat (ct_amount c)) cs) = unat (total_contributed info) \<and>
         sum_list (map (\<lambda>c. length (ct_locked_contributions c)) cs) = total_num_locked_contributions info \<and>
         (\<forall>c \<in> set cs. unat (ct_amount c) \<le> unat (ct_reserved c)) \<and> distinct (map ct_address cs)"
proof (intro conjI)
  show "\<forall>c \<in> set cs. unat (ct_amount c) \<le> unat (ct_reserved c)"
  proof
    fix c assume "c \<in> set cs"
    from with_contributor_member [OF this [unfolded cs_def]]
    show "unat (ct_amount c) \<le> unat (ct_reserved c)"
      using assms(1) by (auto simp: stake_ok_def word_le_nat_alt default_contributor_def)
  qed
  show "distinct (map ct_address cs)"
    using assms(1) unfolding cs_def stake_ok_def by (intro distinct_with_contributor) simp
qed (use assms(1) in \<open>simp_all add: cs_def stake_ok_def total_num_locked_contributions_def
       with_contributor_sums default_contributor_def\<close>)

lemma add_contribution_ok:
  assumes ok: "stake_ok info"
    and room: "network_version_11_infinite_staking \<le> hf \<Longrightarrow>
      total_num_locked_contributions info + length (ptc_locked_contributions parsed) \<le> MAX_NUMBER_OF_CONTRIBUTORS"
  shows "stake_ok (add_contribution hf h idx parsed info)"
proof -
  define p where "p = contributor_position (ptc_address parsed) (contributors info)"
  define cs where "cs = with_contributor (ptc_address parsed) (contributors info)"
  define c where "c = cs ! p"
  define t where "t = min (ct_reserved c + (staking_requirement info - total_reserved info) - ct_amount c)
    (ptc_transferred parsed)"
  define m where "m = max (ct_reserved c) (ct_amount c + t)"
  define c' where "c' = c\<lparr>ct_amount := ct_amount c + t, ct_reserved := m,
      ct_locked_contributions := (if network_version_11_infinite_staking \<le> hf
        then ct_locked_contributions c @ ptc_locked_contributions parsed else ct_locked_contributions c)\<rparr>"
  let ?i = "add_contribution hf h idx parsed info"
  have new: "contributors ?i = cs[p := c']" "total_contributed ?i = total_contributed info + t"
      "total_reserved ?i = total_reserved info + (m - ct_reserved c)"
      "staking_requirement ?i = staking_requirement info"
    using add_contribution_fields [of hf h idx parsed info]
    unfolding p_def cs_def c_def t_def c'_def m_def by (simp_all only: simp_thms)
  have pr: "p < length cs" unfolding p_def cs_def by (rule position_in_range)
  have sums: "sum_list (map (\<lambda>c. unat (ct_reserved c)) cs) = unat (total_reserved info)"
      "sum_list (map (\<lambda>c. unat (ct_amount c)) cs) = unat (total_contributed info)"
      "sum_list (map (\<lambda>c. length (ct_locked_contributions c)) cs) = total_num_locked_contributions info"
    and each: "\<forall>c \<in> set cs. unat (ct_amount c) \<le> unat (ct_reserved c)" and dist: "distinct (map ct_address cs)"
    using with_contributor_ok [OF ok, of "ptc_address parsed"] unfolding cs_def by blast+
  have ar: "unat (ct_amount c) \<le> unat (ct_reserved c)" using each pr by (simp add: c_def)
  have rR: "unat (ct_reserved c) \<le> unat (total_reserved info)"
    using member_le_sum [OF pr, of "\<lambda>c. unat (ct_reserved c)"] sums(1) by (simp add: c_def)
  have RQ: "unat (total_reserved info) \<le> unat (staking_requirement info)"
    using ok by (simp add: stake_ok_def word_le_nat_alt)
  have amt: "unat (ct_amount c + t) = unat (ct_amount c) + unat t"
      "unat (ct_amount c + t) \<le> unat (ct_reserved c) + (unat (staking_requirement info) - unat (total_reserved info))"
    using contribution_amounts [OF ar rR RQ, of "ptc_transferred parsed"] unfolding t_def by blast+
  have m: "unat m = max (unat (ct_reserved c)) (unat (ct_amount c + t))" unfolding m_def by (rule unat_max_u64)
  have d: "unat (m - ct_reserved c) = unat m - unat (ct_reserved c)"
    by (rule unat_sub_no_wrap) (simp only: m max.cobounded1)
  have fit: "unat (total_reserved info) + (unat m - unat (ct_reserved c)) \<le> unat (staking_requirement info)"
    using amt(2) rR RQ m by linarith
  have TR: "unat (total_reserved ?i) = unat (total_reserved info) + (unat m - unat (ct_reserved c))"
    using unat_add_no_wrap [of "total_reserved info" "m - ct_reserved c"] fit d new(3)
      unat_lt64 [of "staking_requirement info"] by simp
  have c': "unat (ct_reserved c') = unat m" "unat (ct_amount c') = unat (ct_amount c) + unat t"
      "ct_address c' = ct_address c"
    by (simp_all add: c'_def amt(1))
  have sumR: "sum_list (map (\<lambda>c. unat (ct_reserved c)) (cs[p := c'])) = unat (total_reserved ?i)"
    using sum_list_replace [OF pr, of "\<lambda>c. unat (ct_reserved c)" c'] sums(1) TR c'(1) rR m
    unfolding c_def by linarith
  have sumA: "sum_list (map (\<lambda>c. unat (ct_amount c)) (cs[p := c'])) = unat (total_contributed info) + unat t"
    using sum_list_replace [OF pr, of "\<lambda>c. unat (ct_amount c)" c'] sums(2) c'(2)
    unfolding c_def by linarith
  have each': "\<forall>c \<in> set (cs[p := c']). unat (ct_amount c) \<le> unat (ct_reserved c)"
    using each c' m amt(1) set_update_subset_insert [of cs p c'] by auto
  have TC: "unat (total_contributed ?i) = unat (total_contributed info) + unat t"
    using unat_add_no_wrap [of "total_contributed info" t] sum_le_sum [OF each'] sumR sumA TR fit new(2)
      unat_lt64 [of "staking_requirement info"] by simp
  have L: "sum_list (map (\<lambda>c. length (ct_locked_contributions c)) (cs[p := c'])) \<le> MAX_NUMBER_OF_CONTRIBUTORS"
    using sum_list_replace [OF pr, of "\<lambda>c. length (ct_locked_contributions c)" c'] sums(3) room ok
    unfolding c_def [symmetric] c'_def stake_ok_def by (auto split: if_splits)
  have D: "distinct (map ct_address (cs[p := c']))"
    using dist pr c'(3) by (simp add: map_update c_def list_update_same_conv [THEN iffD2])
  show ?thesis
    unfolding stake_ok_def total_num_locked_contributions_def new(1,4)
    using sumR sumA TC TR fit each' D L by (simp add: word_le_nat_alt)
qed

section \<open>Backing by locked outputs\<close>

definition locked_total :: "contribution_t list \<Rightarrow> nat" where
  "locked_total cns = sum_list (map (\<lambda>cn. unat (cn_amount cn)) cns)"

lemma locked_total_append [simp]: "locked_total (xs @ ys) = locked_total xs + locked_total ys"
  by (simp add: locked_total_def)

lemma unat_add_le: "unat ((a :: u64) + b) \<le> unat a + unat b"
  by (simp add: unat_word_ariths)

lemma lock_output_backed:
  assumes "unat (ptc_transferred (snd acc)) \<le> locked_total (ptc_locked_contributions (snd acc))"
  shows "unat (ptc_transferred (snd (lock_output C tx d i acc))) \<le>
           locked_total (ptc_locked_contributions (snd (lock_output C tx d i acc)))"
proof -
  have "unat (ptc_transferred (snd acc) + x) \<le> locked_total (ptc_locked_contributions (snd acc)) + unat x" for x
    using unat_add_le [of "ptc_transferred (snd acc)" x] assms by linarith
  then show ?thesis
    using assms
    by (auto simp: lock_output_def Let_def locked_total_def split: prod.splits option.splits)
qed

lemma fold_lock_output_backed:
  assumes "unat (ptc_transferred (snd acc)) \<le> locked_total (ptc_locked_contributions (snd acc))"
  shows "unat (ptc_transferred (snd (fold (lock_output C tx d) is acc))) \<le>
           locked_total (ptc_locked_contributions (snd (fold (lock_output C tx d) is acc)))"
  using assms
proof (induction "is" arbitrary: acc)
  case (Cons i "is")
  from Cons.IH [OF lock_output_backed [OF Cons.prems]] show ?case by simp
qed simp

lemma get_contribution_backed:
  assumes "get_contribution C nettype hf tx h = Some parsed" "network_version_11_infinite_staking \<le> hf"
  shows "unat (ptc_transferred parsed) \<le> locked_total (ptc_locked_contributions parsed)"
proof -
  obtain d proofs a k where "parsed = snd (fold (lock_output C tx d) [0 ..< length (tx_vout tx)]
      (proofs, \<lparr>ptc_address = a, ptc_transferred = 0, ptc_tx_key = k, ptc_locked_contributions = []\<rparr>))"
    using assms by (auto simp: get_contribution_def Let_def split: option.splits)
  then show ?thesis by (simp only:) (rule fold_lock_output_backed, simp)
qed

lemma get_contribution_pre_v11:
  "get_contribution C nettype hf tx h = Some parsed \<Longrightarrow> hf < network_version_11_infinite_staking \<Longrightarrow>
     ptc_locked_contributions parsed = []"
  by (auto simp: get_contribution_def Let_def split: option.splits if_splits)

lemma stake_backed_iff:
  "stake_backed info \<longleftrightarrow> (network_version_11_infinite_staking \<le> registration_hf_version info \<longrightarrow>
     (\<forall>c \<in> set (contributors info). unat (ct_amount c) \<le> locked_total (ct_locked_contributions c)))"
  by (simp add: stake_backed_def locked_total_def)

lemma add_contribution_backed:
  assumes backed: "stake_backed info"
    and new: "network_version_11_infinite_staking \<le> registration_hf_version info \<Longrightarrow>
      network_version_11_infinite_staking \<le> hf \<and>
      unat (ptc_transferred parsed) \<le> locked_total (ptc_locked_contributions parsed)"
  shows "stake_backed (add_contribution hf h idx parsed info)"
proof -
  define p where "p = contributor_position (ptc_address parsed) (contributors info)"
  define cs where "cs = with_contributor (ptc_address parsed) (contributors info)"
  define t where "t = min (ct_reserved (cs ! p) + (staking_requirement info - total_reserved info) -
    ct_amount (cs ! p)) (ptc_transferred parsed)"
  let ?i = "add_contribution hf h idx parsed info"
  let ?c = "(cs ! p)\<lparr>ct_amount := ct_amount (cs ! p) + t,
      ct_reserved := max (ct_reserved (cs ! p)) (ct_amount (cs ! p) + t),
      ct_locked_contributions := (if network_version_11_infinite_staking \<le> hf
        then ct_locked_contributions (cs ! p) @ ptc_locked_contributions parsed
        else ct_locked_contributions (cs ! p))\<rparr>"
  have fields: "contributors ?i = cs[p := ?c]" "registration_hf_version ?i = registration_hf_version info"
    using add_contribution_fields [of hf h idx parsed info] unfolding p_def cs_def t_def
    by (simp_all only: simp_thms)
  have pr: "p < length cs" unfolding p_def cs_def by (rule position_in_range)
  show ?thesis
    unfolding stake_backed_iff fields
  proof (intro impI ballI)
    fix c assume v: "network_version_11_infinite_staking \<le> registration_hf_version info"
      and c: "c \<in> set (cs[p := ?c])"
    have old: "unat (ct_amount x) \<le> locked_total (ct_locked_contributions x)" if "x \<in> set cs" for x
      using with_contributor_member [OF that [unfolded cs_def]] backed v
      by (auto simp: stake_backed_iff default_contributor_def)
    have "unat t \<le> unat (ptc_transferred parsed)" unfolding t_def unat_min_u64 by simp
    then have "unat (ct_amount (cs ! p) + t) \<le>
        locked_total (ct_locked_contributions (cs ! p)) + locked_total (ptc_locked_contributions parsed)"
      using new [OF v] old [OF nth_mem [OF pr]] unat_add_le [of "ct_amount (cs ! p)" t] by linarith
    then show "unat (ct_amount c) \<le> locked_total (ct_locked_contributions c)"
      using c old new [OF v] set_update_subset_insert [of cs p ?c] by auto
  qed
qed

section \<open>The staking state\<close>

lemma staking_state_ok_assign:
  assumes "staking_state_ok st" "stake_ok info" "stake_backed info"
  shows "staking_state_ok (st\<lparr>st_service_nodes_infos := um_assign_key key info (infos_of st)\<rparr>)"
proof -
  have "e \<in> set (um_assign_key key info m) \<Longrightarrow> e = (key, info) \<or> e \<in> set m" for e m
    by (induction key info m rule: um_assign_key.induct) (auto split: if_splits)
  then show ?thesis using assms by (fastforce simp: staking_state_ok_def um_wf_assign)
qed

lemma staking_state_ok_modify:
  assumes "staking_state_ok st"
    and "\<And>i. map_of (infos_of st) key = Some i \<Longrightarrow> stake_ok i \<Longrightarrow> stake_backed i \<Longrightarrow> stake_ok (f i) \<and> stake_backed (f i)"
  shows "staking_state_ok (st\<lparr>st_service_nodes_infos := modify_key key f (infos_of st)\<rparr>)"
proof -
  have wf: "um_wf (infos_of st)" using assms(1) by (simp add: staking_state_ok_def)
  have "stake_ok i \<and> stake_backed i" if e: "(k, i) \<in> set (modify_key key f (infos_of st))" for k i
  proof (cases "k = key")
    case True
    then have "map_of (modify_key key f (infos_of st)) key = Some i"
      using e um.find_some_iff [OF um.wf_modify [OF wf, of key f]] by blast
    then obtain j where j: "map_of (infos_of st) key = Some j" "i = f j"
      by (auto simp: um.find_modify)
    then have "stake_ok j \<and> stake_backed j"
      using assms(1) map_of_SomeD [OF j(1)] by (auto simp: staking_state_ok_def)
    with assms(2) [OF j(1)] j(2) show ?thesis by blast
  next
    case False
    then have "(k, i) \<in> set (infos_of st)" using e by (auto simp: modify_key_def split: if_splits)
    then show ?thesis using assms(1) by (auto simp: staking_state_ok_def)
  qed
  then show ?thesis using um.wf_modify [OF wf] by (auto simp: staking_state_ok_def)
qed

lemma map_of_ok:
  "staking_state_ok st \<Longrightarrow> map_of (infos_of st) key = Some info \<Longrightarrow> stake_ok info \<and> stake_backed info"
  using map_of_SomeD [of "infos_of st" key info] by (auto simp: staking_state_ok_def)

lemma registration_ok:
  assumes "is_registration_tx E hf tx ts h idx default_info = Some (key, info)"
  shows "stake_ok info \<and> stake_backed info \<and> total_contributed info = 0"
proof -
  obtain r where r: "reg_tx_extract_fields tx = Some r" using assms by (rule is_registration_txE)
  show ?thesis using is_registration_tx_info [OF assms r] registered_info_ok [of r] by simp
qed

lemma stake_ok_position:
  "stake_ok (info\<lparr>last_reward_block_height := h, last_reward_transaction_index := i\<rparr>) = stake_ok info"
  "stake_backed (info\<lparr>last_reward_block_height := h, last_reward_transaction_index := i\<rparr>) = stake_backed info"
  by (simp_all add: stake_ok_def stake_backed_def total_num_locked_contributions_def)

lemma process_registration_tx_ok:
  assumes "staking_state_ok st"
  shows "staking_state_ok (snd (snd (process_registration_tx E resc blk tx idx (proofs, st))))"
proof (cases "is_registration_tx E (blk_major_version blk) tx (blk_timestamp blk) (get_block_height blk) idx default_info")
  case None
  then show ?thesis using assms by (simp add: process_registration_tx_def)
next
  case (Some ki)
  obtain key info where ki: "ki = (key, info)" by fastforce
  have ok: "stake_ok info" "stake_backed info" using registration_ok Some ki by blast+
  show ?thesis
    using assms staking_state_ok_assign [OF assms ok, of key]
      staking_state_ok_assign [OF assms, of "info\<lparr>last_reward_block_height := h, last_reward_transaction_index := i\<rparr>" key for h i]
      ok
    by (simp add: process_registration_tx_def Some ki Let_def stake_ok_position split: option.split)
qed

text \<open>A contribution either leaves the state as it is or enters the parsed contribution in one info.\<close>

lemma process_contribution_cases:
  obtains (rejected) "process_contribution_tx E blk tx idx st = (False, st)"
  | (accepted) pubkey parsed info where
      "get_contribution (env_crypto E) (env_nettype E) (blk_major_version blk) tx (get_block_height blk) = Some parsed"
      "map_of (infos_of st) pubkey = Some info" "\<not> is_fully_funded info"
      "network_version_11_infinite_staking \<le> blk_major_version blk \<Longrightarrow>
         total_num_locked_contributions info + length (ptc_locked_contributions parsed) \<le> MAX_NUMBER_OF_CONTRIBUTORS"
      "process_contribution_tx E blk tx idx st =
         (is_fully_funded (add_contribution (blk_major_version blk) (get_block_height blk) idx parsed info),
          st\<lparr>st_service_nodes_infos := modify_key pubkey
               (\<lambda>_. add_contribution (blk_major_version blk) (get_block_height blk) idx parsed info) (infos_of st)\<rparr>)"
proof (cases "process_contribution_tx E blk tx idx st = (False, st)")
  case True
  then show ?thesis by (rule rejected)
next
  case False
  then obtain pubkey parsed info where
    key: "get_service_node_pubkey_from_tx_extra (tx_extra tx) = Some pubkey"
    and parsed: "get_contribution (env_crypto E) (env_nettype E) (blk_major_version blk) tx (get_block_height blk) = Some parsed"
    and info: "map_of (infos_of st) pubkey = Some info"
    unfolding process_contribution_tx_def Let_def by (auto split: option.splits)
  show ?thesis
    by (rule accepted [OF parsed info])
       (use False key parsed info in \<open>auto simp: process_contribution_tx_def Let_def not_less split: if_splits option.splits\<close>)
qed

lemma process_contribution_tx_ok:
  assumes ok: "staking_state_ok st"
    and versions: "\<forall>(k, i) \<in> set (infos_of st). registration_hf_version i \<le> blk_major_version blk"
  shows "staking_state_ok (snd (process_contribution_tx E blk tx idx st))"
proof (cases rule: process_contribution_cases [of E blk tx idx st])
  case rejected
  then show ?thesis using ok by simp
next
  case (accepted pubkey parsed info)
  have i: "stake_ok info" "stake_backed info" using map_of_ok [OF ok accepted(2)] by simp_all
  have v: "registration_hf_version info \<le> blk_major_version blk"
    using versions map_of_SomeD [OF accepted(2)] by auto
  have "stake_ok (add_contribution (blk_major_version blk) (get_block_height blk) idx parsed info)"
    using add_contribution_ok [OF i(1)] accepted(4) by blast
  moreover have "stake_backed (add_contribution (blk_major_version blk) (get_block_height blk) idx parsed info)"
    using add_contribution_backed [OF i(2)] get_contribution_backed [OF accepted(1)] v order_trans by blast
  ultimately show ?thesis unfolding accepted(5) snd_conv
    by (intro staking_state_ok_modify ok) simp
qed

lemma stake_ok_bounds:
  assumes "stake_ok info"
  shows "total_contributed info \<le> total_reserved info \<and> total_reserved info \<le> staking_requirement info"
proof -
  have "\<forall>c \<in> set (contributors info). unat (ct_amount c) \<le> unat (ct_reserved c)"
    using assms by (simp add: stake_ok_def word_le_nat_alt)
  from sum_le_sum [OF this] show ?thesis using assms by (simp add: stake_ok_def word_le_nat_alt)
qed

lemma fully_funded_iff: "stake_ok info \<Longrightarrow> is_fully_funded info \<longleftrightarrow> total_contributed info = staking_requirement info"
  using stake_ok_bounds [of info] by (auto simp: is_fully_funded_def)

end
