(* ===== verification/Staking_Properties.thy ===== *)
theory Staking_Properties
  imports Registration
begin

text \<open>
  The properties of registrations and contributions, over the lemmas of \<^verbatim>\<open>Registration\<close>, and the
  cases in which the rules do less than they mean to.  The examples use a test network with
  primitives that accept every signature.
\<close>

section \<open>A concrete network\<close>

text \<open>
  Primitives for examples: every signature is good, the one-time key of output \<open>i\<close> is \<open>i + 1\<close>, a key
  image is its key, and every output of a supported type carries 125 coins.
\<close>

definition staking_crypto :: crypto_ops where
  "staking_crypto = \<lparr>cn_fast_hash = \<lambda>_. 0, check_key = \<lambda>_. True, check_signature = \<lambda>_ _ _. True,
     generate_signature = \<lambda>_ _ _. 0, check_ring_signature = \<lambda>_ ki pks _. pks = [ki],
     generate_key_derivation = \<lambda>_ _. Some 0, derive_public_key = \<lambda>_ i _. Some (of_nat i + 1),
     derivation_to_scalar = \<lambda>_ i. of_nat i, decode_rct_simple = \<lambda>_ _ _. Some (125 * COIN),
     decode_rct = \<lambda>_ _ _. None, deterministic_secret_key = \<lambda>_. 0\<rparr>"

definition staking_env :: chain_env where
  "staking_env = \<lparr>env_crypto = staking_crypto, env_exp2_share = \<lambda>_ _. 0, env_nettype = TESTNET\<rparr>"

definition address_of :: "public_key \<Rightarrow> account_public_address" where
  "address_of k = \<lparr>m_spend_public_key = k, m_view_public_key = k\<rparr>"

definition stake_extra :: "public_key \<Rightarrow> public_key list \<Rightarrow> tx_extra_field list" where
  "stake_extra staker images =
     [extra_service_node_pubkey 7, extra_service_node_contributor (address_of staker),
      extra_tx_secret_key 1,
      extra_tx_key_image_proofs (map (\<lambda>i. \<lparr>kip_key_image = i, kip_signature = 0\<rparr>) images)]"

definition register_field :: "public_key list \<Rightarrow> u64 list \<Rightarrow> tx_extra_field" where
  "register_field ks ps = extra_service_node_register
     \<lparr>m_public_spend_keys = ks, m_public_view_keys = ks, m_portions_for_operator = 0,
      m_portions = ps, m_expiration_timestamp = 1000, m_service_node_signature = 0\<rparr>"

definition staking_tx :: "u8 \<Rightarrow> tx_extra_field list \<Rightarrow> public_key list \<Rightarrow> transaction" where
  "staking_tx rct extra keys = \<lparr>tx_version = 4, tx_type = tx_stake, tx_unlock_time = 0, tx_vin = [],
     tx_vout = map (\<lambda>k. \<lparr>out_amount = 0, out_target = txout_sispop_tagged_key k\<rparr>) keys,
     tx_extra = extra, tx_output_unlock_times = [], tx_rct_signatures = \<lparr>rct_type = rct, rct_data = []\<rparr>\<rparr>"

definition example_block :: "u64 \<Rightarrow> block" where
  "example_block h = \<lparr>blk_major_version = 16, blk_minor_version = 16, blk_timestamp = 1000, blk_prev_id = 0,
     blk_miner_tx = \<lparr>tx_version = 4, tx_type = tx_standard, tx_unlock_time = 0, tx_vin = [txin_gen h],
       tx_vout = [], tx_extra = [], tx_output_unlock_times = [], tx_rct_signatures = \<lparr>rct_type = 0, rct_data = []\<rparr>\<rparr>,
     blk_tx_hashes = [], blk_hash = 0\<rparr>"

lemmas tx_extra_defs =
  get_service_node_pubkey_from_tx_extra_def get_service_node_contributor_from_tx_extra_def
  get_tx_secret_key_from_tx_extra_def get_tx_key_image_proofs_from_tx_extra_def
  get_service_node_register_from_tx_extra_def

lemmas staking_example_defs =
  staking_crypto_def staking_env_def address_of_def stake_extra_def register_field_def staking_tx_def
  example_block_def tx_extra_defs get_block_height_def

lemma upt_small: "[0 ..< 1] = [0]" "[0 ..< 2] = [0, 1]" "[0 ..< 5] = [0, 1, 2, 3, 4]"
  by (simp_all add: upt_rec)

definition contribution_tx :: "public_key \<Rightarrow> transaction" where
  "contribution_tx staker = staking_tx RCTTypeBulletproof2 (stake_extra staker [1]) [1]"

lemma contribution_tx_parts:
  "get_service_node_pubkey_from_tx_extra (tx_extra (contribution_tx staker)) = Some 7"
  "get_tx_secret_key_from_tx_extra (tx_extra (contribution_tx staker)) = Some 1"
  "get_contribution staking_crypto TESTNET 16 (contribution_tx staker) h =
     Some \<lparr>ptc_address = address_of staker, ptc_transferred = 125 * COIN, ptc_tx_key = 1,
           ptc_locked_contributions = [\<lparr>cn_key_image_pub_key = 1, cn_key_image = 1, cn_amount = 125 * COIN\<rparr>]\<rparr>"
  by (simp_all add: contribution_tx_def get_contribution_def staking_example_defs lock_output_def
        get_tx_output_amount_def Let_def const_defs)

lemma example_env_fields:
  "env_crypto staking_env = staking_crypto" "env_nettype staking_env = TESTNET"
  "blk_major_version (example_block h) = 16" "get_block_height (example_block h) = h"
  by (simp_all add: staking_env_def example_block_def get_block_height_def)

text \<open>
  C4: a registration that is accepted is signed by the node's key and not expired, lists at most
  four different participants, and reserves for each of them exactly its share of the staking
  requirement; the reservations together stay within the requirement and nothing is credited yet.
\<close>

theorem registration_accepted:
  assumes "is_registration_tx E hf tx ts h idx default_info = Some (key, info)"
  shows "\<exists>r hash. reg_tx_extract_fields tx = Some r \<and> key = rf_service_node_key r \<and>
     get_registration_hash (env_crypto E) (rf_addresses r) (rf_portions_for_operator r)
       (rf_portions r) (rf_expiration_timestamp r) = Some hash \<and>
     check_signature (env_crypto E) hash key (rf_signature r) \<and> ts \<le> rf_expiration_timestamp r \<and>
     distinct (rf_addresses r) \<and> length (rf_addresses r) \<le> MAX_NUMBER_OF_CONTRIBUTORS \<and>
     map ct_address (contributors info) = rf_addresses r \<and>
     map (\<lambda>c. unat (ct_reserved c)) (contributors info) =
       map (\<lambda>p. unat (staking_requirement info) * unat p div unat STAKING_PORTIONS) (rf_portions r) \<and>
     sum_list (map (\<lambda>c. unat (ct_reserved c)) (contributors info)) \<le> unat (staking_requirement info) \<and>
     total_contributed info = 0"
  using assms
proof (rule is_registration_txE, goal_cases)
  case (1 r hash parsed)
  have i: "info = registered_info hf h idx (get_staking_requirement (env_exp2_share E) (env_nettype E) h hf) r"
    "distinct (rf_addresses r)" "sum_list (map unat (rf_portions r)) \<le> unat STAKING_PORTIONS"
    using is_registration_tx_info [OF assms 1(1)] by blast+
  have len: "length (rf_addresses r) = length (rf_portions r)" using 1(3) by simp
  have each: "unat p \<le> unat STAKING_PORTIONS" if "p \<in> set (rf_portions r)" for p
    using member_le_sum_list [of "unat p" "map unat (rf_portions r)"] that i(3) by simp
  have req: "staking_requirement info = get_staking_requirement (env_exp2_share E) (env_nettype E) h hf"
    and cs: "contributors info = map (reserved_contributor (staking_requirement info)) (zip (rf_addresses r) (rf_portions r))"
    by (simp_all add: i(1) registered_info_def)
  have addresses: "map ct_address (contributors info) = rf_addresses r"
    unfolding cs using zip_fst_map [OF len, of "\<lambda>x. x"] by (simp add: reserved_contributor_def comp_def)
  have "map (\<lambda>c. unat (ct_reserved c)) (contributors info) =
      map (\<lambda>p. unat (portions_to_amount p (staking_requirement info))) (rf_portions r)"
    unfolding cs using zip_snd_map [OF len, of "\<lambda>p. unat (portions_to_amount p (staking_requirement info))"]
    by (simp add: reserved_contributor_def comp_def)
  also have "\<dots> = map (\<lambda>p. unat (staking_requirement info) * unat p div unat STAKING_PORTIONS) (rf_portions r)"
    using each by (intro map_cong refl portions_to_amount_exact) simp
  finally have shares: "map (\<lambda>c. unat (ct_reserved c)) (contributors info) =
      map (\<lambda>p. unat (staking_requirement info) * unat p div unat STAKING_PORTIONS) (rf_portions r)" .
  have ok: "stake_ok info" "total_contributed info = 0" using registration_ok [OF assms] by blast+
  have total: "sum_list (map (\<lambda>c. unat (ct_reserved c)) (contributors info)) \<le> unat (staking_requirement info)"
    using ok(1) by (simp add: stake_ok_def word_le_nat_alt)
  show ?case
    by (intro exI [of _ r] exI [of _ hash] conjI 1 i(2) addresses shares total ok(2))
qed

definition example_registration_tx :: "public_key list \<Rightarrow> transaction" where
  "example_registration_tx keys = staking_tx RCTTypeBulletproof2
     (register_field [1] [STAKING_PORTIONS] # stake_extra 1 keys) keys"

definition example_fields :: registration_fields where
  "example_fields = \<lparr>rf_addresses = [address_of 1], rf_portions_for_operator = 0,
     rf_portions = [STAKING_PORTIONS], rf_expiration_timestamp = 1000, rf_service_node_key = 7, rf_signature = 0\<rparr>"

lemma example_registration_parts:
  "reg_tx_extract_fields (example_registration_tx keys) = Some example_fields"
  "get_contribution staking_crypto TESTNET 16 (example_registration_tx [1]) h =
     Some \<lparr>ptc_address = address_of 1, ptc_transferred = 125 * COIN, ptc_tx_key = 1,
           ptc_locked_contributions = [\<lparr>cn_key_image_pub_key = 1, cn_key_image = 1, cn_amount = 125 * COIN\<rparr>]\<rparr>"
  "check_service_node_portions 16 [STAKING_PORTIONS]"
  "get_staking_requirement f TESTNET h 16 = 500 * COIN"
  by (simp_all add: example_registration_tx_def example_fields_def reg_tx_extract_fields_def
        get_contribution_def staking_example_defs lock_output_def get_tx_output_amount_def
        check_service_node_portions_def get_min_node_contribution_def get_staking_requirement_def
        Let_def const_defs)

lemma five_stakes:
  "get_contribution staking_crypto TESTNET 16 (example_registration_tx [1, 2, 3, 4, 5]) h =
     Some \<lparr>ptc_address = address_of 1, ptc_transferred = 625 * COIN, ptc_tx_key = 1,
           ptc_locked_contributions = map (\<lambda>k. \<lparr>cn_key_image_pub_key = k, cn_key_image = k, cn_amount = 125 * COIN\<rparr>)
             [1, 2, 3, 4, 5]\<rparr>"
  by (simp add: example_registration_tx_def get_contribution_def staking_example_defs lock_output_def
        get_tx_output_amount_def Let_def const_defs upt_rec)

lemma example_is_registration:
  assumes "get_contribution staking_crypto TESTNET 16 (example_registration_tx keys) 50 = Some parsed"
    and "ptc_address parsed = address_of 1" "125 * COIN \<le> ptc_transferred parsed"
  shows "is_registration_tx staking_env 16 (example_registration_tx keys) 1000 50 0 default_info =
           Some (7, registered_info 16 50 0 (500 * COIN) example_fields)"
proof -
  have "get_registration_hash staking_crypto [address_of 1] 0 [STAKING_PORTIONS] 1000 = Some 0"
    by (simp add: get_registration_hash_def staking_crypto_def)
  moreover have "get_min_node_contribution 16 (500 * COIN) 0 0 = 125 * COIN"
    by (simp add: get_min_node_contribution_def Let_def const_defs)
  ultimately show ?thesis
    using assms example_registration_parts(3)
    by (simp add: is_registration_tx_def example_registration_parts(1,4) example_fields_def
          reserve_contributors_eq registered_info_def default_info_def total_num_locked_contributions_def
          staking_env_def [unfolded staking_crypto_def] staking_crypto_def Let_def MAX_NUMBER_OF_CONTRIBUTORS_def)
qed

theorem registration_accepted_witness:
  "\<exists>info. is_registration_tx staking_env 16 (example_registration_tx [1]) 1000 50 0 default_info = Some (7, info) \<and>
     sum_list (map (\<lambda>c. unat (ct_reserved c)) (contributors info)) \<le> unat (staking_requirement info)"
proof -
  have "is_registration_tx staking_env 16 (example_registration_tx [1]) 1000 50 0 default_info =
      Some (7, registered_info 16 50 0 (500 * COIN) example_fields)"
    by (rule example_is_registration [OF example_registration_parts(2)]) simp_all
  from this registration_accepted [OF this] show ?thesis by blast
qed

definition example_node :: service_node_info where
  "example_node = default_info\<lparr>staking_requirement := 500 * COIN, registration_height := 40,
     registration_hf_version := 16, total_reserved := 500 * COIN, total_contributed := 375 * COIN,
     contributors := [\<lparr>ct_amount = 375 * COIN, ct_reserved = 375 * COIN, ct_address = address_of 1,
         ct_locked_contributions = [\<lparr>cn_key_image_pub_key = 20, cn_key_image = 20, cn_amount = 375 * COIN\<rparr>]\<rparr>,
       \<lparr>ct_amount = 0, ct_reserved = 125 * COIN, ct_address = address_of 2, ct_locked_contributions = []\<rparr>]\<rparr>"

definition example_state :: "service_node_info \<Rightarrow> state_t" where
  "example_state info = initial_state\<lparr>st_height := 49, st_service_nodes_infos := [(7, info)]\<rparr>"

lemma example_state_infos [simp]: "infos_of (example_state info) = [(7, info)]"
  by (simp add: example_state_def)

lemma example_node_ok: "staking_state_ok (example_state example_node)"
  by (simp add: staking_state_ok_def um_wf_def keys_of_def stake_ok_def stake_backed_def example_node_def
        default_info_def total_num_locked_contributions_def address_of_def const_defs)

lemma example_node_version: "registration_hf_version example_node = 16"
  by (simp add: example_node_def)

text \<open>
  C3: registrations and contributions keep the stake accounting of every node: reservations add up
  to the total reserved and stay within the requirement, credited amounts add up to the total
  contributed and stay within the reservations, no contributor is listed twice, there are at most
  four locked contributions, and for nodes of the infinite staking era every credited amount is
  covered by locked outputs.
\<close>

theorem stake_accounting_preserved:
  assumes "staking_state_ok st"
    and "\<forall>(k, i) \<in> set (infos_of st). registration_hf_version i \<le> blk_major_version blk"
  shows "staking_state_ok (snd (snd (process_registration_tx E resc blk tx idx (proofs, st)))) \<and>
         staking_state_ok (snd (process_contribution_tx E blk tx idx st))"
  using process_registration_tx_ok [OF assms(1)] process_contribution_tx_ok [OF assms] by blast

theorem stake_accounting_preserved_witness:
  "staking_state_ok (snd (process_contribution_tx staking_env (example_block 50)
     (contribution_tx 2) 0 (example_state example_node)))"
  using stake_accounting_preserved [of "example_state example_node" "example_block 50", THEN conjunct2]
    example_node_ok by (simp add: example_node_version example_block_def)


definition example_funded :: "bool \<times> state_t" where
  "example_funded = process_contribution_tx staking_env (example_block 50)
     (contribution_tx 2) 0 (example_state example_node)"

lemma example_funded_True: "fst example_funded"
  by (simp add: example_funded_def process_contribution_tx_def Let_def contribution_tx_parts example_env_fields
        add_contribution_def activate_if_funded_def is_fully_funded_def example_node_def default_info_def
        contributor_position_def with_contributor_def get_min_node_contribution_def address_of_def
        total_num_locked_contributions_def const_defs)


section \<open>Where the staking rules fall short\<close>

lemma min_contribution_v11:
  assumes "network_version_11_infinite_staking \<le> v"
  shows "get_min_node_contribution v req res n =
    (if MAX_NUMBER_OF_CONTRIBUTORS \<le> n then UINT64_MAX
     else (req - res) div of_nat (MAX_NUMBER_OF_CONTRIBUTORS - n))"
  using leD [OF assms] by (simp add: get_min_node_contribution_def Let_def)

lemma lock_output_unsupported:
  assumes "\<And>i. get_tx_output_amount C tx i d = 0"
  shows "fold (lock_output C tx d) is acc = acc"
proof (induction "is" arbitrary: acc)
  case (Cons i "is")
  have "lock_output C tx d i acc = acc" using assms [of i] by (simp add: lock_output_def split: prod.split)
  with Cons.IH show ?case by simp
qed simp

text \<open>
  the amount decoder handles no ring signature type after \<^verbatim>\<open>RCTTypeBulletproof2\<close>, so a
  transaction with \<^verbatim>\<open>RCTTypeCLSAG\<close> or \<^verbatim>\<open>RCTTypeBulletproofPlus\<close> signatures stakes nothing from hard
  fork 16 on: its contribution decodes to zero and it cannot register a node.
\<close>

theorem new_signature_types_stake_nothing:
  assumes "rct_type (tx_rct_signatures tx) \<in> {RCTTypeCLSAG, RCTTypeBulletproofPlus}"
    and "network_version_16 \<le> hf"
  shows "(\<forall>parsed. get_contribution C nettype hf tx h = Some parsed \<longrightarrow>
            ptc_transferred parsed = 0 \<and> ptc_locked_contributions parsed = []) \<and>
         is_registration_tx E hf tx ts h idx default_info = None"
proof -
  have zero: "get_tx_output_amount C tx i d = 0" for C i d
    using assms(1) by (auto simp: get_tx_output_amount_def Let_def const_defs split: txout_target.split)
  have v: "network_version_11_infinite_staking \<le> hf"
    by (rule order_trans [OF _ assms(2)]) (simp add: const_defs)
  have decoded: "ptc_transferred parsed = 0 \<and> ptc_locked_contributions parsed = []"
    if "get_contribution C nettype hf tx h = Some parsed" for C nettype parsed
    using that v lock_output_unsupported [OF zero] by (auto simp: get_contribution_def Let_def split: option.splits)
  have pos: "0 < get_min_node_contribution hf (get_staking_requirement (env_exp2_share E) (env_nettype E) h hf) 0 0"
    using assms(2) by (simp add: min_contribution_v11 [OF v] get_staking_requirement_def Let_def const_defs)
  have "is_registration_tx E hf tx ts h idx default_info = None"
  proof (rule ccontr)
    assume "is_registration_tx E hf tx ts h idx default_info \<noteq> None"
    then obtain key info where "is_registration_tx E hf tx ts h idx default_info = Some (key, info)" by auto
    then obtain parsed where parsed:
      "get_contribution (env_crypto E) (env_nettype E) hf tx h = Some parsed"
      "get_min_node_contribution hf (get_staking_requirement (env_exp2_share E) (env_nettype E) h hf)
         (total_reserved default_info) (total_num_locked_contributions default_info) \<le> ptc_transferred parsed"
      by (rule is_registration_txE)
    have "ptc_transferred parsed = 0" using decoded [OF parsed(1)] by simp
    then show False using pos parsed(2)
      by (simp add: default_info_def total_num_locked_contributions_def)
  qed
  with decoded show ?thesis by blast
qed

theorem new_signature_types_stake_nothing_witness:
  "is_registration_tx staking_env 16 (staking_tx RCTTypeBulletproofPlus
     (register_field [1] [STAKING_PORTIONS] # stake_extra 1 [1]) [1]) 1000 50 0 default_info = None"
  by (rule new_signature_types_stake_nothing [THEN conjunct2])
     (simp_all add: staking_tx_def network_version_16_def)

text \<open>
  once a node has four locked contributions it takes no further contribution, also when
  participants for whom stake is reserved have not contributed yet: the node then stays unfunded.
\<close>

theorem four_locked_contributions_close_a_node:
  assumes "network_version_11_infinite_staking \<le> blk_major_version blk"
    and "get_service_node_pubkey_from_tx_extra (tx_extra tx) = Some pubkey"
    and "map_of (infos_of st) pubkey = Some info"
    and "MAX_NUMBER_OF_CONTRIBUTORS \<le> total_num_locked_contributions info"
  shows "process_contribution_tx E blk tx idx st = (False, st)"
proof (cases "get_contribution (env_crypto E) (env_nettype E) (blk_major_version blk) tx (get_block_height blk)")
  case None
  then show ?thesis using assms(2) by (simp add: process_contribution_tx_def Let_def)
next
  case (Some parsed)
  have full: "get_min_node_contribution (blk_major_version blk) req res (total_num_locked_contributions info) = UINT64_MAX"
    for req res using assms(4) by (simp add: min_contribution_v11 [OF assms(1)])
  have "(0 :: u64) < UINT64_MAX" by (simp add: word_less_nat_alt unat_UINT64_MAX)
  then have "ptc_transferred parsed < UINT64_MAX" if "ptc_locked_contributions parsed = []"
    using get_contribution_backed [OF Some assms(1)] that by (simp add: locked_total_def unat_eq_0)
  moreover have "MAX_NUMBER_OF_CONTRIBUTORS < total_num_locked_contributions info +
      length (ptc_locked_contributions parsed)" if "ptc_locked_contributions parsed \<noteq> []"
    using assms(4) that by (cases "ptc_locked_contributions parsed") simp_all
  ultimately show ?thesis
    using assms Some full
    by (cases "ptc_locked_contributions parsed = []")
       (auto simp: process_contribution_tx_def Let_def not_less split: option.split)
qed

definition crowded_node :: service_node_info where
  "crowded_node = example_node\<lparr>contributors :=
     [(contributors example_node ! 0)\<lparr>ct_locked_contributions :=
         map (\<lambda>k. \<lparr>cn_key_image_pub_key = k, cn_key_image = k, cn_amount = 94 * COIN\<rparr>) [20, 21, 22, 23]\<rparr>,
      contributors example_node ! 1]\<rparr>"

theorem four_locked_contributions_close_a_node_witness:
  "\<not> is_fully_funded crowded_node \<and> stake_ok crowded_node \<and>
   process_contribution_tx staking_env (example_block 50) (contribution_tx 2) 0 (example_state crowded_node) =
     (False, example_state crowded_node)"
proof -
  have four: "MAX_NUMBER_OF_CONTRIBUTORS \<le> total_num_locked_contributions crowded_node"
    by (simp add: crowded_node_def example_node_def default_info_def total_num_locked_contributions_def const_defs)
  have "process_contribution_tx staking_env (example_block 50) (contribution_tx 2) 0 (example_state crowded_node) =
      (False, example_state crowded_node)"
    by (rule four_locked_contributions_close_a_node [OF _ _ _ four, where pubkey = 7])
       (simp_all add: example_env_fields contribution_tx_parts const_defs)
  moreover have "\<not> is_fully_funded crowded_node \<and> stake_ok crowded_node"
    by (simp add: is_fully_funded_def stake_ok_def crowded_node_def example_node_def default_info_def
          total_num_locked_contributions_def address_of_def const_defs)
  ultimately show ?thesis by blast
qed

lemma get_contribution_key:
  "get_contribution C nettype hf tx h = Some parsed \<Longrightarrow> get_tx_secret_key_from_tx_extra (tx_extra tx) \<noteq> None"
  by (auto simp: get_contribution_def split: option.splits)

text \<open>
  while a node is fully reserved but not fully funded, the minimum contribution is zero, so a
  transaction that transfers nothing is entered: it appends a contributor with no stake, and the
  list of contributors grows beyond any bound.
\<close>

theorem empty_contribution_adds_contributor:
  assumes "network_version_11_infinite_staking \<le> blk_major_version blk"
    and "get_service_node_pubkey_from_tx_extra (tx_extra tx) = Some pubkey"
    and "map_of (infos_of st) pubkey = Some info" and "\<not> is_fully_funded info"
    and "total_reserved info = staking_requirement info"
    and "total_num_locked_contributions info < MAX_NUMBER_OF_CONTRIBUTORS"
    and "get_contribution (env_crypto E) (env_nettype E) (blk_major_version blk) tx (get_block_height blk) = Some parsed"
    and "ptc_transferred parsed = 0" and "ptc_locked_contributions parsed = []"
    and "ptc_address parsed \<notin> ct_address ` set (contributors info)"
  shows "\<exists>info'. map_of (infos_of (snd (process_contribution_tx E blk tx idx st))) pubkey = Some info' \<and>
     contributors info' = contributors info @ [default_contributor\<lparr>ct_address := ptc_address parsed\<rparr>]"
proof -
  let ?i = "add_contribution (blk_major_version blk) (get_block_height blk) idx parsed info"
  have "snd (process_contribution_tx E blk tx idx st) =
      st\<lparr>st_service_nodes_infos := modify_key pubkey (\<lambda>_. ?i) (infos_of st)\<rparr>"
    using assms leD [OF assms(1)] get_contribution_key [OF assms(7)]
    by (clarsimp simp: process_contribution_tx_def Let_def min_contribution_v11)
  moreover have "contributor_position (ptc_address parsed) (contributors info) = length (contributors info)"
    using assms(10) by (simp add: position_end_iff)
  then have "contributors ?i = contributors info @ [default_contributor\<lparr>ct_address := ptc_address parsed\<rparr>]"
    using add_contribution_fields [of "blk_major_version blk" "get_block_height blk" idx parsed info] assms(5,8,9)
    by (simp add: with_contributor_def default_contributor_def nth_append)
  ultimately show ?thesis using assms(3) by (simp add: um.find_modify)
qed

definition empty_contribution_tx :: transaction where
  "empty_contribution_tx = staking_tx RCTTypeBulletproof2 (stake_extra 9 []) []"

theorem empty_contribution_adds_contributor_witness:
  "\<exists>info'. map_of (infos_of (snd (process_contribution_tx staking_env (example_block 50) empty_contribution_tx 0
      (example_state example_node)))) 7 = Some info' \<and> length (contributors info') = 3"
proof -
  let ?p = "\<lparr>ptc_address = address_of 9, ptc_transferred = 0, ptc_tx_key = 1, ptc_locked_contributions = []\<rparr>"
  have "\<exists>info'. map_of (infos_of (snd (process_contribution_tx staking_env (example_block 50) empty_contribution_tx 0
      (example_state example_node)))) 7 = Some info' \<and>
      contributors info' = contributors example_node @ [default_contributor\<lparr>ct_address := ptc_address ?p\<rparr>]"
  proof (rule empty_contribution_adds_contributor [where parsed = ?p])
    show "get_service_node_pubkey_from_tx_extra (tx_extra empty_contribution_tx) = Some 7"
      by (simp add: empty_contribution_tx_def staking_example_defs)
    show "get_contribution (env_crypto staking_env) (env_nettype staking_env) (blk_major_version (example_block 50))
        empty_contribution_tx (get_block_height (example_block 50)) = Some ?p"
      by (simp add: empty_contribution_tx_def get_contribution_def staking_example_defs Let_def const_defs)
  qed (simp_all add: example_env_fields example_node_def default_info_def is_fully_funded_def
        total_num_locked_contributions_def address_of_def const_defs)
  then show ?thesis by (auto simp: example_node_def)
qed

text \<open>
  the number of staked outputs is not checked when a node is registered.  A registration
  with more than four is accepted, but its own contribution is then rejected as too many: the node
  is listed without any stake, and none of the outputs is locked.
\<close>

theorem overfull_registration_has_no_stake:
  fixes E blk tx idx resc proofs st
  defines "hf \<equiv> blk_major_version blk" and "h \<equiv> get_block_height blk"
  assumes "network_version_11_infinite_staking \<le> hf"
    and "is_registration_tx E hf tx (blk_timestamp blk) h idx default_info = Some (key, info)"
    and "map_of (infos_of st) key = None"
    and "get_contribution (env_crypto E) (env_nettype E) hf tx h = Some parsed"
    and "MAX_NUMBER_OF_CONTRIBUTORS < length (ptc_locked_contributions parsed)"
  shows "\<exists>proofs' st'. process_registration_tx E resc blk tx idx (proofs, st) = (True, proofs', st') \<and>
     map_of (infos_of st') key = Some info \<and> total_contributed info = 0 \<and>
     process_contribution_tx E blk tx idx st' = (False, st')"
proof -
  define st' where "st' = st\<lparr>st_service_nodes_infos := um_assign_key key info (infos_of st)\<rparr>"
  have pubkey: "get_service_node_pubkey_from_tx_extra (tx_extra tx) = Some key"
    using assms(4) by (rule is_registration_txE) (auto simp: reg_tx_extract_fields_def split: option.splits)
  have found: "map_of (infos_of st') key = Some info" by (simp add: st'_def map_of_um_assign)
  have "process_registration_tx E resc blk tx idx (proofs, st) =
      (True, if resc then proofs else update_proof key (\<lambda>_. default_proof) proofs, st')"
    using assms(3-5) by (simp add: process_registration_tx_def Let_def st'_def hf_def h_def)
  moreover have "process_contribution_tx E blk tx idx st' = (False, st')"
    using assms(3,6,7) pubkey found
    by (auto simp: process_contribution_tx_def Let_def hf_def h_def split: option.split)
  ultimately show ?thesis using found registration_ok [OF assms(4)] by blast
qed

theorem overfull_registration_has_no_stake_witness:
  "\<exists>proofs' st' info. process_registration_tx staking_env False (example_block 50)
       (example_registration_tx [1, 2, 3, 4, 5]) 0 ([], initial_state) = (True, proofs', st') \<and>
     map_of (infos_of st') 7 = Some info \<and> total_contributed info = 0"
proof -
  have reg: "is_registration_tx staking_env (blk_major_version (example_block 50)) (example_registration_tx [1, 2, 3, 4, 5])
      (blk_timestamp (example_block 50)) (get_block_height (example_block 50)) 0 default_info =
      Some (7, registered_info 16 50 0 (500 * COIN) example_fields)"
    using example_is_registration [OF five_stakes]
    by (simp add: example_env_fields) (simp add: example_block_def COIN_def)
  have "get_contribution (env_crypto staking_env) (env_nettype staking_env) (blk_major_version (example_block 50))
      (example_registration_tx [1, 2, 3, 4, 5]) (get_block_height (example_block 50)) \<noteq> None"
    by (simp add: example_env_fields five_stakes)
  then show ?thesis
    using overfull_registration_has_no_stake [OF _ reg, of initial_state] five_stakes
    by (fastforce simp: example_env_fields initial_state_def const_defs)
qed

end
