(* ===== verification/Node_State.thy ===== *)
theory Node_State
  imports Registration Voting Swarms
begin

text \<open>
  The state of the service node list after a block: state changes, key image unlocks, quorum
  generation, expiry, the reward winner and \<^verbatim>\<open>update_from_block\<close> of
  \<^verbatim>\<open>src/src/cryptonote_core/service_node_list.cpp\<close>.  Log messages are left out.

  The map of proofs belongs to the list and is passed along with the state; proofs are written only
  through it.  What makes the program throw or reach undefined behaviour is a value of \<open>node_error\<close>:
  an exception of the swarm code, a missing node, a null quorum pointer, an index past the end
  of a list, a block or transaction the database does not have.  The verdict of \<^verbatim>\<open>verify_tx_state_change\<close> does not depend on the flags it is passed,
  so each call starts from clean ones.
\<close>

section \<open>Environment and errors\<close>

datatype node_error = swarm_exception swarm_error | missing_node | null_quorum | bad_index | db_exception

record 'g node_env =
  ne_chain :: chain_env
  ne_swarm :: "'g swarm_env"
  ne_get_block_from_height :: "u64 \<Rightarrow> block option"
  ne_get_tx :: "hash256 \<Rightarrow> transaction option"

abbreviation ne_crypto :: "'g node_env \<Rightarrow> crypto_ops" where
  "ne_crypto N \<equiv> env_crypto (ne_chain N)"

abbreviation ne_nettype :: "'g node_env \<Rightarrow> network_type" where
  "ne_nettype N \<equiv> env_nettype (ne_chain N)"

definition lift_swarm :: "(swarm_error, 'a) outcome \<Rightarrow> (node_error, 'a) outcome" where
  "lift_swarm m = map_option (map_sum swarm_exception id) m"

definition set_info :: "public_key \<Rightarrow> service_node_info \<Rightarrow> state_t \<Rightarrow> state_t" where
  "set_info key info st = st\<lparr>st_service_nodes_infos := modify_key key (\<lambda>_. info) (infos_of st)\<rparr>"

section \<open>State changes\<close>

text \<open>The loop over the alternative states; the last state of the height decides.\<close>

fun alt_state_quorums ::
    "crypto_ops \<Rightarrow> tx_extra_service_node_state_change \<Rightarrow> u64 \<Rightarrow> u8 \<Rightarrow> (hash256 \<times> state_t) list \<Rightarrow>
       quorum_manager option \<Rightarrow> (node_error, quorum_manager option) outcome" where
  "alt_state_quorums C sc block_height hf_version [] quorums = ret quorums"
| "alt_state_quorums C sc block_height hf_version ((h, alt_state) # entries) quorums =
     (if st_height alt_state \<noteq> sc_block_height sc
      then alt_state_quorums C sc block_height hf_version entries quorums
      else
        case qm_obligations (st_quorums alt_state) of
          None \<Rightarrow> throw null_quorum
        | Some q \<Rightarrow>
            alt_state_quorums C sc block_height hf_version entries
              (if fst (verify_tx_state_change C sc block_height clean_tvc q hf_version)
               then Some (st_quorums alt_state) else None))"

definition blacklist_entries :: "u64 \<Rightarrow> service_node_info \<Rightarrow> key_image_blacklist_entry list" where
  "blacklist_entries unlock_height info =
     map (\<lambda>cn. \<lparr>kb_key_image = cn_key_image cn, kb_unlock_height = unlock_height, kb_amount = cn_amount cn\<rparr>)
       (concat (map ct_locked_contributions (contributors info)))"

text \<open>The switch over the new state of the node \<open>key\<close> with the info \<open>info\<close>.\<close>

definition apply_state_change ::
    "network_type \<Rightarrow> bool \<Rightarrow> block \<Rightarrow> new_state \<Rightarrow> public_key \<Rightarrow> service_node_info \<Rightarrow> proof_map \<times> state_t \<Rightarrow>
       bool \<times> proof_map \<times> state_t" where
  "apply_state_change nettype rescanning blk state key info ps =
     (let (proofs, st) = ps;
          hf_version = blk_major_version blk;
          block_height = get_block_height blk
      in case state of
           deregister \<Rightarrow>
             (True, proofs, st\<lparr>
                st_key_image_blacklist :=
                  (if network_version_11_infinite_staking \<le> hf_version
                   then st_key_image_blacklist st @
                        blacklist_entries (block_height + staking_num_lock_blocks nettype) info
                   else st_key_image_blacklist st),
                st_service_nodes_infos := erase_key key (infos_of st)\<rparr>)
         | decommission \<Rightarrow>
             if hf_version < network_version_12_checkpointing then (False, ps)
             else if is_decommissioned info then (False, ps)
             else
               (True,
                if rescanning then proofs
                else update_proof key (\<lambda>p. p\<lparr>pi_timestamp := 0, pi_effective_timestamp := 0\<rparr>) proofs,
                set_info key (info\<lparr>active_since_height := - active_since_height info,
                    last_decommission_height := block_height,
                    decommission_count := decommission_count info + 1,
                    sni_swarm_id := (if network_version_13_enforce_checkpoints \<le> hf_version
                                     then UNASSIGNED_SWARM_ID else sni_swarm_id info)\<rparr>) st)
         | recommission \<Rightarrow>
             if hf_version < network_version_12_checkpointing then (False, ps)
             else if \<not> is_decommissioned info then (False, ps)
             else
               (True,
                update_proof key (\<lambda>p. p\<lparr>pi_effective_timestamp := blk_timestamp blk,
                                        pi_votes := empty_votes\<rparr>) proofs,
                set_info key (info\<lparr>active_since_height := block_height,
                    last_reward_block_height := block_height,
                    last_reward_transaction_index := UINT32_MAX\<rparr>) st)
         | ip_change_penalty \<Rightarrow>
             if hf_version < network_version_12_checkpointing then (False, ps)
             else if is_decommissioned info then (False, ps)
             else
               (True, proofs,
                set_info key (info\<lparr>last_reward_block_height := block_height,
                    last_reward_transaction_index := UINT32_MAX,
                    last_ip_change_height := block_height\<rparr>) st)
         | other_new_state v \<Rightarrow> (False, ps))"

text \<open>The quorums against which the votes of a state change verify, if any.\<close>

definition state_change_quorums ::
    "crypto_ops \<Rightarrow> state_set \<Rightarrow> state_set \<Rightarrow> (hash256 \<times> state_t) list \<Rightarrow> u64 \<Rightarrow> u8 \<Rightarrow>
       tx_extra_service_node_state_change \<Rightarrow> (node_error, quorum_manager option) outcome" where
  "state_change_quorums C state_history state_archive alt_states block_height hf_version sc =
     (case (case find_state (sc_block_height sc) state_history of
              Some s \<Rightarrow> Some s
            | None \<Rightarrow> find_state (sc_block_height sc) state_archive) of
        None \<Rightarrow> ret None
      | Some s \<Rightarrow>
          (case qm_obligations (st_quorums s) of
             None \<Rightarrow> throw null_quorum
           | Some q \<Rightarrow>
               if fst (verify_tx_state_change C sc block_height clean_tvc q hf_version)
               then ret (Some (st_quorums s))
               else alt_state_quorums C sc block_height hf_version alt_states None))"

definition process_state_change_tx ::
    "'g node_env \<Rightarrow> bool \<Rightarrow> state_set \<Rightarrow> state_set \<Rightarrow> (hash256 \<times> state_t) list \<Rightarrow> block \<Rightarrow> transaction \<Rightarrow>
       proof_map \<times> state_t \<Rightarrow> (node_error, bool \<times> proof_map \<times> state_t) outcome" where
  "process_state_change_tx N rescanning state_history state_archive alt_states blk tx ps =
     (let hf_version = blk_major_version blk; (proofs, st) = ps
      in if tx_type tx \<noteq> tx_state_change then ret (False, ps)
         else
           case get_service_node_state_change_from_tx_extra (tx_extra tx) hf_version of
             None \<Rightarrow> ret (False, ps)
           | Some sc \<Rightarrow>
               rbind (state_change_quorums (ne_crypto N) state_history state_archive alt_states
                        (get_block_height blk) hf_version sc) (\<lambda>quorums.
               case quorums of
                 None \<Rightarrow> ret (False, ps)
               | Some qs \<Rightarrow>
                   (case qm_obligations qs of
                      None \<Rightarrow> throw null_quorum
                    | Some q \<Rightarrow>
                        (case get_pubkey_from_quorum q group_worker (unat (sc_service_node_index sc)) of
                           None \<Rightarrow> ret (False, ps)
                         | Some key \<Rightarrow>
                             (case map_of (infos_of st) key of
                                None \<Rightarrow> ret (False, ps)
                              | Some info \<Rightarrow>
                                  ret (apply_state_change (ne_nettype N) rescanning blk (sc_state sc) key info ps))))))"

section \<open>Key image unlocks\<close>

text \<open>The loop over the contributors: the first one with the key image decides.\<close>

fun unlock_verdict ::
    "crypto_ops \<Rightarrow> tx_extra_tx_key_image_unlock \<Rightarrow> contributor_t list \<Rightarrow> bool" where
  "unlock_verdict C unlock [] = False"
| "unlock_verdict C unlock (c # cs) =
     (case find (\<lambda>cn. kiu_key_image unlock = cn_key_image cn) (ct_locked_contributions c) of
        None \<Rightarrow> unlock_verdict C unlock cs
      | Some cn \<Rightarrow>
          check_signature C (generate_request_stake_unlock_hash (kiu_nonce unlock))
            (cn_key_image_pub_key cn) (kiu_signature unlock))"

definition process_key_image_unlock_tx ::
    "chain_env \<Rightarrow> u64 \<Rightarrow> transaction \<Rightarrow> state_t \<Rightarrow> bool \<times> state_t" where
  "process_key_image_unlock_tx E block_height tx st =
     (case get_service_node_pubkey_from_tx_extra (tx_extra tx) of
        None \<Rightarrow> (False, st)
      | Some snode_key \<Rightarrow>
      case map_of (infos_of st) snode_key of
        None \<Rightarrow> (False, st)
      | Some node_info \<Rightarrow>
          if requested_unlock_height node_info \<noteq> KEY_IMAGE_AWAITING_UNLOCK_HEIGHT then (False, st)
          else
            case get_tx_key_image_unlock_from_tx_extra (tx_extra tx) of
              None \<Rightarrow> (False, st)
            | Some unlock \<Rightarrow>
                let unlock_height = get_locked_key_image_unlock_height (env_nettype E)
                                      (registration_height node_info) block_height
                in if unlock_verdict (env_crypto E) unlock (contributors node_info)
                   then (True, set_info snode_key (node_info\<lparr>requested_unlock_height := unlock_height\<rparr>) st)
                   else (False, st))"

section \<open>Quorums\<close>

definition generate_shuffled_service_node_index_list ::
    "'g generator \<Rightarrow> nat \<Rightarrow> hash256 \<Rightarrow> quorum_type \<Rightarrow> nat \<Rightarrow> nat \<Rightarrow> (node_error, nat list) outcome" where
  "generate_shuffled_service_node_index_list G list_size block_hash type sublist_size sublist_up_to =
     (let result = [0 ..< list_size];
          seed = hash_limb block_hash 0 + ucast (quorum_type_value type)
      in if 0 < sublist_size \<and> sublist_size < list_size \<and> 0 < sublist_up_to \<and> sublist_up_to < list_size
         then
           rbind (lift_opt (shuffle_portable G seed (take sublist_up_to result))) (\<lambda>front.
             let result = front @ drop sublist_up_to result
             in rbind (lift_opt (shuffle_portable G seed (drop sublist_size result))) (\<lambda>back.
                  ret (take sublist_size result @ back)))
         else lift_opt (shuffle_portable G seed result))"

definition node_at :: "service_nodes_infos_t \<Rightarrow> nat \<Rightarrow> (node_error, public_key) outcome" where
  "node_at infos j = (if j < length infos then ret (fst (infos ! j)) else throw bad_index)"

fun nodes_at :: "service_nodes_infos_t \<Rightarrow> nat list \<Rightarrow> (node_error, public_key list) outcome" where
  "nodes_at infos [] = ret []"
| "nodes_at infos (j # js) =
     rbind (node_at infos j) (\<lambda>k. rbind (nodes_at infos js) (\<lambda>ks. ret (k # ks)))"

text \<open>
  The two loops that fill a quorum.  An index past the active nodes is taken from the
  decommissioned ones when it is a worker's; the lists are concatenated here.
\<close>

definition fill_quorum ::
    "service_nodes_infos_t \<Rightarrow> service_nodes_infos_t \<Rightarrow> nat list \<Rightarrow> nat \<Rightarrow> nat \<Rightarrow> (node_error, quorum) outcome" where
  "fill_quorum active decomm pub_keys_indexes num_validators num_workers =
     rbind (nodes_at active (take num_validators pub_keys_indexes)) (\<lambda>vs.
     rbind (nodes_at (active @ decomm) (take num_workers (drop num_validators pub_keys_indexes))) (\<lambda>ws.
     ret \<lparr>validators = vs, workers = ws\<rparr>))"

definition generate_obligations_quorum ::
    "'g node_env \<Rightarrow> service_nodes_infos_t \<Rightarrow> service_nodes_infos_t \<Rightarrow> hash256 \<Rightarrow> (node_error, quorum) outcome" where
  "generate_obligations_quorum N active decomm block_hash =
     (let total_nodes = length active + length decomm;
          num_validators = min (length active) STATE_CHANGE_QUORUM_SIZE;
          num_remaining_nodes = total_nodes - num_validators;
          num_workers = min num_remaining_nodes
            (max STATE_CHANGE_MIN_NODES_TO_TEST
                 (num_remaining_nodes div STATE_CHANGE_NTH_OF_THE_NETWORK_TO_TEST))
      in rbind (generate_shuffled_service_node_index_list (rng (ne_swarm N)) total_nodes block_hash
                  obligations num_validators (length active))
           (\<lambda>indexes. fill_quorum active decomm indexes num_validators num_workers))"

definition generate_checkpointing_quorum ::
    "'g node_env \<Rightarrow> service_nodes_infos_t \<Rightarrow> service_nodes_infos_t \<Rightarrow> hash256 \<Rightarrow> u64 \<Rightarrow>
       (node_error, quorum option) outcome" where
  "generate_checkpointing_quorum N active decomm block_hash height =
     (if (height + REORG_SAFETY_BUFFER_BLOCKS_POST_HF12) mod CHECKPOINT_INTERVAL \<noteq> 0 then ret None
      else
        let total_nodes = (if ne_nettype N = TESTNET \<and> height < 85357
                           then length active + length decomm else length active)
        in if CHECKPOINT_QUORUM_SIZE \<le> total_nodes
           then
             rbind (generate_shuffled_service_node_index_list (rng (ne_swarm N)) total_nodes block_hash
                      checkpointing 0 0) (\<lambda>indexes.
             rbind (fill_quorum active decomm indexes (min (length indexes) CHECKPOINT_QUORUM_SIZE) 0) (\<lambda>q.
             ret (Some q)))
           else ret (Some \<lparr>validators = [], workers = []\<rparr>))"

definition blink_eligible :: "u64 \<Rightarrow> service_node_info \<Rightarrow> bool" where
  "blink_eligible active_until info \<longleftrightarrow>
     \<not> (requested_unlock_height info \<noteq> KEY_IMAGE_AWAITING_UNLOCK_HEIGHT \<and>
        requested_unlock_height info \<le> active_until)"

definition generate_blink_quorum ::
    "'g node_env \<Rightarrow> service_nodes_infos_t \<Rightarrow> service_nodes_infos_t \<Rightarrow> hash256 \<Rightarrow> u64 \<Rightarrow>
       (node_error, quorum option) outcome" where
  "generate_blink_quorum N active decomm block_hash height =
     (if height mod BLINK_QUORUM_INTERVAL \<noteq> 0 then ret None
      else
        let active = filter (\<lambda>(k, info). blink_eligible (height + BLINK_EXPIRY_BUFFER) info) active;
            total_nodes = length active
        in if BLINK_MIN_VOTES \<le> total_nodes
           then
             rbind (generate_shuffled_service_node_index_list (rng (ne_swarm N)) total_nodes block_hash
                      blink 0 0) (\<lambda>indexes.
             rbind (fill_quorum active decomm indexes (min (length indexes) BLINK_SUBQUORUM_SIZE) 0) (\<lambda>q.
             ret (Some q)))
           else ret (Some \<lparr>validators = [], workers = []\<rparr>))"

text \<open>The loop over the quorum types up to the highest of the hard fork.\<close>

definition generate_quorums ::
    "'g node_env \<Rightarrow> u8 \<Rightarrow> state_t \<Rightarrow> (node_error, quorum_manager) outcome" where
  "generate_quorums N hf_version st =
     (let active = active_service_nodes_infos st;
          decomm = (if network_version_12_checkpointing \<le> hf_version
                    then decommissioned_service_nodes_infos st else []);
          max_type = quorum_type_value (max_quorum_type_for_hf hf_version)
      in rbind (generate_obligations_quorum N active decomm (st_block_hash st)) (\<lambda>ob.
         rbind (if 1 \<le> max_type
                then generate_checkpointing_quorum N active decomm (st_block_hash st) (st_height st)
                else ret None) (\<lambda>cp.
         rbind (if 2 \<le> max_type
                then generate_blink_quorum N active decomm (st_block_hash st) (st_height st)
                else ret None) (\<lambda>bl.
         ret \<lparr>qm_obligations = Some ob, qm_checkpointing = cp, qm_blink = bl\<rparr>))))"

section \<open>Expiry\<close>

definition v9_registration_key :: "'g node_env \<Rightarrow> block \<Rightarrow> u64 \<Rightarrow> hash256 \<Rightarrow> public_key option" where
  "v9_registration_key N blk height hash =
     (case ne_get_tx N hash of
        None \<Rightarrow> None
      | Some tx \<Rightarrow>
          map_option fst (is_registration_tx (ne_chain N) network_version_9_service_nodes tx
                            (blk_timestamp blk) height 0 default_info))"

definition node_expired :: "u64 \<Rightarrow> u64 \<Rightarrow> service_node_info \<Rightarrow> bool" where
  "node_expired lock_blocks block_height info =
     (if network_version_11_infinite_staking \<le> registration_hf_version info
      then requested_unlock_height info \<noteq> KEY_IMAGE_AWAITING_UNLOCK_HEIGHT \<and>
           requested_unlock_height info < block_height
      else registration_height info + lock_blocks + STAKING_REQUIREMENT_LOCK_BLOCKS_EXCESS < block_height)"

definition get_expired_nodes :: "'g node_env \<Rightarrow> u8 \<Rightarrow> u64 \<Rightarrow> state_t \<Rightarrow> public_key list" where
  "get_expired_nodes N hf_version block_height st =
     (let lock_blocks = staking_num_lock_blocks (ne_nettype N)
      in if hf_version = network_version_9_service_nodes
         then
           if block_height \<le> lock_blocks then []
           else
             let expired_nodes_block_height = block_height - lock_blocks
             in case ne_get_block_from_height N expired_nodes_block_height of
                  None \<Rightarrow> []
                | Some blk \<Rightarrow>
                    if blk_major_version blk < network_version_9_service_nodes then []
                    else List.map_filter (v9_registration_key N blk expired_nodes_block_height) (blk_tx_hashes blk)
         else map fst (filter (\<lambda>(k, info). node_expired lock_blocks block_height info) (infos_of st)))"

text \<open>Removing the expired nodes; the flag records whether an active one was among them.\<close>

fun expire_nodes :: "public_key list \<Rightarrow> bool \<times> state_t \<Rightarrow> bool \<times> state_t" where
  "expire_nodes [] acc = acc"
| "expire_nodes (pubkey # pubkeys) (need_swarm_update, st) =
     (case map_of (infos_of st) pubkey of
        None \<Rightarrow> expire_nodes pubkeys (need_swarm_update, st)
      | Some info \<Rightarrow>
          expire_nodes pubkeys
            (need_swarm_update \<or> is_active info,
             st\<lparr>st_service_nodes_infos := erase_key pubkey (infos_of st)\<rparr>))"

section \<open>The reward winner\<close>

record payout_entry =
  pay_address :: account_public_address
  pay_portions :: u64

record block_winner =
  bw_key :: public_key
  bw_payouts :: "payout_entry list"

definition null_block_winner :: block_winner where
  "null_block_winner = \<lparr>bw_key = null_pkey, bw_payouts = [\<lparr>pay_address = null_address, pay_portions = STAKING_PORTIONS\<rparr>]\<rparr>"

type_synonym waiting_since = "u64 \<times> u32 \<times> public_key"

definition waits_longer :: "waiting_since \<Rightarrow> waiting_since \<Rightarrow> bool" where
  "waits_longer a b =
     (case a of (h, i, k) \<Rightarrow> case b of (h', i', k') \<Rightarrow>
        h < h' \<or> (h = h' \<and> (i < i' \<or> (i = i' \<and> k < k'))))"

fun find_winner ::
    "service_nodes_infos_t \<Rightarrow> waiting_since \<times> service_node_info option \<Rightarrow>
       waiting_since \<times> service_node_info option" where
  "find_winner [] acc = acc"
| "find_winner ((key, sninfo) # infos) (oldest_waiting, info) =
     (let waiting = (last_reward_block_height sninfo, last_reward_transaction_index sninfo, key)
      in find_winner infos
           (if is_active sninfo \<and> waits_longer waiting oldest_waiting then (waiting, Some sninfo)
            else (oldest_waiting, info)))"

definition winner_payout :: "service_node_info \<Rightarrow> contributor_t \<Rightarrow> payout_entry" where
  "winner_payout info contributor =
     (let remaining_portions = STAKING_PORTIONS - portions_for_operator info;
          (lo, hi) = mul128 (ct_amount contributor) remaining_portions;
          (r, resulthi, resultlo) = div128_64 hi lo (staking_requirement info)
      in \<lparr>pay_address = ct_address contributor,
          pay_portions = (if ct_address contributor = operator_address info
                          then resultlo + portions_for_operator info else resultlo)\<rparr>)"

definition get_block_winner :: "state_t \<Rightarrow> block_winner" where
  "get_block_winner st =
     (case find_winner (infos_of st) ((UINT64_MAX, UINT32_MAX, null_pkey), None) of
        ((h, i, key), Some info) \<Rightarrow>
          if key = null_pkey then null_block_winner
          else \<lparr>bw_key = key, bw_payouts = map (winner_payout info) (contributors info)\<rparr>
      | (w, None) \<Rightarrow> null_block_winner)"

section \<open>Swarms\<close>

definition add_to_swarm :: "public_key \<times> service_node_info \<Rightarrow> swarm_snode_map \<Rightarrow> swarm_snode_map" where
  "add_to_swarm key_info swarms =
     (case key_info of (key, info) \<Rightarrow>
        om_assign_key (sni_swarm_id info)
          ((case map_of swarms (sni_swarm_id info) of None \<Rightarrow> [] | Some ks \<Rightarrow> ks) @ [key]) swarms)"

definition existing_swarms :: "state_t \<Rightarrow> swarm_snode_map" where
  "existing_swarms st = fold add_to_swarm (active_service_nodes_infos st) []"

fun apply_swarm_ids :: "(swarm_id_t \<times> public_key) list \<Rightarrow> state_t \<Rightarrow> (node_error, state_t) outcome" where
  "apply_swarm_ids [] st = ret st"
| "apply_swarm_ids ((swarm_id, snode) # rest) st =
     (case map_of (infos_of st) snode of
        None \<Rightarrow> throw missing_node
      | Some info \<Rightarrow>
          if sni_swarm_id info = swarm_id then apply_swarm_ids rest st
          else apply_swarm_ids rest (set_info snode (info\<lparr>sni_swarm_id := swarm_id\<rparr>) st))"

definition update_swarms :: "'g node_env \<Rightarrow> hash256 \<Rightarrow> state_t \<Rightarrow> (node_error, state_t) outcome" where
  "update_swarms N block_hash st =
     rbind (lift_swarm (calc_swarm_changes (ne_swarm N) (existing_swarms st) (hash_limb block_hash 0)))
       (\<lambda>swarms. apply_swarm_ids (concat (map (\<lambda>(i, snodes). map (Pair i) snodes) swarms)) st)"

section \<open>Blocks\<close>

fun txtype_less :: "txtype \<Rightarrow> txtype \<Rightarrow> bool" where
  "txtype_less a b = (txtype_value a < txtype_value b)"

definition process_block_tx ::
    "'g node_env \<Rightarrow> bool \<Rightarrow> state_set \<Rightarrow> state_set \<Rightarrow> (hash256 \<times> state_t) list \<Rightarrow> block \<Rightarrow> u32 \<Rightarrow> transaction \<Rightarrow>
       bool \<times> proof_map \<times> state_t \<Rightarrow> (node_error, bool \<times> proof_map \<times> state_t) outcome" where
  "process_block_tx N rescanning state_history state_archive alt_states blk index tx acc =
     (let (need_swarm_update, proofs, st) = acc;
          max_tx_type = get_max_type_for_hf (blk_major_version blk);
          staking_tx_type = (if txtype_less max_tx_type tx_stake then tx_standard else tx_stake)
      in if tx_type tx = staking_tx_type
         then
           let (registered, proofs, st) = process_registration_tx (ne_chain N) rescanning blk tx index (proofs, st);
               (funded, st) = process_contribution_tx (ne_chain N) blk tx index st
           in ret (need_swarm_update \<or> funded, proofs, st)
         else if tx_type tx = tx_state_change
         then
           rbind (process_state_change_tx N rescanning state_history state_archive alt_states blk tx (proofs, st))
             (\<lambda>(changed, proofs, st). ret (need_swarm_update \<or> changed, proofs, st))
         else if tx_type tx = tx_key_image_unlock
         then ret (need_swarm_update, proofs,
                   snd (process_key_image_unlock_tx (ne_chain N) (get_block_height blk) tx st))
         else ret acc)"

fun process_block_txs ::
    "'g node_env \<Rightarrow> bool \<Rightarrow> state_set \<Rightarrow> state_set \<Rightarrow> (hash256 \<times> state_t) list \<Rightarrow> block \<Rightarrow> u32 \<Rightarrow> transaction list \<Rightarrow>
       bool \<times> proof_map \<times> state_t \<Rightarrow> (node_error, bool \<times> proof_map \<times> state_t) outcome" where
  "process_block_txs N rescanning state_history state_archive alt_states blk index [] acc = ret acc"
| "process_block_txs N rescanning state_history state_archive alt_states blk index (tx # txs) acc =
     rbind (process_block_tx N rescanning state_history state_archive alt_states blk index tx acc)
       (process_block_txs N rescanning state_history state_archive alt_states blk (index + 1) txs)"

definition advance_winner :: "block \<Rightarrow> state_t \<Rightarrow> state_t" where
  "advance_winner blk st =
     (let winner_pubkey = get_service_node_winner_from_tx_extra (tx_extra (blk_miner_tx blk))
      in case map_of (infos_of st) winner_pubkey of
           None \<Rightarrow> st
         | Some info \<Rightarrow> set_info winner_pubkey
             (info\<lparr>last_reward_block_height := get_block_height blk,
                   last_reward_transaction_index := UINT32_MAX\<rparr>) st)"

text \<open>What happens to a state before the transactions of a block are processed.\<close>

definition begin_block :: "'g node_env \<Rightarrow> block \<Rightarrow> state_t \<Rightarrow> bool \<times> state_t" where
  "begin_block N blk st =
     (let block_height = get_block_height blk;
          hf_version = blk_major_version blk;
          st = st\<lparr>st_height := st_height st + 1, st_quorums := empty_quorums, st_block_hash := blk_hash blk,
                  st_key_image_blacklist :=
                    (if network_version_11_infinite_staking \<le> hf_version
                     then filter (\<lambda>e. block_height < kb_unlock_height e) (st_key_image_blacklist st)
                     else st_key_image_blacklist st)\<rparr>;
          (need_swarm_update, st) = expire_nodes (get_expired_nodes N hf_version block_height st) (False, st)
      in (need_swarm_update, advance_winner blk st))"

definition update_from_block ::
    "'g node_env \<Rightarrow> bool \<Rightarrow> state_set \<Rightarrow> state_set \<Rightarrow> (hash256 \<times> state_t) list \<Rightarrow> block \<Rightarrow> transaction list \<Rightarrow>
       proof_map \<times> state_t \<Rightarrow> (node_error, proof_map \<times> state_t) outcome" where
  "update_from_block N rescanning state_history state_archive alt_states blk txs ps =
     (let (proofs, st) = ps;
          (need_swarm_update, st) = begin_block N blk st
      in rbind (process_block_txs N rescanning state_history state_archive alt_states blk 0 txs
                  (need_swarm_update, proofs, st)) (\<lambda>(need_swarm_update, proofs, st).
         rbind (if need_swarm_update then update_swarms N (blk_hash blk) st else ret st) (\<lambda>st.
         rbind (generate_quorums N (blk_major_version blk) st) (\<lambda>quorums.
         ret (proofs, st\<lparr>st_quorums := quorums\<rparr>)))))"

section \<open>The winner is the node that waits longest\<close>

definition waiting_of :: "public_key \<times> service_node_info \<Rightarrow> waiting_since" where
  "waiting_of e = (last_reward_block_height (snd e), last_reward_transaction_index (snd e), fst e)"

lemma waits_longer_trans: "waits_longer a b \<Longrightarrow> waits_longer b c \<Longrightarrow> waits_longer a c"
  by (auto simp: waits_longer_def split: prod.splits)

lemma waits_longer_irrefl: "\<not> waits_longer a a"
  by (auto simp: waits_longer_def split: prod.splits)

lemma waits_longer_total: "a \<noteq> b \<Longrightarrow> \<not> waits_longer a b \<Longrightarrow> waits_longer b a"
  by (auto simp: waits_longer_def split: prod.splits)

lemma find_winner_spec:
  assumes "find_winner infos (w, io) = (w', io')"
  shows "((w', io') = (w, io) \<or> (\<exists>e \<in> set infos. is_active (snd e) \<and> w' = waiting_of e \<and> io' = Some (snd e))) \<and>
         (\<forall>e \<in> set infos. is_active (snd e) \<longrightarrow> \<not> waits_longer (waiting_of e) w') \<and> \<not> waits_longer w w'"
  using assms
proof (induction infos arbitrary: w io)
  case Nil
  then show ?case by (simp add: waits_longer_irrefl)
next
  case (Cons e infos)
  obtain k i where e: "e = (k, i)" by fastforce
  have we: "waiting_of e = (last_reward_block_height i, last_reward_transaction_index i, k)"
    by (simp add: waiting_of_def e)
  show ?case
  proof (cases "is_active i \<and> waits_longer (waiting_of e) w")
    case True
    then have "find_winner infos (waiting_of e, Some i) = (w', io')"
      using Cons.prems by (simp add: e Let_def waiting_of_def)
    from Cons.IH [OF this] True show ?thesis
      using waits_longer_trans [of "waiting_of e" w w'] by (auto simp: e)
  next
    case False
    then have "find_winner infos (w, io) = (w', io')"
      using Cons.prems by (auto simp: e Let_def waiting_of_def split: if_splits)
    from Cons.IH [OF this] False show ?thesis
      using waits_longer_trans [of "waiting_of e" w' w] waits_longer_total [of w' w]
      by (auto simp: e) 
  qed
qed

definition winner_scan :: "state_t \<Rightarrow> waiting_since \<times> service_node_info option" where
  "winner_scan st = find_winner (infos_of st) ((UINT64_MAX, UINT32_MAX, null_pkey), None)"

definition unsaturated :: "state_t \<Rightarrow> bool" where
  "unsaturated st \<longleftrightarrow> (\<forall>(k, i) \<in> set (infos_of st). k \<noteq> null_pkey \<and> last_reward_block_height i < UINT64_MAX)"

lemma winner_scan_active:
  assumes "unsaturated st" and "e \<in> set (infos_of st)" and "is_active (snd e)"
  obtains f where "f \<in> set (infos_of st)" "is_active (snd f)"
    "get_block_winner st = \<lparr>bw_key = fst f, bw_payouts = map (winner_payout (snd f)) (contributors (snd f))\<rparr>"
    "\<And>g. g \<in> set (infos_of st) \<Longrightarrow> is_active (snd g) \<Longrightarrow> \<not> waits_longer (waiting_of g) (waiting_of f)"
proof -
  obtain w io where scan: "winner_scan st = (w, io)" by fastforce
  note spec = find_winner_spec [OF scan [unfolded winner_scan_def]]
  have "waits_longer (waiting_of e) (UINT64_MAX, UINT32_MAX, null_pkey)"
    using assms(1,2) by (auto simp: unsaturated_def waits_longer_def waiting_of_def)
  then have "(w, io) \<noteq> ((UINT64_MAX, UINT32_MAX, null_pkey), None)"
    using spec assms(2,3) by auto
  then obtain f where f: "f \<in> set (infos_of st)" "is_active (snd f)" "w = waiting_of f" "io = Some (snd f)"
    using spec by auto
  have "fst f \<noteq> null_pkey" using assms(1) f(1) by (auto simp: unsaturated_def)
  then have "get_block_winner st = \<lparr>bw_key = fst f, bw_payouts = map (winner_payout (snd f)) (contributors (snd f))\<rparr>"
    using scan f(3,4) by (simp add: get_block_winner_def winner_scan_def waiting_of_def)
  then show thesis using f spec by (intro that [OF f(1,2)]) auto
qed

section \<open>Payouts\<close>

lemma winner_payout_portions:
  assumes "unat (ct_amount c) \<le> unat (staking_requirement info)" "0 < unat (staking_requirement info)"
    and "portions_for_operator info \<le> STAKING_PORTIONS"
  shows "unat (pay_portions (winner_payout info c)) =
     unat (ct_amount c) * unat (STAKING_PORTIONS - portions_for_operator info) div unat (staking_requirement info) +
     (if ct_address c = operator_address info then unat (portions_for_operator info) else 0)"
proof -
  let ?rem = "STAKING_PORTIONS - portions_for_operator info" and ?R = "unat (staking_requirement info)"
  obtain lo hi where m: "mul128 (ct_amount c) ?rem = (lo, hi)" by fastforce
  obtain r qh ql where d: "div128_64 hi lo (staking_requirement info) = (r, qh, ql)" by (metis prod_cases3)
  have q: "wide qh ql = unat (ct_amount c) * unat ?rem div ?R"
    using div128_64_exact(2) [OF assms(2) d] wide_mul128 [OF m] by simp
  have rem: "unat ?rem = unat STAKING_PORTIONS - unat (portions_for_operator info)"
    using assms(3) by (simp add: unat_sub_no_wrap word_le_nat_alt)
  have "unat (ct_amount c) * unat ?rem div ?R \<le> ?R * unat ?rem div ?R"
    using assms(1) by (intro div_le_mono mult_le_mono1)
  also have "\<dots> = unat ?rem" using assms(2) by simp
  finally have le: "wide qh ql \<le> unat ?rem" using q by simp
  then have ql: "unat ql = wide qh ql" using unat_lt64 [of ?rem] by (intro wide_low) simp
  have "unat ql + unat (portions_for_operator info) < 2 ^ 64"
    using le rem ql assms(3) unat_lt64 [of STAKING_PORTIONS] by (simp add: word_le_nat_alt)
  then have "unat (ql + portions_for_operator info) = unat ql + unat (portions_for_operator info)"
    by (rule unat_add_no_wrap)
  then show ?thesis using q ql by (simp add: winner_payout_def m d)
qed

lemma sum_div_le:
  fixes f :: "'a \<Rightarrow> nat"
  shows "sum_list (map (\<lambda>x. f x * k div n) xs) \<le> sum_list (map f xs) * k div n"
proof (induction xs)
  case (Cons x xs)
  have "f x * k div n + sum_list (map f xs) * k div n \<le> (f x * k + sum_list (map f xs) * k) div n"
    by (metis div_add1_eq le_add1)
  with Cons.IH show ?case by (simp add: algebra_simps)
qed simp

lemma sum_once:
  assumes "distinct (map g xs)"
  shows "sum_list (map (\<lambda>x. if g x = a then n else 0) xs) \<le> (n :: nat)"
  using assms
proof (induction xs)
  case (Cons x xs)
  have "sum_list (map (\<lambda>x. if g x = a then n else 0) xs) = 0" if "g x = a"
  proof (rule sum_list_zero)
    fix y assume "y \<in> set xs"
    then have "g y \<noteq> g x" using Cons.prems by (metis distinct.simps(2) image_eqI list.set_map list.simps(9))
    then show "(if g y = a then n else 0) = 0" using that by simp
  qed
  with Cons show ?case by auto
qed simp

lemma payouts_of_info:
  assumes ok: "stake_ok info" and op: "portions_for_operator info \<le> STAKING_PORTIONS"
    and req: "0 < unat (staking_requirement info)"
  shows "sum_list (map (\<lambda>p. unat (pay_portions p)) (map (winner_payout info) (contributors info))) \<le>
           unat STAKING_PORTIONS"
proof -
  let ?rem = "unat (STAKING_PORTIONS - portions_for_operator info)" and ?R = "unat (staking_requirement info)"
  let ?cs = "contributors info"
  have each: "unat (ct_amount c) \<le> ?R" if "c \<in> set ?cs" for c
  proof -
    have "unat (ct_amount c) \<in> set (map (\<lambda>c. unat (ct_amount c)) ?cs)" using that by simp
    then have "unat (ct_amount c) \<le> unat (total_contributed info)"
      using member_le_sum_list [of "unat (ct_amount c)" "map (\<lambda>c. unat (ct_amount c)) ?cs"] ok
      by (simp add: stake_ok_def)
    then show ?thesis using stake_ok_bounds [OF ok] by (simp add: word_le_nat_alt)
  qed
  have "sum_list (map (\<lambda>p. unat (pay_portions p)) (map (winner_payout info) ?cs)) =
      sum_list (map (\<lambda>c. unat (ct_amount c) * ?rem div ?R +
        (if ct_address c = operator_address info then unat (portions_for_operator info) else 0)) ?cs)"
    unfolding map_map comp_def
    by (intro arg_cong [where f = sum_list] map_cong refl winner_payout_portions each req op)
  also have "\<dots> = sum_list (map (\<lambda>c. unat (ct_amount c) * ?rem div ?R) ?cs) +
      sum_list (map (\<lambda>c. if ct_address c = operator_address info then unat (portions_for_operator info) else 0) ?cs)"
    by (rule sum_list_addf)
  also have "\<dots> \<le> unat (total_contributed info) * ?rem div ?R + unat (portions_for_operator info)"
    using sum_div_le [of "\<lambda>c. unat (ct_amount c)" ?rem ?R ?cs] ok
    by (intro add_mono sum_once) (simp_all add: stake_ok_def)
  also have "\<dots> \<le> ?R * ?rem div ?R + unat (portions_for_operator info)"
    using stake_ok_bounds [OF ok] by (intro add_mono div_le_mono mult_le_mono1) (simp_all add: word_le_nat_alt)
  also have "\<dots> = ?rem + unat (portions_for_operator info)" using req by simp
  also have "\<dots> = unat STAKING_PORTIONS" using op by (simp add: unat_sub_no_wrap word_le_nat_alt)
  finally show ?thesis .
qed

section \<open>Quorum selection\<close>

lemma nodes_at_ret:
  "\<forall>j \<in> set js. j < length infos \<Longrightarrow> nodes_at infos js = ret (map (\<lambda>j. fst (infos ! j)) js)"
  by (induction js) (simp_all add: node_at_def)

lemma shuffle_permutes:
  assumes "fair_generator G" and "length xs < 2 ^ 63"
  obtains ys where "shuffle_portable G seed xs = Some ys" "mset ys = mset xs"
proof -
  have "length xs < 2 ^ 64" using assms(2) by simp
  then show thesis
    using shuffle_portable_returns [OF assms(1)] shuffle_portable_mset that by blast
qed

lemma shuffled_indexes:
  assumes "fair_generator G" and "n < 2 ^ 63" and "sub \<le> up_to" "up_to \<le> n"
  shows "\<exists>ixs. generate_shuffled_service_node_index_list G n h type sub up_to = ret ixs \<and>
    mset ixs = mset [0 ..< n] \<and> (0 < sub \<longrightarrow> set (take sub ixs) \<subseteq> {..< up_to})"
proof (cases "0 < sub \<and> sub < n \<and> 0 < up_to \<and> up_to < n")
  case True
  define seed where "seed = hash_limb h 0 + ucast (quorum_type_value type)"
  have "length [0 ..< up_to] < 2 ^ 63" using assms(2,4) by simp
  from shuffle_permutes [OF assms(1) this] obtain front where
    f: "shuffle_portable G seed [0 ..< up_to] = Some front" and mf: "mset front = mset [0 ..< up_to]" .
  have lf: "length front = up_to" using mset_eq_length [OF mf] by simp
  let ?l = "front @ [up_to ..< n]"
  have "length (drop sub ?l) < 2 ^ 63" using lf assms(2,4) by simp
  from shuffle_permutes [OF assms(1) this] obtain rest where
    b: "shuffle_portable G seed (drop sub ?l) = Some rest" and mb: "mset rest = mset (drop sub ?l)" .
  have 1: "generate_shuffled_service_node_index_list G n h type sub up_to = ret (take sub ?l @ rest)"
    using True assms(3,4) lf f b
    by (simp add: generate_shuffled_service_node_index_list_def seed_def [symmetric] Let_def)
  have "mset (take sub ?l @ rest) = mset (take sub ?l @ drop sub ?l)" by (simp only: mset_append mb)
  also have "\<dots> = mset ([0 ..< up_to] @ [up_to ..< n])" by (simp only: append_take_drop_id mset_append mf)
  also have "[0 ..< up_to] @ [up_to ..< n] = [0 ..< n]"
    using upt_add_eq_append [of 0 up_to "n - up_to"] assms(4) by simp
  finally have 2: "mset (take sub ?l @ rest) = mset [0 ..< n]" .
  have "take sub (take sub ?l @ rest) = take sub front" using lf assms(3) by simp
  moreover have "set (take sub front) \<subseteq> {..< up_to}"
    using set_take_subset [of sub front] mset_eq_setD [OF mf] by auto
  ultimately have "set (take sub (take sub ?l @ rest)) \<subseteq> {..< up_to}" by (simp only:)
  with 1 2 show ?thesis by blast
next
  case False
  define seed where "seed = hash_limb h 0 + ucast (quorum_type_value type)"
  have "length [0 ..< n] < 2 ^ 63" using assms(2) by simp
  from shuffle_permutes [OF assms(1) this] obtain xs where
    x: "shuffle_portable G seed [0 ..< n] = Some xs" and m: "mset xs = mset [0 ..< n]" .
  have "generate_shuffled_service_node_index_list G n h type sub up_to = ret xs"
    unfolding generate_shuffled_service_node_index_list_def seed_def [symmetric] Let_def
    using False x by auto
  moreover have "set (take sub xs) \<subseteq> {..< up_to}" if "0 < sub"
  proof -
    have "up_to = n" using False that assms(3,4) by auto
    then show ?thesis using set_take_subset [of sub xs] mset_eq_setD [OF m] by auto
  qed
  ultimately show ?thesis using m by blast
qed

text \<open>
  A quorum of \<open>nv\<close> validators and \<open>nw\<close> workers: no node occurs twice, validators are active nodes
  and workers active or decommissioned ones.
\<close>

definition good_quorum :: "public_key list \<Rightarrow> public_key list \<Rightarrow> nat \<Rightarrow> nat \<Rightarrow> quorum \<Rightarrow> bool" where
  "good_quorum active all nv nw q \<longleftrightarrow>
     distinct (validators q @ workers q) \<and> set (validators q) \<subseteq> set active \<and> set (workers q) \<subseteq> set all \<and>
     length (validators q) = nv \<and> length (workers q) = nw"

lemma nth_fst_inj:
  assumes "distinct (map fst xs)"
  shows "inj_on (\<lambda>j. fst (xs ! j)) {..< length xs}"
  using assms by (auto simp: inj_on_def distinct_conv_nth)

lemma fill_quorum_good:
  assumes m: "mset ixs = mset [0 ..< n]" and n: "n \<le> length (active @ decomm)" and nn: "nv + nw \<le> n"
    and front: "set (take nv ixs) \<subseteq> {..< length active}" and d: "distinct (map fst (active @ decomm))"
  shows "\<exists>q. fill_quorum active decomm ixs nv nw = ret q \<and>
           good_quorum (map fst active) (map fst (active @ decomm)) nv nw q"
proof -
  define all where "all = active @ decomm"
  define g where "g = (\<lambda>j. fst (all ! j))"
  define v w where "v = take nv ixs" and "w = take nw (drop nv ixs)"
  have len: "length ixs = n" using mset_eq_length [OF m] by simp
  have ix: "set ixs = {..< n}" using mset_eq_setD [OF m] by (simp only: set_upt atLeast0LessThan)
  have dix: "distinct ixs" using mset_eq_imp_distinct_iff [OF m] by simp
  have small: "set ixs \<subseteq> {..< length all}" using ix n by (auto simp: all_def)
  have vw: "v @ w = take (nv + nw) ixs" by (simp add: v_def w_def take_add)
  have sub: "set (v @ w) \<subseteq> {..< length all}"
    unfolding vw using set_take_subset small by (rule order_trans)
  have g_front: "fst (active ! j) = g j" if "j \<in> set v" for j
  proof -
    have "j < length active" using that front unfolding v_def by blast
    then show ?thesis by (simp add: g_def all_def nth_append)
  qed
  have "nodes_at active v = ret (map (\<lambda>j. fst (active ! j)) v)"
    using front unfolding v_def by (intro nodes_at_ret) blast
  moreover have "map (\<lambda>j. fst (active ! j)) v = map g v" by (rule map_cong [OF refl g_front])
  ultimately have vs: "nodes_at active v = ret (map g v)" by (simp only:)
  have ws: "nodes_at all w = ret (map g w)"
    unfolding g_def using sub by (intro nodes_at_ret) auto
  have "distinct (map g (v @ w))"
    unfolding distinct_map
    using inj_on_subset [OF nth_fst_inj [OF d, folded all_def, folded g_def] sub] dix
    by (simp add: vw)
  moreover have "set (map g v) \<subseteq> set (map fst active)"
  proof
    fix k assume "k \<in> set (map g v)"
    then obtain j where j: "j \<in> set v" "k = fst (active ! j)" using g_front by auto
    then have "j < length active" using front unfolding v_def by blast
    then show "k \<in> set (map fst active)" using j(2) by simp
  qed
  moreover have "set (map g w) \<subseteq> set (map fst all)"
    using sub by (auto simp: g_def)
  moreover have "length v = nv" "length w = nw" using len nn by (simp_all add: v_def w_def)
  ultimately show ?thesis
    unfolding fill_quorum_def v_def [symmetric] w_def [symmetric] all_def [symmetric] vs rbind_ret ws
    by (simp add: good_quorum_def)
qed

lemma set_sort_and_filter: "set (sort_and_filter p infos) = {(k, i) \<in> set infos. p i}"
  by (auto simp: sort_and_filter_def)

lemma distinct_sort_and_filter:
  assumes "distinct (map fst infos)"
  shows "distinct (map fst (sort_and_filter p infos))"
proof -
  have d: "distinct (map fst (filter (\<lambda>(k, i). p i) infos))" by (rule distinct_map_filter [OF assms])
  have m: "mset (map fst (sort_and_filter p infos)) = mset (map fst (filter (\<lambda>(k, i). p i) infos))"
    by (simp add: sort_and_filter_def)
  show ?thesis using mset_eq_imp_distinct_iff [OF m] d by blast
qed

lemma distinct_active_decommissioned:
  assumes "um_wf (infos_of st)"
  shows "distinct (map fst (active_service_nodes_infos st @ decommissioned_service_nodes_infos st))"
proof -
  have d: "distinct (map fst (infos_of st))" using assms by (simp add: um_wf_def keys_of_def)
  have "k \<notin> fst ` set (decommissioned_service_nodes_infos st)" if "k \<in> fst ` set (active_service_nodes_infos st)" for k
  proof
    assume "k \<in> fst ` set (decommissioned_service_nodes_infos st)"
    then obtain j where j: "(k, j) \<in> set (infos_of st)" "is_decommissioned j"
      unfolding decommissioned_service_nodes_infos_def set_sort_and_filter by auto
    from that obtain i where i: "(k, i) \<in> set (infos_of st)" "is_active i"
      unfolding active_service_nodes_infos_def set_sort_and_filter by auto
    have "i = j" by (rule eq_key_imp_eq_value [OF d i(1) j(1)])
    then show False using i(2) j(2) by (simp add: is_active_def)
  qed
  then have "set (map fst (active_service_nodes_infos st)) \<inter> set (map fst (decommissioned_service_nodes_infos st)) = {}"
    unfolding set_map by blast
  then show ?thesis
    unfolding map_append distinct_append active_service_nodes_infos_def decommissioned_service_nodes_infos_def
    by (intro conjI distinct_sort_and_filter d)
qed

definition obligations_workers :: "nat \<Rightarrow> nat \<Rightarrow> nat" where
  "obligations_workers num_active num_all =
     (let remaining = num_all - min num_active STATE_CHANGE_QUORUM_SIZE
      in min remaining (max STATE_CHANGE_MIN_NODES_TO_TEST (remaining div STATE_CHANGE_NTH_OF_THE_NETWORK_TO_TEST)))"

lemma obligations_quorum_good:
  assumes "fair_generator (rng (ne_swarm N))" and d: "distinct (map fst (active @ decomm))"
    and "length (active @ decomm) < 2 ^ 63"
  shows "\<exists>q. generate_obligations_quorum N active decomm h = ret q \<and>
     good_quorum (map fst active) (map fst (active @ decomm)) (min (length active) STATE_CHANGE_QUORUM_SIZE)
       (obligations_workers (length active) (length (active @ decomm))) q"
proof -
  define nv where "nv = min (length active) STATE_CHANGE_QUORUM_SIZE"
  define nw where "nw = obligations_workers (length active) (length (active @ decomm))"
  have nv: "nv \<le> length active" by (simp add: nv_def)
  from shuffled_indexes [OF assms(1), of "length (active @ decomm)" nv "length active" h obligations] obtain ixs where
    ixs: "generate_shuffled_service_node_index_list (rng (ne_swarm N)) (length (active @ decomm)) h obligations nv
      (length active) = ret ixs" "mset ixs = mset [0 ..< length (active @ decomm)]"
      "0 < nv \<longrightarrow> set (take nv ixs) \<subseteq> {..< length active}"
    using assms(3) nv by auto
  have "set (take nv ixs) \<subseteq> {..< length active}" using ixs(3) by (cases "nv = 0") auto
  moreover have "nv + nw \<le> length (active @ decomm)"
    using nv unfolding nw_def obligations_workers_def nv_def [symmetric] Let_def by simp
  ultimately obtain q where "fill_quorum active decomm ixs nv nw = ret q"
      "good_quorum (map fst active) (map fst (active @ decomm)) nv nw q"
    using fill_quorum_good [OF ixs(2) order_refl _ _ d] by blast
  then show ?thesis
    unfolding generate_obligations_quorum_def Let_def nv_def [symmetric] nw_def [symmetric]
    using ixs(1) by (simp add: nw_def nv_def obligations_workers_def Let_def)
qed

text \<open>The quorums of validators only: drawn from \<open>active\<close>, with at most \<open>size\<close> members.\<close>

lemma validator_quorum_good:
  assumes "fair_generator (rng (ne_swarm N))" and d: "distinct (map fst active)" and "length active < 2 ^ 63"
  shows "\<exists>q. rbind (generate_shuffled_service_node_index_list (rng (ne_swarm N)) (length active) h type 0 0) (\<lambda>indexes.
      rbind (fill_quorum active decomm indexes (min (length indexes) sz) 0) (\<lambda>q. ret (Some q))) = ret (Some q) \<and>
     good_quorum (map fst active) [] (min (length active) sz) 0 q"
proof -
  from shuffled_indexes [OF assms(1,3), of 0 0 h type] obtain ixs where
    ixs: "generate_shuffled_service_node_index_list (rng (ne_swarm N)) (length active) h type 0 0 = ret ixs"
    "mset ixs = mset [0 ..< length active]" by auto
  have len: "length ixs = length active" using mset_eq_length [OF ixs(2)] by simp
  have "set ixs = {..< length active}" using mset_eq_setD [OF ixs(2)] by (simp only: set_upt atLeast0LessThan)
  then have "set (take (min (length active) sz) ixs) \<subseteq> {..< length active}"
    using set_take_subset [of "min (length active) sz" ixs] by simp
  from fill_quorum_good [OF ixs(2), of active "[]" "min (length active) sz" 0] this d obtain q where
    q: "fill_quorum active [] ixs (min (length active) sz) 0 = ret q"
    "good_quorum (map fst active) (map fst (active @ [])) (min (length active) sz) 0 q" by auto
  have "fill_quorum active decomm ixs n 0 = fill_quorum active [] ixs n 0" for n
    by (simp add: fill_quorum_def)
  then show ?thesis using q ixs(1) len by (simp add: good_quorum_def)
qed

definition all_candidates :: "u8 \<Rightarrow> state_t \<Rightarrow> public_key list" where
  "all_candidates hf_version st = map fst (active_service_nodes_infos st @
     (if network_version_12_checkpointing \<le> hf_version then decommissioned_service_nodes_infos st else []))"

lemma length_active_decommissioned:
  assumes "um_wf (infos_of st)"
  shows "length (active_service_nodes_infos st @ decommissioned_service_nodes_infos st) \<le> length (infos_of st)"
proof -
  let ?l = "active_service_nodes_infos st @ decommissioned_service_nodes_infos st"
  have "set (map fst ?l) \<subseteq> set (map fst (infos_of st))"
    by (auto simp: active_service_nodes_infos_def decommissioned_service_nodes_infos_def set_sort_and_filter)
  then have "card (set (map fst ?l)) \<le> card (set (map fst (infos_of st)))" by (intro card_mono) simp_all
  then show ?thesis
    using distinct_card [OF distinct_active_decommissioned [OF assms]] assms
    by (simp add: um_wf_def keys_of_def distinct_card del: set_map)
qed

lemma checkpointing_quorum_good:
  assumes "fair_generator (rng (ne_swarm N))" and "distinct (map fst active)" and "length active < 2 ^ 63"
    and "\<not> (ne_nettype N = TESTNET \<and> height < 85357)"
  shows "\<exists>qo. generate_checkpointing_quorum N active decomm h height = ret qo \<and>
     (\<forall>q. qo = Some q \<longrightarrow> good_quorum (map fst active) [] (length (validators q)) 0 q \<and>
        length (validators q) \<in> {0, CHECKPOINT_QUORUM_SIZE})"
proof -
  have t: "(if ne_nettype N = TESTNET \<and> height < 85357 then length active + length decomm else length active) =
      length active" using assms(4) by (simp only: if_False)
  obtain q where q: "rbind (generate_shuffled_service_node_index_list (rng (ne_swarm N)) (length active) h checkpointing 0 0)
      (\<lambda>indexes. rbind (fill_quorum active decomm indexes (min (length indexes) CHECKPOINT_QUORUM_SIZE) 0)
        (\<lambda>q. ret (Some q))) = ret (Some q)"
      "good_quorum (map fst active) [] (min (length active) CHECKPOINT_QUORUM_SIZE) 0 q"
    using validator_quorum_good [OF assms(1-3)] by blast
  have "length (validators q) = min (length active) CHECKPOINT_QUORUM_SIZE" using q(2) by (simp add: good_quorum_def)
  then show ?thesis
    using q unfolding generate_checkpointing_quorum_def t Let_def by (auto simp: good_quorum_def)
qed

lemma blink_quorum_good:
  fixes N :: "'g node_env"
  assumes "fair_generator (rng (ne_swarm N))" and "distinct (map fst active)" and "length active < 2 ^ 63"
  shows "\<exists>qo. generate_blink_quorum N active decomm h height = ret qo \<and>
     (\<forall>q. qo = Some q \<longrightarrow> good_quorum
         (map fst (filter (\<lambda>(k, info). blink_eligible (height + BLINK_EXPIRY_BUFFER) info) active)) []
         (length (validators q)) 0 q \<and>
       (validators q = [] \<or> (BLINK_MIN_VOTES \<le> length (validators q) \<and> length (validators q) \<le> BLINK_SUBQUORUM_SIZE)))"
proof -
  define el where "el = filter (\<lambda>(k, info). blink_eligible (height + BLINK_EXPIRY_BUFFER) info) active"
  have "distinct (map fst el)" unfolding el_def by (rule distinct_map_filter [OF assms(2)])
  moreover have "length el < 2 ^ 63" using length_filter_le assms(3) unfolding el_def by (rule le_less_trans)
  ultimately obtain q where q: "rbind (generate_shuffled_service_node_index_list (rng (ne_swarm N)) (length el) h blink 0 0)
      (\<lambda>indexes. rbind (fill_quorum el decomm indexes (min (length indexes) BLINK_SUBQUORUM_SIZE) 0)
        (\<lambda>q. ret (Some q))) = ret (Some q)"
      "good_quorum (map fst el) [] (min (length el) BLINK_SUBQUORUM_SIZE) 0 q"
    using validator_quorum_good [OF assms(1)] by blast
  have len: "length (validators q) = min (length el) BLINK_SUBQUORUM_SIZE" using q(2) by (simp add: good_quorum_def)
  have "BLINK_MIN_VOTES \<le> BLINK_SUBQUORUM_SIZE" by (simp add: const_defs)
  then show ?thesis
    unfolding generate_blink_quorum_def Let_def el_def [symmetric]
    using q len by (auto simp: good_quorum_def)
qed

lemma generate_quorums_good:
  fixes N :: "'g node_env"
  assumes "fair_generator (rng (ne_swarm N))" and wf: "um_wf (infos_of st)" and "length (infos_of st) < 2 ^ 63"
    and "\<not> (ne_nettype N = TESTNET \<and> st_height st < 85357)"
  defines "active \<equiv> active_service_nodes_infos st"
  shows "\<exists>qs ob. generate_quorums N hf st = ret qs \<and> qm_obligations qs = Some ob \<and>
     good_quorum (map fst active) (all_candidates hf st) (min (length active) STATE_CHANGE_QUORUM_SIZE)
       (obligations_workers (length active) (length (all_candidates hf st))) ob \<and>
     (\<forall>q. qm_checkpointing qs = Some q \<longrightarrow> good_quorum (map fst active) [] (length (validators q)) 0 q \<and>
        length (validators q) \<in> {0, CHECKPOINT_QUORUM_SIZE}) \<and>
     (\<forall>q. qm_blink qs = Some q \<longrightarrow> good_quorum
         (map fst (filter (\<lambda>(k, info). blink_eligible (st_height st + BLINK_EXPIRY_BUFFER) info) active)) []
         (length (validators q)) 0 q \<and>
       (validators q = [] \<or> (BLINK_MIN_VOTES \<le> length (validators q) \<and> length (validators q) \<le> BLINK_SUBQUORUM_SIZE)))"
proof -
  define decomm where "decomm = (if network_version_12_checkpointing \<le> hf then decommissioned_service_nodes_infos st else [])"
  have d: "distinct (map fst (active @ decomm))" and da: "distinct (map fst active)"
    using distinct_active_decommissioned [OF wf] by (auto simp: decomm_def active_def)
  have l: "length (active @ decomm) < 2 ^ 63" and la: "length active < 2 ^ 63"
    using length_active_decommissioned [OF wf] assms(3) by (auto simp: decomm_def active_def)
  have all: "all_candidates hf st = map fst (active @ decomm)" by (simp add: all_candidates_def decomm_def active_def)
  from obligations_quorum_good [OF assms(1) d l] obtain ob where
    ob: "generate_obligations_quorum N active decomm (st_block_hash st) = ret ob"
    "good_quorum (map fst active) (map fst (active @ decomm)) (min (length active) STATE_CHANGE_QUORUM_SIZE)
       (obligations_workers (length active) (length (active @ decomm))) ob" by blast
  from checkpointing_quorum_good [OF assms(1) da la assms(4)] obtain cp where
    cp: "generate_checkpointing_quorum N active decomm (st_block_hash st) (st_height st) = ret cp"
    "\<forall>q. cp = Some q \<longrightarrow> good_quorum (map fst active) [] (length (validators q)) 0 q \<and>
        length (validators q) \<in> {0, CHECKPOINT_QUORUM_SIZE}" by blast
  from blink_quorum_good [OF assms(1) da la] obtain bl where
    bl: "generate_blink_quorum N active decomm (st_block_hash st) (st_height st) = ret bl"
    "\<forall>q. bl = Some q \<longrightarrow> good_quorum
         (map fst (filter (\<lambda>(k, info). blink_eligible (st_height st + BLINK_EXPIRY_BUFFER) info) active)) []
         (length (validators q)) 0 q \<and>
       (validators q = [] \<or> (BLINK_MIN_VOTES \<le> length (validators q) \<and> length (validators q) \<le> BLINK_SUBQUORUM_SIZE))"
    by blast
  let ?t = "quorum_type_value (max_quorum_type_for_hf hf)"
  have "generate_quorums N hf st = ret \<lparr>qm_obligations = Some ob,
      qm_checkpointing = (if 1 \<le> ?t then cp else None), qm_blink = (if 2 \<le> ?t then bl else None)\<rparr>"
    unfolding generate_quorums_def Let_def active_def [symmetric] decomm_def [symmetric] ob(1) cp(1) bl(1) rbind_ret
    by simp
  then show ?thesis using ob(2) cp(2) bl(2) all by (simp split: if_splits)
qed

end
