(* ===== verification/Block_Update.thy ===== *)
theory Block_Update
  imports Node_State
begin

text \<open>
  What \<^verbatim>\<open>update_from_block\<close> keeps and establishes: swarm updates change nothing but swarm ids and put
  every active node in a swarm, and every step of a block keeps the invariant of the node infos.
\<close>

section \<open>Swarm updates\<close>

lemma add_to_swarm_nodes:
  assumes "om_wf m"
  shows "om_wf (add_to_swarm e m) \<and> swarm_nodes (add_to_swarm e m) = add_mset (fst e) (swarm_nodes m)"
proof -
  obtain k i where e: "e = (k, i)" by fastforce
  let ?s = "sni_swarm_id i"
  show ?thesis
  proof (cases "map_of m ?s")
    case None
    then have "?s \<notin> set (keys_of m)" by (simp add: om.find_none_iff)
    then show ?thesis
      using assms None mset_om_assign [of ?s m "[k]"] om.wf_put [OF assms]
      by (simp add: add_to_swarm_def e swarm_nodes_mset)
  next
    case (Some ks)
    have "mset (om_assign_key ?s (ks @ [k]) m) = add_mset (?s, ks @ [k]) (mset (erase_key ?s m))"
    proof -
      have wf: "om_wf (om_assign_key ?s (ks @ [k]) m)" by (rule om.wf_put [OF assms])
      have "map_of (om_assign_key ?s (ks @ [k]) m) ?s = Some (ks @ [k])"
        using om.find_put [OF assms] by simp
      moreover have "erase_key ?s (om_assign_key ?s v m) = erase_key ?s m" for v
        by (induction ?s v m rule: om_assign_key.induct) (auto simp: erase_key_def)
      ultimately show ?thesis using om.erase_split [OF wf, of ?s "ks @ [k]"] by simp
    qed
    then show ?thesis
      using assms Some om.wf_put [OF assms] swarm_nodes_split [OF assms Some]
      by (simp add: add_to_swarm_def e swarm_nodes_mset)
  qed
qed

lemma fold_add_to_swarm:
  "om_wf m \<Longrightarrow> om_wf (fold add_to_swarm es m) \<and> swarm_nodes (fold add_to_swarm es m) = mset (map fst es) + swarm_nodes m"
proof (induction es arbitrary: m)
  case (Cons e es)
  note step = add_to_swarm_nodes [OF Cons.prems, of e]
  show ?case using Cons.IH [OF conjunct1 [OF step]] conjunct2 [OF step] by simp
qed simp

lemma existing_swarms_nodes:
  "om_wf (existing_swarms st) \<and> mset (concat (map snd (existing_swarms st))) = mset (map fst (active_service_nodes_infos st))"
  using fold_add_to_swarm [of "[]" "active_service_nodes_infos st"]
  by (simp add: existing_swarms_def swarm_nodes_def om_wf_def keys_of_def)

lemma set_info_lookup:
  "map_of (infos_of (set_info key info st)) k =
     (if k = key then map_option (\<lambda>_. info) (map_of (infos_of st) key) else map_of (infos_of st) k)"
  by (simp add: set_info_def um.find_modify)

lemma apply_swarm_ids_spec:
  assumes "distinct (map snd ps)" and "\<forall>p \<in> set ps. map_of (infos_of st) (snd p) \<noteq> None"
  shows "\<exists>st'. apply_swarm_ids ps st = ret st' \<and>
     (\<forall>p \<in> set ps. map_of (infos_of st') (snd p) =
        map_option (\<lambda>i. i\<lparr>sni_swarm_id := fst p\<rparr>) (map_of (infos_of st) (snd p))) \<and>
     (\<forall>k. k \<notin> snd ` set ps \<longrightarrow> map_of (infos_of st') k = map_of (infos_of st) k)"
  using assms
proof (induction ps arbitrary: st)
  case Nil
  then show ?case by simp
next
  case (Cons p ps)
  obtain s k where p: "p = (s, k)" by fastforce
  obtain info where info: "map_of (infos_of st) k = Some info" using Cons.prems(2) by (auto simp: p)
  define st1 where "st1 = (if sni_swarm_id info = s then st else set_info k (info\<lparr>sni_swarm_id := s\<rparr>) st)"
  have k1: "map_of (infos_of st1) k = Some (info\<lparr>sni_swarm_id := s\<rparr>)"
    and other: "\<And>k'. k' \<noteq> k \<Longrightarrow> map_of (infos_of st1) k' = map_of (infos_of st) k'"
    using info by (auto simp: st1_def set_info_lookup)
  have notin: "k \<notin> snd ` set ps" using Cons.prems(1) by (simp add: p)
  have d: "distinct (map snd ps)" using Cons.prems(1) by simp
  have "map_of (infos_of st1) (snd q) \<noteq> None" if "q \<in> set ps" for q
  proof -
    have "snd q \<noteq> k" using notin that by (metis imageI)
    then show ?thesis using other [of "snd q"] Cons.prems(2) that by simp
  qed
  from Cons.IH [OF d ballI [OF this]] obtain st' where
    st': "apply_swarm_ids ps st1 = ret st'"
    "\<forall>q \<in> set ps. map_of (infos_of st') (snd q) = map_option (\<lambda>i. i\<lparr>sni_swarm_id := fst q\<rparr>) (map_of (infos_of st1) (snd q))"
    "\<forall>k'. k' \<notin> snd ` set ps \<longrightarrow> map_of (infos_of st') k' = map_of (infos_of st1) k'" by blast
  have run: "apply_swarm_ids (p # ps) st = ret st'"
    using st'(1) info by (simp add: p st1_def split: if_splits)
  have here: "map_of (infos_of st') k = Some (info\<lparr>sni_swarm_id := s\<rparr>)" using st'(3) notin k1 by simp
  have there: "map_of (infos_of st') (snd q) = map_option (\<lambda>i. i\<lparr>sni_swarm_id := fst q\<rparr>) (map_of (infos_of st) (snd q))"
    if "q \<in> set ps" for q
  proof -
    have "snd q \<noteq> k" using notin that by (metis imageI)
    then show ?thesis using st'(2) that other [of "snd q"] by simp
  qed
  have "map_of (infos_of st') k' = map_of (infos_of st) k'" if "k' \<notin> snd ` set (p # ps)" for k'
    using that st'(3) other [of k'] by (simp add: p)
  then show ?case using run here there info by (intro exI [of _ st']) (simp add: p)
qed

text \<open>The pairs of swarm ids and nodes of a swarm map.\<close>

definition swarm_pairs :: "swarm_snode_map \<Rightarrow> (swarm_id_t \<times> public_key) list" where
  "swarm_pairs m = concat (map (\<lambda>(i, snodes). map (Pair i) snodes) m)"

lemma swarm_pairs_snd: "map snd (swarm_pairs m) = concat (map snd m)"
  unfolding swarm_pairs_def by (induction m) (auto simp: comp_def)

lemma swarm_pairs_iff: "(i, k) \<in> set (swarm_pairs m) \<longleftrightarrow> (\<exists>ks. (i, ks) \<in> set m \<and> k \<in> set ks)"
  unfolding swarm_pairs_def by force

lemma active_lookup:
  "um_wf (infos_of st) \<Longrightarrow> k \<in> set (map fst (active_service_nodes_infos st)) \<longleftrightarrow>
     (\<exists>i. map_of (infos_of st) k = Some i \<and> is_active i)"
  using um.find_some_iff [of "infos_of st" k]
  by (auto simp: active_service_nodes_infos_def set_sort_and_filter image_iff)

definition swarm_members :: "state_t \<Rightarrow> swarm_id_t \<Rightarrow> public_key set" where
  "swarm_members st s = {k. \<exists>i. map_of (infos_of st) k = Some i \<and> is_active i \<and> sni_swarm_id i = s}"

lemma finite_swarm_members: "finite (swarm_members st s)"
proof (rule finite_subset)
  show "swarm_members st s \<subseteq> dom (map_of (infos_of st))" by (auto simp: swarm_members_def)
qed (rule finite_dom_map_of)

lemma is_active_swarm: "is_active (i\<lparr>sni_swarm_id := s\<rparr>) = is_active i"
  by (simp add: is_active_def is_fully_funded_def is_decommissioned_def)

text \<open>What a swarm update does to the state: only swarm ids of active nodes change.\<close>

definition swarms_assigned :: "state_t \<Rightarrow> state_t \<Rightarrow> bool" where
  "swarms_assigned st st' \<longleftrightarrow>
     (\<forall>k. map_of (infos_of st) k = None \<longrightarrow> map_of (infos_of st') k = None) \<and>
     (\<forall>k i. map_of (infos_of st) k = Some i \<longrightarrow> (\<exists>s. map_of (infos_of st') k = Some (i\<lparr>sni_swarm_id := s\<rparr>) \<and>
        (if is_active i then s \<noteq> UNASSIGNED_SWARM_ID \<and> MIN_SWARM_SIZE \<le> card (swarm_members st' s)
         else s = sni_swarm_id i)))"

lemma update_swarms_returns:
  fixes N :: "'g node_env"
  assumes "fair_generator (rng (ne_swarm N))" and "size_sort (sort_sizes (ne_swarm N))"
    and wf: "um_wf (infos_of st)" and "length (infos_of st) < 2 ^ 63"
    and "anchored (erase_key UNASSIGNED_SWARM_ID (existing_swarms st))"
    and "MIN_SWARM_SIZE \<le> length (active_service_nodes_infos st)"
  shows "\<exists>st'. update_swarms N h st = ret st' \<and> swarms_assigned st st'"
proof -
  let ?act = "map fst (active_service_nodes_infos st)" and ?m = "existing_swarms st"
  have owf: "om_wf ?m" and nodes: "mset (concat (map snd ?m)) = mset ?act" using existing_swarms_nodes [of st] by blast+
  have dact: "distinct ?act" using distinct_active_decommissioned [OF wf] by simp
  have d: "distinct (concat (map snd ?m))" using mset_eq_imp_distinct_iff [OF nodes] dact by simp
  have len: "length (concat (map snd ?m)) = length ?act" using mset_eq_length [OF nodes] by simp
  have "length (concat (map snd ?m)) < 2 ^ 63" "MIN_SWARM_SIZE \<le> length (concat (map snd ?m))"
    using len length_active_decommissioned [OF wf] assms(4,6) by simp_all
  from calc_swarm_changes_returns [OF assms(1,2) owf d this(1) assms(5) this(2), of "hash_limb h 0"] obtain m' where
    m': "calc_swarm_changes (ne_swarm N) ?m (hash_limb h 0) = ret m'" "om_wf m'"
    "mset (concat (map snd m')) = mset (concat (map snd ?m))"
    "UNASSIGNED_SWARM_ID \<notin> set (keys_of m')" "\<forall>e \<in> set m'. MIN_SWARM_SIZE \<le> length (snd e)" by blast
  let ?ps = "swarm_pairs m'"
  have mps: "mset (map snd ?ps) = mset ?act" using m'(3) nodes by (simp only: swarm_pairs_snd)
  have dps: "distinct (map snd ?ps)" using mset_eq_imp_distinct_iff [OF mps] dact by simp
  have sps: "snd ` set ?ps = set ?act" using mset_eq_setD [OF mps] by simp
  have "map_of (infos_of st) (snd p) \<noteq> None" if "p \<in> set ?ps" for p
  proof -
    have "snd p \<in> set ?act" using sps that by (metis imageI)
    then show ?thesis unfolding active_lookup [OF wf] by auto
  qed
  from apply_swarm_ids_spec [OF dps ballI [OF this]] obtain st' where
    st': "apply_swarm_ids ?ps st = ret st'"
    "\<forall>p \<in> set ?ps. map_of (infos_of st') (snd p) = map_option (\<lambda>i. i\<lparr>sni_swarm_id := fst p\<rparr>) (map_of (infos_of st) (snd p))"
    "\<forall>k. k \<notin> snd ` set ?ps \<longrightarrow> map_of (infos_of st') k = map_of (infos_of st) k" by blast
  have run: "update_swarms N h st = ret st'"
    using m'(1) st'(1) by (simp add: update_swarms_def lift_swarm_def ret_def swarm_pairs_def rbind_def)
  have inactive: "map_of (infos_of st') k = map_of (infos_of st) k" if "k \<notin> set ?act" for k
    using st'(3) that unfolding sps by blast
  have act: "\<exists>s. map_of (infos_of st') k = Some (i\<lparr>sni_swarm_id := s\<rparr>) \<and>
      s \<noteq> UNASSIGNED_SWARM_ID \<and> MIN_SWARM_SIZE \<le> card (swarm_members st' s)"
    if k: "map_of (infos_of st) k = Some i" "is_active i" for k i
  proof -
    have "k \<in> snd ` set ?ps" unfolding sps active_lookup [OF wf] using k by blast
    then obtain s where s: "(s, k) \<in> set ?ps" by auto
    then obtain ks where ks: "(s, ks) \<in> set m'" "k \<in> set ks" unfolding swarm_pairs_iff by blast
    have "set ks \<subseteq> swarm_members st' s"
    proof
      fix k' assume "k' \<in> set ks"
      then have p: "(s, k') \<in> set ?ps" unfolding swarm_pairs_iff using ks(1) by blast
      then have "k' \<in> set ?act" using sps by (metis imageI snd_conv)
      then obtain j where "map_of (infos_of st) k' = Some j" "is_active j" unfolding active_lookup [OF wf] by blast
      then show "k' \<in> swarm_members st' s" using st'(2) p by (force simp: swarm_members_def is_active_swarm)
    qed
    moreover have "distinct ks"
    proof -
      have "distinct (concat (map snd m'))" using dps by (simp only: swarm_pairs_snd)
      then show ?thesis using ks(1) by (force simp: distinct_concat_iff)
    qed
    ultimately have "length ks \<le> card (swarm_members st' s)"
      using card_mono [OF finite_swarm_members] distinct_card by metis
    moreover have "MIN_SWARM_SIZE \<le> length ks" using m'(5) ks(1) by auto
    moreover have "s \<noteq> UNASSIGNED_SWARM_ID" using m'(4) ks(1) by (force simp: keys_of_def)
    moreover have "map_of (infos_of st') k = Some (i\<lparr>sni_swarm_id := s\<rparr>)" using st'(2) s k(1) by force
    ultimately show ?thesis by (intro exI [of _ s]) simp
  qed
  have "\<exists>s. map_of (infos_of st') k = Some (i\<lparr>sni_swarm_id := s\<rparr>) \<and> s = sni_swarm_id i"
    if "map_of (infos_of st) k = Some i" "\<not> is_active i" for k i
    using inactive [of k] that unfolding active_lookup [OF wf] by auto
  moreover have "map_of (infos_of st') k = None" if "map_of (infos_of st) k = None" for k
    using inactive [of k] that unfolding active_lookup [OF wf] by auto
  ultimately have "swarms_assigned st st'" unfolding swarms_assigned_def using act by metis
  with run show ?thesis by blast
qed

section \<open>The invariant of a block\<close>

text \<open>
  Every node of the state has its stake accounted for, was registered under a hard fork up to \<open>v\<close>,
  and pays its operator at most the whole reward.  Its version is one that stores the hard fork.
\<close>

definition info_inv :: "u8 \<Rightarrow> service_node_info \<Rightarrow> bool" where
  "info_inv v i \<longleftrightarrow> stake_ok i \<and> stake_backed i \<and> registration_hf_version i \<le> v \<and>
     portions_for_operator i \<le> STAKING_PORTIONS \<and> sni_version i \<noteq> v0_checkpointing"

definition node_inv :: "u8 \<Rightarrow> state_t \<Rightarrow> bool" where
  "node_inv v st \<longleftrightarrow> um_wf (infos_of st) \<and> (\<forall>e \<in> set (infos_of st). info_inv v (snd e))"

lemma node_inv_staking: "node_inv v st \<Longrightarrow> staking_state_ok st"
  by (auto simp: node_inv_def staking_state_ok_def info_inv_def)

lemma node_inv_lookup: "node_inv v st \<Longrightarrow> map_of (infos_of st) k = Some i \<Longrightarrow> info_inv v i"
  using map_of_SomeD [of "infos_of st" k i] by (auto simp: node_inv_def)

lemma node_inv_mono: "node_inv v st \<Longrightarrow> v \<le> w \<Longrightarrow> node_inv w st"
  by (auto simp: node_inv_def info_inv_def)

lemma node_inv_erase:
  "node_inv v st \<Longrightarrow> node_inv v (st\<lparr>st_service_nodes_infos := erase_key k (infos_of st)\<rparr>)"
  using um.wf_erase [of "infos_of st" k] by (auto simp: node_inv_def erase_key_def)

lemma node_inv_assign:
  assumes "node_inv v st" "info_inv v info"
  shows "node_inv v (st\<lparr>st_service_nodes_infos := um_assign_key key info (infos_of st)\<rparr>)"
proof -
  have "e \<in> set (um_assign_key key info m) \<Longrightarrow> e = (key, info) \<or> e \<in> set m" for e m
    by (induction key info m rule: um_assign_key.induct) (auto split: if_splits)
  then show ?thesis using assms by (fastforce simp: node_inv_def um_wf_assign)
qed

lemma node_inv_set_info:
  assumes "node_inv v st" "info_inv v info"
  shows "node_inv v (set_info key info st)"
proof -
  have "e \<in> set (modify_key key (\<lambda>_. info) m) \<Longrightarrow> snd e = info \<or> e \<in> set m" for e m
    by (auto simp: modify_key_def split: if_splits)
  then show ?thesis using assms um.wf_modify [of "infos_of st"] by (fastforce simp: node_inv_def set_info_def)
qed

lemma node_inv_fields:
  "infos_of st' = infos_of st \<Longrightarrow> node_inv v st' = node_inv v st"
  by (simp add: node_inv_def)

text \<open>Only these fields of an info matter for its invariant.\<close>

lemma info_inv_cong:
  assumes "info_inv v i" "contributors j = contributors i" "total_contributed j = total_contributed i"
    "total_reserved j = total_reserved i" "staking_requirement j = staking_requirement i"
    "registration_hf_version j = registration_hf_version i" "portions_for_operator j = portions_for_operator i"
    "sni_version j = sni_version i"
  shows "info_inv v j"
  using assms by (simp add: info_inv_def stake_ok_def stake_backed_def total_num_locked_contributions_def)

lemma add_contribution_operator:
  "portions_for_operator (add_contribution hf h idx parsed info) = portions_for_operator info"
  "sni_version (add_contribution hf h idx parsed info) = sni_version info"
  by (simp_all add: add_contribution_def Let_def activate_if_funded_def)

lemma node_inv_contribution:
  assumes "node_inv v st" "blk_major_version blk = v"
  shows "node_inv v (snd (process_contribution_tx E blk tx idx st))"
proof (cases rule: process_contribution_cases [of E blk tx idx st])
  case rejected
  then show ?thesis using assms(1) by simp
next
  case (accepted pubkey parsed info)
  let ?i = "add_contribution (blk_major_version blk) (get_block_height blk) idx parsed info"
  have inv: "info_inv v info" by (rule node_inv_lookup [OF assms(1) accepted(2)])
  have "stake_ok ?i" using add_contribution_ok accepted(4) inv unfolding info_inv_def by blast
  moreover have "stake_backed ?i"
    using inv assms(2) add_contribution_backed [of info] get_contribution_backed [OF accepted(1)]
    unfolding info_inv_def by (meson order_trans)
  moreover have "registration_hf_version ?i = registration_hf_version info"
    using add_contribution_fields [of "blk_major_version blk" "get_block_height blk" idx parsed info] by simp
  ultimately have "info_inv v ?i" using inv by (simp add: info_inv_def add_contribution_operator)
  from node_inv_set_info [OF assms(1) this, of pubkey] show ?thesis
    by (simp add: accepted(5) set_info_def)
qed

lemma registration_inv:
  assumes "is_registration_tx E hf tx ts h idx default_info = Some (key, info)"
  shows "info_inv hf info"
proof -
  obtain r where r: "reg_tx_extract_fields tx = Some r" "rf_portions_for_operator r \<le> STAKING_PORTIONS"
    using assms by (rule is_registration_txE)
  show ?thesis
    using registration_ok [OF assms] is_registration_tx_info [OF assms r(1)] r(2)
    by (simp add: info_inv_def registered_info_def get_min_service_node_info_version_for_hf_def)
qed

lemma node_inv_registration:
  assumes "node_inv v st" "blk_major_version blk = v"
  shows "node_inv v (snd (snd (process_registration_tx E resc blk tx idx (proofs, st))))"
proof (cases "is_registration_tx E (blk_major_version blk) tx (blk_timestamp blk) (get_block_height blk) idx default_info")
  case None
  then show ?thesis using assms by (simp add: process_registration_tx_def)
next
  case (Some ki)
  obtain key info where ki: "ki = (key, info)" by fastforce
  have inv: "info_inv v info" using registration_inv Some ki assms(2) by blast
  have "info_inv v (info\<lparr>last_reward_block_height := h, last_reward_transaction_index := i\<rparr>)" for h i
    by (rule info_inv_cong [OF inv]) simp_all
  then show ?thesis
    using assms(1) node_inv_assign [OF assms(1) inv, of key] node_inv_assign [OF assms(1), where key = key]
    by (simp add: process_registration_tx_def Some ki Let_def split: option.split)
qed

text \<open>What the steps within a block leave as it is.\<close>

definition block_meta :: "state_t \<Rightarrow> u64 \<times> hash256 \<times> bool" where
  "block_meta st = (st_height st, st_block_hash st, st_only_loaded_quorums st)"

lemma block_meta_simps [simp]:
  "block_meta (st\<lparr>st_service_nodes_infos := x\<rparr>) = block_meta st"
  "block_meta (st\<lparr>st_key_image_blacklist := y\<rparr>) = block_meta st"
  "block_meta (st\<lparr>st_quorums := z\<rparr>) = block_meta st"
  "block_meta (set_info k i st) = block_meta st"
  by (simp_all add: block_meta_def set_info_def)

lemma apply_state_change_inv:
  assumes "node_inv v st" "info_inv v info"
  shows "node_inv v (snd (snd (apply_state_change nettype resc blk state key info (proofs, st)))) \<and>
         block_meta (snd (snd (apply_state_change nettype resc blk state key info (proofs, st)))) = block_meta st"
proof -
  have "node_inv v (st\<lparr>st_key_image_blacklist := b, st_service_nodes_infos := erase_key key (infos_of st)\<rparr>)" for b
    using node_inv_erase [OF assms(1), of key] by (simp add: node_inv_def)
  then show ?thesis
    using assms(1)
    by (auto simp: apply_state_change_def Let_def
          intro!: node_inv_set_info node_inv_erase info_inv_cong [OF assms(2)] split: new_state.split)
qed

lemma process_state_change_result:
  assumes run: "process_state_change_tx N resc hist arch alts blk tx (proofs, st) = ret r"
  shows "r = (False, proofs, st) \<or>
    (\<exists>sc qs q key info. tx_type tx = tx_state_change \<and>
       get_service_node_state_change_from_tx_extra (tx_extra tx) (blk_major_version blk) = Some sc \<and>
       state_change_quorums (ne_crypto N) hist arch alts (get_block_height blk) (blk_major_version blk) sc = ret (Some qs) \<and>
       qm_obligations qs = Some q \<and>
       get_pubkey_from_quorum q group_worker (unat (sc_service_node_index sc)) = Some key \<and>
       map_of (infos_of st) key = Some info \<and>
       r = apply_state_change (ne_nettype N) resc blk (sc_state sc) key info (proofs, st))"
proof (cases "tx_type tx = tx_state_change")
  case True
  show ?thesis
  proof (cases "get_service_node_state_change_from_tx_extra (tx_extra tx) (blk_major_version blk)")
    case None
    then show ?thesis using run True by (simp add: process_state_change_tx_def)
  next
    case (Some sc)
    from run [unfolded process_state_change_tx_def Let_def] True Some obtain qo where
      qo: "state_change_quorums (ne_crypto N) hist arch alts (get_block_height blk) (blk_major_version blk) sc = ret qo"
      and rest: "(case qo of None \<Rightarrow> ret (False, proofs, st) | Some qs \<Rightarrow>
         (case qm_obligations qs of None \<Rightarrow> throw null_quorum | Some q \<Rightarrow>
           (case get_pubkey_from_quorum q group_worker (unat (sc_service_node_index sc)) of
              None \<Rightarrow> ret (False, proofs, st)
            | Some key \<Rightarrow> (case map_of (infos_of st) key of None \<Rightarrow> ret (False, proofs, st)
                | Some info \<Rightarrow> ret (apply_state_change (ne_nettype N) resc blk (sc_state sc) key info (proofs, st)))))) = ret r"
      by (auto simp: rbind_eq_ret_iff)
    show ?thesis
      using rest True Some qo by (cases qo) (auto split: option.splits)
  qed
qed (use run in \<open>simp add: process_state_change_tx_def\<close>)

lemma process_state_change_inv:
  assumes "node_inv v st"
    and "process_state_change_tx N resc hist arch alts blk tx (proofs, st) = ret (changed, proofs', st')"
  shows "node_inv v st' \<and> block_meta st' = block_meta st"
  using process_state_change_result [OF assms(2)]
proof (elim disjE exE conjE)
  assume "(changed, proofs', st') = (False, proofs, st)"
  then show ?thesis using assms(1) by simp
next
  fix sc qs q key info
  assume "map_of (infos_of st) key = Some info"
    and r: "(changed, proofs', st') = apply_state_change (ne_nettype N) resc blk (sc_state sc) key info (proofs, st)"
  then show ?thesis
    using apply_state_change_inv [OF assms(1) node_inv_lookup [OF assms(1)], of key info "ne_nettype N" resc blk "sc_state sc" key proofs]
    by (simp add: r [symmetric])
qed

lemma process_unlock_inv:
  assumes "node_inv v st"
  shows "node_inv v (snd (process_key_image_unlock_tx E h tx st)) \<and>
         block_meta (snd (process_key_image_unlock_tx E h tx st)) = block_meta st"
proof -
  have "info_inv v (i\<lparr>requested_unlock_height := u\<rparr>)" if "map_of (infos_of st) k = Some i" for k i u
    by (rule info_inv_cong [OF node_inv_lookup [OF assms that]]) simp_all
  then show ?thesis
    using assms by (auto simp: process_key_image_unlock_tx_def Let_def intro: node_inv_set_info split: option.splits)
qed

lemma expire_nodes_inv:
  "node_inv v (snd acc) \<Longrightarrow> node_inv v (snd (expire_nodes ks acc)) \<and> block_meta (snd (expire_nodes ks acc)) = block_meta (snd acc)"
proof (induction ks acc rule: expire_nodes.induct)
  case (2 pubkey pubkeys b st)
  then show ?case using node_inv_erase [of v st pubkey] by (auto split: option.splits)
qed simp

lemma advance_winner_inv:
  assumes "node_inv v st"
  shows "node_inv v (advance_winner blk st) \<and> block_meta (advance_winner blk st) = block_meta st"
proof -
  have "info_inv v (i\<lparr>last_reward_block_height := a, last_reward_transaction_index := b\<rparr>)"
    if "map_of (infos_of st) k = Some i" for k i a b
    by (rule info_inv_cong [OF node_inv_lookup [OF assms that]]) simp_all
  then show ?thesis
    using assms by (auto simp: advance_winner_def Let_def intro: node_inv_set_info split: option.split)
qed

lemma begin_block_inv:
  assumes "node_inv v st"
  shows "node_inv v (snd (begin_block N blk st)) \<and>
         block_meta (snd (begin_block N blk st)) = (st_height st + 1, blk_hash blk, st_only_loaded_quorums st)"
proof -
  define st1 where "st1 = st\<lparr>st_height := st_height st + 1, st_quorums := empty_quorums, st_block_hash := blk_hash blk,
      st_key_image_blacklist :=
        (if network_version_11_infinite_staking \<le> blk_major_version blk
         then filter (\<lambda>e. get_block_height blk < kb_unlock_height e) (st_key_image_blacklist st)
         else st_key_image_blacklist st)\<rparr>"
  have inv1: "node_inv v st1" using assms by (simp add: st1_def node_inv_def)
  obtain b st2 where st2: "expire_nodes (get_expired_nodes N (blk_major_version blk) (get_block_height blk) st1) (False, st1) = (b, st2)"
    by fastforce
  have inv2: "node_inv v st2" "block_meta st2 = block_meta st1"
    using expire_nodes_inv [of v "(False, st1)"] inv1 st2 by (metis snd_conv)+
  have "begin_block N blk st = (b, advance_winner blk st2)"
    unfolding begin_block_def Let_def st1_def [symmetric] st2 by simp
  then show ?thesis using advance_winner_inv [OF inv2(1)] inv2(2) by (simp add: block_meta_def st1_def)
qed

lemma contribution_meta: "block_meta (snd (process_contribution_tx E blk tx idx st)) = block_meta st"
  by (cases rule: process_contribution_cases [of E blk tx idx st]) simp_all

lemma registration_meta:
  "block_meta (snd (snd (process_registration_tx E resc blk tx idx (proofs, st)))) = block_meta st"
  by (auto simp: process_registration_tx_def Let_def split: option.split prod.split)

lemma process_block_tx_inv:
  assumes inv: "node_inv v st" and v: "blk_major_version blk = v"
    and run: "process_block_tx N resc hist arch alts blk idx tx (b, proofs, st) = ret (b', proofs', st')"
  shows "node_inv v st' \<and> block_meta st' = block_meta st"
proof -
  let ?staking = "if txtype_less (get_max_type_for_hf (blk_major_version blk)) tx_stake then tx_standard else tx_stake"
  consider (stake) "tx_type tx = ?staking" | (change) "tx_type tx \<noteq> ?staking" "tx_type tx = tx_state_change"
    | (unlock) "tx_type tx \<noteq> ?staking" "tx_type tx = tx_key_image_unlock"
    | (other) "tx_type tx \<noteq> ?staking" "tx_type tx \<noteq> tx_state_change" "tx_type tx \<noteq> tx_key_image_unlock" by blast
  then show ?thesis
  proof cases
    case stake
    obtain r proofs1 st1 where reg: "process_registration_tx (ne_chain N) resc blk tx idx (proofs, st) = (r, proofs1, st1)"
      by (metis prod_cases3)
    obtain f st2 where con: "process_contribution_tx (ne_chain N) blk tx idx st1 = (f, st2)" by fastforce
    have "st' = st2" using run stake reg con by (simp add: process_block_tx_def Let_def)
    moreover have "node_inv v st1" "block_meta st1 = block_meta st"
      using node_inv_registration [OF inv v, of "ne_chain N" resc tx idx proofs]
        registration_meta [of "ne_chain N" resc blk tx idx proofs st] reg by simp_all
    ultimately show ?thesis
      using node_inv_contribution [of v st1 blk "ne_chain N" tx idx] contribution_meta [of "ne_chain N" blk tx idx st1] con v
      by simp
  next
    case change
    then obtain c where "process_state_change_tx N resc hist arch alts blk tx (proofs, st) = ret (c, proofs', st')"
      using run by (auto simp: process_block_tx_def Let_def rbind_eq_ret_iff)
    then show ?thesis by (rule process_state_change_inv [OF inv])
  next
    case unlock
    then have "st' = snd (process_key_image_unlock_tx (ne_chain N) (get_block_height blk) tx st)"
      using run by (simp add: process_block_tx_def Let_def)
    then show ?thesis using process_unlock_inv [OF inv] by simp
  next
    case other
    then show ?thesis using run inv by (simp add: process_block_tx_def Let_def)
  qed
qed

lemma process_block_txs_inv:
  assumes "node_inv v st" "blk_major_version blk = v"
    and "process_block_txs N resc hist arch alts blk idx txs (b, proofs, st) = ret (b', proofs', st')"
  shows "node_inv v st' \<and> block_meta st' = block_meta st"
  using assms(1,3)
proof (induction txs arbitrary: idx b proofs st)
  case Nil
  then show ?case by simp
next
  case (Cons tx txs)
  from Cons.prems(2) obtain b1 proofs1 st1 where
    step: "process_block_tx N resc hist arch alts blk idx tx (b, proofs, st) = ret (b1, proofs1, st1)"
    and rest: "process_block_txs N resc hist arch alts blk (idx + 1) txs (b1, proofs1, st1) = ret (b', proofs', st')"
    by (auto simp: rbind_eq_ret_iff)
  from process_block_tx_inv [OF Cons.prems(1) assms(2) step] Cons.IH [OF _ rest] show ?case by simp
qed

lemma apply_swarm_ids_inv:
  "node_inv v st \<Longrightarrow> apply_swarm_ids ps st = ret st' \<Longrightarrow> node_inv v st' \<and> block_meta st' = block_meta st"
proof (induction ps st rule: apply_swarm_ids.induct)
  case (2 s k rest st)
  obtain info where info: "map_of (infos_of st) k = Some info" using "2.prems"(2) by (auto split: option.splits)
  have "info_inv v (info\<lparr>sni_swarm_id := s\<rparr>)"
    by (rule info_inv_cong [OF node_inv_lookup [OF "2.prems"(1) info]]) simp_all
  then have "node_inv v (set_info k (info\<lparr>sni_swarm_id := s\<rparr>) st)" by (rule node_inv_set_info [OF "2.prems"(1)])
  then show ?case
    using "2.IH" [OF info] "2.prems" info by (auto split: if_splits)
qed simp

lemma update_swarms_inv:
  assumes "node_inv v st" "update_swarms N h st = ret st'"
  shows "node_inv v st' \<and> block_meta st' = block_meta st"
  using assms by (auto simp: update_swarms_def rbind_eq_ret_iff dest: apply_swarm_ids_inv)

lemma generate_quorums_obligations: "generate_quorums N hf st = ret qs \<Longrightarrow> qm_obligations qs \<noteq> None"
  by (auto simp: generate_quorums_def Let_def rbind_eq_ret_iff)

lemma update_from_block_inv:
  assumes "node_inv v st" and "v \<le> blk_major_version blk"
    and run: "update_from_block N resc hist arch alts blk txs (proofs, st) = ret (proofs', st')"
  shows "node_inv (blk_major_version blk) st' \<and> st_height st' = st_height st + 1 \<and> st_block_hash st' = blk_hash blk \<and>
     st_only_loaded_quorums st' = st_only_loaded_quorums st \<and> qm_obligations (st_quorums st') \<noteq> None"
proof -
  obtain b st1 where b1: "begin_block N blk st = (b, st1)" by fastforce
  have inv1: "node_inv (blk_major_version blk) st1" "block_meta st1 = (st_height st + 1, blk_hash blk, st_only_loaded_quorums st)"
    using begin_block_inv [OF node_inv_mono [OF assms(1,2)], of N blk] b1 by simp_all
  from run b1 obtain b2 proofs2 st2 st3 qs where
    txs: "process_block_txs N resc hist arch alts blk 0 txs (b, proofs, st1) = ret (b2, proofs2, st2)"
    and sw: "(if b2 then update_swarms N (blk_hash blk) st2 else ret st2) = ret st3"
    and qs: "generate_quorums N (blk_major_version blk) st3 = ret qs"
    and st': "st' = st3\<lparr>st_quorums := qs\<rparr>"
    by (auto simp: update_from_block_def rbind_eq_ret_iff)
  have inv2: "node_inv (blk_major_version blk) st2" "block_meta st2 = block_meta st1"
    using process_block_txs_inv [OF inv1(1) refl txs] by blast+
  have inv3: "node_inv (blk_major_version blk) st3" "block_meta st3 = block_meta st2"
    using sw inv2(1) update_swarms_inv [OF inv2(1)] by (auto split: if_splits)
  have "node_inv (blk_major_version blk) st'" using inv3(1) by (simp add: st' node_inv_def)
  moreover have "block_meta st' = (st_height st + 1, blk_hash blk, st_only_loaded_quorums st)"
    using inv3(2) inv2(2) inv1(2) by (simp add: st')
  ultimately show ?thesis using generate_quorums_obligations [OF qs] by (simp add: block_meta_def st')
qed

end
