(* ===== verification/Node_Properties.thy ===== *)
theory Node_Properties
  imports Block_Update Staking_Properties
begin

text \<open>
  The properties of the service node state across blocks: the invariant, the quorums, the swarms,
  the reward winner and its payouts, and the effect of state changes.
\<close>

section \<open>Examples\<close>

definition example_node_env :: "u64 node_env" where
  "example_node_env = \<lparr>ne_chain = staking_env, ne_swarm = example_env,
     ne_get_block_from_height = \<lambda>_. None, ne_get_tx = \<lambda>_. None\<rparr>"

lemma example_node_env_fields [simp]:
  "ne_chain example_node_env = staking_env" "ne_swarm example_node_env = example_env"
  by (simp_all add: example_node_env_def)

definition funded_node :: service_node_info where
  "funded_node = example_node\<lparr>total_contributed := 500 * COIN, active_since_height := 45,
     portions_for_operator := 1000, operator_address := address_of 1,
     contributors := [\<lparr>ct_amount = 375 * COIN, ct_reserved = 375 * COIN, ct_address = address_of 1,
         ct_locked_contributions = [\<lparr>cn_key_image_pub_key = 20, cn_key_image = 20, cn_amount = 375 * COIN\<rparr>]\<rparr>,
       \<lparr>ct_amount = 125 * COIN, ct_reserved = 125 * COIN, ct_address = address_of 2,
         ct_locked_contributions = [\<lparr>cn_key_image_pub_key = 21, cn_key_image = 21, cn_amount = 125 * COIN\<rparr>]\<rparr>]\<rparr>"

lemma funded_node_active: "is_active funded_node"
  by (simp add: is_active_def is_fully_funded_def is_decommissioned_def funded_node_def example_node_def default_info_def COIN_def)

lemma funded_node_inv: "info_inv 16 funded_node"
  by (simp add: info_inv_def stake_ok_def stake_backed_def total_num_locked_contributions_def funded_node_def
        example_node_def default_info_def address_of_def const_defs)

lemma funded_state_inv: "node_inv 16 (example_state funded_node)"
  using funded_node_inv by (simp add: node_inv_def um_wf_def keys_of_def)

section \<open>The invariant across blocks\<close>

text \<open>
  C6: processing a block keeps the accounting invariant of every node, under hard forks that never
  go back, and leaves a state for the block: its height is one more, its hash is the block's, and it
  has a quorum for obligations.
\<close>

theorem update_from_block_keeps_invariant:
  assumes "node_inv v st" and "v \<le> blk_major_version blk"
    and "update_from_block N resc hist arch alts blk txs (proofs, st) = ret (proofs', st')"
  shows "node_inv (blk_major_version blk) st' \<and> st_height st' = st_height st + 1 \<and> st_block_hash st' = blk_hash blk \<and>
     qm_obligations (st_quorums st') \<noteq> None"
  using update_from_block_inv [OF assms] by blast

lemma example_block_run:
  "\<exists>st'. update_from_block example_node_env False [] [] [] (example_block 50) [] ([], example_state funded_node) = ret ([], st')"
proof -
  obtain b st1 where b: "begin_block example_node_env (example_block 50) (example_state funded_node) = (b, st1)" by fastforce
  have inv: "node_inv 16 st1"
    using begin_block_inv [OF funded_state_inv, of example_node_env "example_block 50"] b by simp
  have infos: "infos_of st1 = infos_of (example_state funded_node)" "\<not> b"
    using b by (auto simp: begin_block_def Let_def get_expired_nodes_def node_expired_def example_env_fields
        funded_node_def example_node_def default_info_def advance_winner_def example_block_def
        get_service_node_winner_from_tx_extra_def example_state_def initial_state_def const_defs)
  have "\<exists>qs. generate_quorums example_node_env 16 st1 = ret qs"
  proof -
    have act: "active_service_nodes_infos st1 = [(7, funded_node)]"
      using infos(1) funded_node_active by (simp add: active_service_nodes_infos_def sort_and_filter_def)
    have dec: "decommissioned_service_nodes_infos st1 = []"
      using infos(1) funded_node_active
      by (simp add: decommissioned_service_nodes_infos_def sort_and_filter_def is_active_def)
    show ?thesis
      unfolding generate_quorums_def Let_def act dec
      by (simp add: generate_obligations_quorum_def generate_shuffled_service_node_index_list_def shuffle_portable_def
            fill_quorum_def node_at_def generate_checkpointing_quorum_def generate_blink_quorum_def Let_def const_defs)
  qed
  then show ?thesis
    using b infos(2) by (auto simp: update_from_block_def example_env_fields)
qed

theorem update_from_block_keeps_invariant_witness:
  "\<exists>st'. update_from_block example_node_env False [] [] [] (example_block 50) [] ([], example_state funded_node) = ret ([], st') \<and>
     node_inv (blk_major_version (example_block 50)) st'"
proof -
  obtain st' where st': "update_from_block example_node_env False [] [] [] (example_block 50) [] ([], example_state funded_node) = ret ([], st')"
    using example_block_run by blast
  have "(16 :: u8) \<le> blk_major_version (example_block 50)" by (simp add: example_env_fields)
  from update_from_block_keeps_invariant [OF funded_state_inv this st'] st' show ?thesis by blast
qed

section \<open>Quorums and swarms\<close>

text \<open>
  C18: with a fair engine the quorums of a state are always produced, and no node is in one twice.
  The validators of the obligations quorum are active nodes, at most ten; the workers are active or,
  from hard fork 12 on, decommissioned nodes.  A checkpointing quorum has twenty active nodes or
  none, a blink quorum between seven and ten active nodes that stay locked long enough, or none.
  On the test network this holds from height 85357 on.
\<close>

theorem generate_quorums_correct:
  fixes N :: "'g node_env"
  assumes "fair_generator (rng (ne_swarm N))" and "um_wf (infos_of st)" and "length (infos_of st) < 2 ^ 63"
    and "\<not> (ne_nettype N = TESTNET \<and> st_height st < 85357)"
  shows "\<exists>qs ob. generate_quorums N hf st = ret qs \<and> qm_obligations qs = Some ob \<and>
     good_quorum (map fst (active_service_nodes_infos st)) (all_candidates hf st)
       (min (length (active_service_nodes_infos st)) STATE_CHANGE_QUORUM_SIZE)
       (obligations_workers (length (active_service_nodes_infos st)) (length (all_candidates hf st))) ob \<and>
     (\<forall>q. qm_checkpointing qs = Some q \<longrightarrow>
        good_quorum (map fst (active_service_nodes_infos st)) [] (length (validators q)) 0 q \<and>
        length (validators q) \<in> {0, CHECKPOINT_QUORUM_SIZE}) \<and>
     (\<forall>q. qm_blink qs = Some q \<longrightarrow> good_quorum
         (map fst (filter (\<lambda>(k, info). blink_eligible (st_height st + BLINK_EXPIRY_BUFFER) info)
            (active_service_nodes_infos st))) [] (length (validators q)) 0 q \<and>
       (validators q = [] \<or> (BLINK_MIN_VOTES \<le> length (validators q) \<and> length (validators q) \<le> BLINK_SUBQUORUM_SIZE)))"
  using generate_quorums_good [OF assms] by blast

theorem generate_quorums_correct_witness:
  "\<exists>qs. generate_quorums example_node_env 16 (example_state funded_node\<lparr>st_height := 90000\<rparr>) = ret qs \<and>
     qm_obligations qs \<noteq> None"
  using generate_quorums_correct [of example_node_env "example_state funded_node\<lparr>st_height := 90000\<rparr>" 16] example_env_fair
  by (auto simp: um_wf_def keys_of_def)


definition five_nodes :: state_t where
  "five_nodes = initial_state\<lparr>st_service_nodes_infos := map (\<lambda>k. (k, funded_node)) [3, 4, 5, 6, 7]\<rparr>"

lemma five_nodes_active: "active_service_nodes_infos five_nodes = map (\<lambda>k. (k, funded_node)) [3, 4, 5, 6, 7]"
  by (simp add: active_service_nodes_infos_def sort_and_filter_def five_nodes_def funded_node_active)

lemma five_nodes_swarms: "existing_swarms five_nodes = [(0, [3, 4, 5, 6, 7])]"
proof -
  have "sni_swarm_id funded_node = 0" by (simp add: funded_node_def example_node_def default_info_def)
  then show ?thesis by (simp add: existing_swarms_def five_nodes_active add_to_swarm_def)
qed


section \<open>Rewards\<close>

text \<open>
  C26: when there is an active node, the reward goes to an active node that has waited longest: no
  active node has an earlier last reward, with ties broken by the transaction index and the key.
\<close>

theorem block_winner_waits_longest:
  assumes "unsaturated st" and "\<exists>e \<in> set (infos_of st). is_active (snd e)"
  shows "\<exists>info. (bw_key (get_block_winner st), info) \<in> set (infos_of st) \<and> is_active info \<and>
     map pay_address (bw_payouts (get_block_winner st)) = map ct_address (contributors info) \<and>
     (\<forall>e \<in> set (infos_of st). is_active (snd e) \<longrightarrow>
        \<not> waits_longer (waiting_of e) (waiting_of (bw_key (get_block_winner st), info)))"
proof -
  from assms(2) obtain e where "e \<in> set (infos_of st)" "is_active (snd e)" by blast
  from winner_scan_active [OF assms(1) this] obtain f where
    f: "f \<in> set (infos_of st)" "is_active (snd f)"
    "get_block_winner st = \<lparr>bw_key = fst f, bw_payouts = map (winner_payout (snd f)) (contributors (snd f))\<rparr>"
    "\<And>g. g \<in> set (infos_of st) \<Longrightarrow> is_active (snd g) \<Longrightarrow> \<not> waits_longer (waiting_of g) (waiting_of f)" by blast
  have "map pay_address (map (winner_payout i) cs) = map ct_address cs" for i cs
    by (simp add: winner_payout_def Let_def split: prod.split)
  with f show ?thesis by (intro exI [of _ "snd f"]) simp
qed

definition two_nodes :: state_t where
  "two_nodes = initial_state\<lparr>st_service_nodes_infos :=
     [(3, funded_node\<lparr>last_reward_block_height := 9\<rparr>), (5, funded_node\<lparr>last_reward_block_height := 8\<rparr>)]\<rparr>"

theorem block_winner_waits_longest_witness:
  "bw_key (get_block_winner two_nodes) = 5 \<and>
   (\<exists>info. (bw_key (get_block_winner two_nodes), info) \<in> set (infos_of two_nodes) \<and> is_active info)"
proof -
  have act: "is_active (funded_node\<lparr>last_reward_block_height := h\<rparr>)" for h
    using funded_node_active by (simp add: is_active_def is_fully_funded_def is_decommissioned_def)
  have small: "(8 :: u64) < UINT64_MAX" "(9 :: u64) < UINT64_MAX"
    by (simp_all add: word_less_nat_alt unat_UINT64_MAX)
  have "unsaturated two_nodes" "\<exists>e \<in> set (infos_of two_nodes). is_active (snd e)"
    using act small by (simp_all add: unsaturated_def two_nodes_def)
  from block_winner_waits_longest [OF this] have ex:
    "\<exists>info. (bw_key (get_block_winner two_nodes), info) \<in> set (infos_of two_nodes) \<and> is_active info" by blast
  have "bw_key (get_block_winner two_nodes) = 5"
    using small by (simp add: get_block_winner_def two_nodes_def Let_def act waits_longer_def)
  with ex show ?thesis by blast
qed

text \<open>
  C27: the portions paid to the contributors of the winner never add up to more than the whole reward.
\<close>

theorem payouts_within_reward:
  assumes "node_inv v st" and "\<forall>e \<in> set (infos_of st). 0 < unat (staking_requirement (snd e))" and "unsaturated st"
  shows "sum_list (map (\<lambda>p. unat (pay_portions p)) (bw_payouts (get_block_winner st))) \<le> unat STAKING_PORTIONS"
proof (cases "\<exists>e \<in> set (infos_of st). is_active (snd e)")
  case True
  then obtain e where e: "e \<in> set (infos_of st)" "is_active (snd e)" by blast
  from winner_scan_active [OF assms(3) e] obtain f where
    f: "f \<in> set (infos_of st)"
    "get_block_winner st = \<lparr>bw_key = fst f, bw_payouts = map (winner_payout (snd f)) (contributors (snd f))\<rparr>" by blast
  have "info_inv v (snd f)" using assms(1) f(1) by (simp add: node_inv_def)
  then show ?thesis
    using payouts_of_info [of "snd f"] assms(2) f by (simp add: info_inv_def)
next
  case False
  obtain w io where scan: "winner_scan st = (w, io)" by fastforce
  have "w = (UINT64_MAX, UINT32_MAX, null_pkey) \<and> io = None"
    using find_winner_spec [OF scan [unfolded winner_scan_def]] False by auto
  then show ?thesis using scan by (simp add: get_block_winner_def winner_scan_def null_block_winner_def)
qed

theorem payouts_within_reward_witness:
  "sum_list (map (\<lambda>p. unat (pay_portions p)) (bw_payouts (get_block_winner (example_state funded_node)))) \<le> unat STAKING_PORTIONS"
proof (rule payouts_within_reward [OF funded_state_inv])
  have "(0 :: u64) < UINT64_MAX" by (simp add: word_less_nat_alt unat_UINT64_MAX)
  then show "unsaturated (example_state funded_node)"
    by (simp add: unsaturated_def funded_node_def example_node_def default_info_def)
qed (simp add: funded_node_def example_node_def default_info_def COIN_def)

section \<open>State changes\<close>

lemma sint_minus_neg:
  assumes "0 < sint (x :: 64 word)"
  shows "sint (- x) < 0"
proof -
  have "sint x < 2 ^ 63" using sint_lt [of x] by simp
  then have "signed_take_bit 63 (- sint x) = - sint x"
    using assms by (intro signed_take_bit_int_eq_self) simp_all
  then show ?thesis using assms by (simp add: sint_word_ariths)
qed

text \<open>
  C36: from hard fork 11 on, a deregistration removes the node and puts every key image its
  contributors had locked on the blacklist, until the lock time after the block has passed.
\<close>

theorem deregistration_blacklists_stake:
  assumes "process_state_change_tx N resc hist arch alts blk tx (proofs, st) = ret (True, proofs', st')"
    and "get_service_node_state_change_from_tx_extra (tx_extra tx) (blk_major_version blk) = Some sc"
    and "sc_state sc = deregister" and "network_version_11_infinite_staking \<le> blk_major_version blk"
  shows "\<exists>key info. map_of (infos_of st) key = Some info \<and> map_of (infos_of st') = (map_of (infos_of st))(key := None) \<and>
     (\<forall>c \<in> set (contributors info). \<forall>cn \<in> set (ct_locked_contributions c).
        \<lparr>kb_key_image = cn_key_image cn,
         kb_unlock_height = get_block_height blk + staking_num_lock_blocks (ne_nettype N),
         kb_amount = cn_amount cn\<rparr> \<in> set (st_key_image_blacklist st')) \<and>
     set (st_key_image_blacklist st) \<subseteq> set (st_key_image_blacklist st')"
proof -
  from process_state_change_result [OF assms(1)] assms(2) obtain key info where
    info: "map_of (infos_of st) key = Some info"
    and r: "(True, proofs', st') = apply_state_change (ne_nettype N) resc blk (sc_state sc) key info (proofs, st)"
    by auto
  have "st' = st\<lparr>st_key_image_blacklist := st_key_image_blacklist st @
        blacklist_entries (get_block_height blk + staking_num_lock_blocks (ne_nettype N)) info,
      st_service_nodes_infos := erase_key key (infos_of st)\<rparr>"
    using r assms(3,4) by (simp add: apply_state_change_def Let_def)
  then show ?thesis
    using info by (intro exI [of _ key] exI [of _ info]) (auto simp: um.find_erase blacklist_entries_def)
qed

text \<open>A network in which the state at height 40 has a quorum of seven validators and the example node.\<close>

definition voting_quorum :: quorum where
  "voting_quorum = \<lparr>validators = [1, 2, 3, 4, 5, 6, 9], workers = [7]\<rparr>"

definition voting_state :: state_t where
  "voting_state = initial_state\<lparr>st_height := 40, st_quorums := empty_quorums\<lparr>qm_obligations := Some voting_quorum\<rparr>\<rparr>"

definition example_change :: "new_state \<Rightarrow> tx_extra_service_node_state_change" where
  "example_change s = \<lparr>sc_state = s, sc_block_height = 40, sc_service_node_index = 0,
     sc_votes = map (\<lambda>i. \<lparr>scv_signature = 0, scv_validator_index = i\<rparr>) [0, 1, 2, 3, 4, 5, 6]\<rparr>"

definition state_change_example_tx :: "new_state \<Rightarrow> transaction" where
  "state_change_example_tx s = (contribution_tx 1)\<lparr>tx_type := tx_state_change,
     tx_extra := [extra_service_node_state_change (example_change s)]\<rparr>"

lemma example_change_verifies:
  "fst (verify_tx_state_change staking_crypto (example_change deregister) 50 clean_tvc voting_quorum 16)"
  by (simp add: verify_tx_state_change_def example_change_def voting_quorum_def clean_tvc_def clean_vvc_def
        bounds_check_worker_index_def bounds_check_validator_index_def staking_crypto_def Let_def const_defs)

lemma example_deregistration:
  "\<exists>st'. process_state_change_tx example_node_env False [voting_state] [] [] (example_block 50)
     (state_change_example_tx deregister) ([], example_state funded_node) = ret (True, [], st')"
proof -
  have sc: "get_service_node_state_change_from_tx_extra (tx_extra (state_change_example_tx deregister)) 16 = Some (example_change deregister)"
    by (simp add: state_change_example_tx_def get_service_node_state_change_from_tx_extra_def const_defs)
  have q: "state_change_quorums staking_crypto [voting_state] [] [] 50 16 (example_change deregister) =
      ret (Some (st_quorums voting_state))"
    using example_change_verifies
    by (simp add: state_change_quorums_def find_state_def voting_state_def example_change_def initial_state_def)
  have "tx_type (state_change_example_tx deregister) = tx_state_change" by (simp add: state_change_example_tx_def)
  then show ?thesis
    using sc q
    by (simp add: process_state_change_tx_def example_env_fields Let_def voting_state_def empty_quorums_def
          voting_quorum_def get_pubkey_from_quorum_def example_change_def apply_state_change_def)
qed

theorem deregistration_blacklists_stake_witness:
  "\<exists>st'. process_state_change_tx example_node_env False [voting_state] [] [] (example_block 50)
     (state_change_example_tx deregister) ([], example_state funded_node) = ret (True, [], st') \<and>
     (\<exists>key info. map_of (infos_of (example_state funded_node)) key = Some info \<and> map_of (infos_of st') key = None)"
proof -
  obtain st' where st': "process_state_change_tx example_node_env False [voting_state] [] [] (example_block 50)
     (state_change_example_tx deregister) ([], example_state funded_node) = ret (True, [], st')"
    using example_deregistration by blast
  have sc: "get_service_node_state_change_from_tx_extra (tx_extra (state_change_example_tx deregister))
      (blk_major_version (example_block 50)) = Some (example_change deregister)"
    by (simp add: state_change_example_tx_def get_service_node_state_change_from_tx_extra_def example_env_fields const_defs)
  have "sc_state (example_change deregister) = deregister" "network_version_11_infinite_staking \<le> blk_major_version (example_block 50)"
    by (simp_all add: example_change_def example_env_fields const_defs)
  from deregistration_blacklists_stake [OF st' sc this] obtain key info where
    "map_of (infos_of (example_state funded_node)) key = Some info"
    "map_of (infos_of st') = (map_of (infos_of (example_state funded_node)))(key := None)" by blast
  then have "map_of (infos_of (example_state funded_node)) key = Some info \<and> map_of (infos_of st') key = None"
    by (simp del: example_state_infos)
  with st' show ?thesis by blast
qed

text \<open>
  a decommissioned node is inactive and out of its swarm; recommissioning it makes it active
  again from the block on, at the back of the reward queue, with its proof and votes reset.
\<close>

theorem decommission_then_recommission:
  assumes "map_of (infos_of st) key = Some info" and "is_active info" and "0 < sint (active_since_height info)"
    and "network_version_13_enforce_checkpoints \<le> blk_major_version blk"
    and "network_version_13_enforce_checkpoints \<le> blk_major_version blk2" and "0 \<le> sint (get_block_height blk2)"
  shows "\<exists>p1 st1 info1 p2 st2 info2.
     apply_state_change nettype resc blk decommission key info (proofs, st) = (True, p1, st1) \<and>
     map_of (infos_of st1) key = Some info1 \<and> is_decommissioned info1 \<and> \<not> is_active info1 \<and>
     sni_swarm_id info1 = UNASSIGNED_SWARM_ID \<and>
     apply_state_change nettype resc2 blk2 recommission key info1 (p1, st1) = (True, p2, st2) \<and>
     map_of (infos_of st2) key = Some info2 \<and> is_active info2 \<and>
     last_reward_block_height info2 = get_block_height blk2 \<and> last_reward_transaction_index info2 = UINT32_MAX \<and>
     pi_effective_timestamp (proof_at p2 key) = blk_timestamp blk2 \<and> pi_votes (proof_at p2 key) = empty_votes"
proof -
  let ?i1 = "info\<lparr>active_since_height := - active_since_height info, last_decommission_height := get_block_height blk,
      decommission_count := decommission_count info + 1, sni_swarm_id := UNASSIGNED_SWARM_ID\<rparr>"
  let ?i2 = "?i1\<lparr>active_since_height := get_block_height blk2, last_reward_block_height := get_block_height blk2,
      last_reward_transaction_index := UINT32_MAX\<rparr>"
  let ?p1 = "if resc then proofs else update_proof key (\<lambda>p. p\<lparr>pi_timestamp := 0, pi_effective_timestamp := 0\<rparr>) proofs"
  let ?p2 = "update_proof key (\<lambda>p. p\<lparr>pi_effective_timestamp := blk_timestamp blk2, pi_votes := empty_votes\<rparr>) ?p1"
  have v12: "\<not> blk_major_version b < network_version_12_checkpointing" if "network_version_13_enforce_checkpoints \<le> blk_major_version b" for b
    by (rule leD, rule order_trans [OF _ that]) (simp add: const_defs)
  have funded: "is_fully_funded info" and act: "\<not> is_decommissioned info" using assms(2) by (simp_all add: is_active_def)
  have dec: "is_decommissioned ?i1" using sint_minus_neg [OF assms(3)] by (simp add: is_decommissioned_def)
  have "apply_state_change nettype resc blk decommission key info (proofs, st) = (True, ?p1, set_info key ?i1 st)"
    using v12 [OF assms(4)] assms(4) act by (simp add: apply_state_change_def Let_def)
  moreover have "apply_state_change nettype resc2 blk2 recommission key ?i1 (?p1, set_info key ?i1 st) =
      (True, ?p2, set_info key ?i2 (set_info key ?i1 st))"
    using v12 [OF assms(5)] dec by (simp add: apply_state_change_def Let_def)
  moreover have "map_of (infos_of (set_info key ?i1 st)) key = Some ?i1"
    "map_of (infos_of (set_info key ?i2 (set_info key ?i1 st))) key = Some ?i2"
    using assms(1) by (simp_all add: set_info_lookup)
  moreover have "is_active ?i2"
    using funded assms(6) by (simp add: is_active_def is_fully_funded_def is_decommissioned_def)
  moreover have "proof_at ?p2 key = (proof_at ?p1 key)\<lparr>pi_effective_timestamp := blk_timestamp blk2, pi_votes := empty_votes\<rparr>"
    by (simp add: update_proof_def proof_at_def map_of_um_assign)
  ultimately show ?thesis using dec
    by (intro exI [of _ ?p1] exI [of _ "set_info key ?i1 st"] exI [of _ ?i1] exI [of _ ?p2]
          exI [of _ "set_info key ?i2 (set_info key ?i1 st)"] exI [of _ ?i2]) (simp add: is_active_def)
qed

theorem decommission_then_recommission_witness:
  "\<exists>p1 st1 info1. apply_state_change MAINNET False (example_block 50) decommission 7 funded_node ([], example_state funded_node) = (True, p1, st1) \<and>
     map_of (infos_of st1) 7 = Some info1 \<and> is_decommissioned info1"
proof -
  have "map_of (infos_of (example_state funded_node)) 7 = Some funded_node"
    "0 < sint (active_since_height funded_node)"
    "network_version_13_enforce_checkpoints \<le> blk_major_version (example_block 50)"
    "network_version_13_enforce_checkpoints \<le> blk_major_version (example_block 60)"
    "0 \<le> sint (get_block_height (example_block 60))"
    by (simp_all add: example_env_fields funded_node_def const_defs)
  from decommission_then_recommission [OF this(1) funded_node_active this(2-5), of MAINNET False "[]" False]
  show ?thesis by blast
qed

lemma unlock_verdict_signed:
  "unlock_verdict C unlock cs \<Longrightarrow>
     \<exists>c \<in> set cs. \<exists>cn \<in> set (ct_locked_contributions c). cn_key_image cn = kiu_key_image unlock \<and>
       check_signature C (generate_request_stake_unlock_hash (kiu_nonce unlock)) (cn_key_image_pub_key cn) (kiu_signature unlock)"
proof (induction cs)
  case (Cons c cs)
  show ?case
  proof (cases "find (\<lambda>cn. kiu_key_image unlock = cn_key_image cn) (ct_locked_contributions c)")
    case None
    then show ?thesis using Cons by simp
  next
    case (Some cn)
    then have "cn \<in> set (ct_locked_contributions c)" "cn_key_image cn = kiu_key_image unlock"
      by (auto simp: find_Some_iff)
    then show ?thesis using Cons.prems Some by auto
  qed
qed simp

text \<open>
  an unlock is accepted only with a signature by the key of an output that a contributor of
  the node has locked.  It schedules the expiry of the node: nodes of the infinite staking era leave
  the list at the first block after half the lock time, and not before.
\<close>

theorem unlock_schedules_expiry:
  assumes "process_key_image_unlock_tx E h tx st = (True, st')"
  shows "\<exists>key info unlock cn. map_of (infos_of st) key = Some info \<and>
     get_tx_key_image_unlock_from_tx_extra (tx_extra tx) = Some unlock \<and>
     cn \<in> set (concat (map ct_locked_contributions (contributors info))) \<and>
     cn_key_image cn = kiu_key_image unlock \<and>
     check_signature (env_crypto E) (generate_request_stake_unlock_hash (kiu_nonce unlock))
       (cn_key_image_pub_key cn) (kiu_signature unlock) \<and>
     (\<exists>info'. map_of (infos_of st') key = Some info' \<and>
       (network_version_11_infinite_staking \<le> registration_hf_version info \<longrightarrow>
        (\<forall>b lock. h + staking_num_lock_blocks (env_nettype E) div 2 \<noteq> 0 \<longrightarrow>
          node_expired lock b info' = (h + staking_num_lock_blocks (env_nettype E) div 2 < b))))"
proof -
  from assms obtain key info unlock where
    key: "map_of (infos_of st) key = Some info"
    and unlock: "get_tx_key_image_unlock_from_tx_extra (tx_extra tx) = Some unlock"
    and verdict: "unlock_verdict (env_crypto E) unlock (contributors info)"
    and st': "st' = set_info key (info\<lparr>requested_unlock_height :=
      get_locked_key_image_unlock_height (env_nettype E) (registration_height info) h\<rparr>) st"
    by (auto simp: process_key_image_unlock_tx_def Let_def split: option.splits if_splits)
  from unlock_verdict_signed [OF verdict] obtain cn where
    "cn \<in> set (concat (map ct_locked_contributions (contributors info)))" "cn_key_image cn = kiu_key_image unlock"
    "check_signature (env_crypto E) (generate_request_stake_unlock_hash (kiu_nonce unlock))
       (cn_key_image_pub_key cn) (kiu_signature unlock)" by auto
  moreover have "map_of (infos_of st') key = Some (info\<lparr>requested_unlock_height :=
      h + staking_num_lock_blocks (env_nettype E) div 2\<rparr>)"
    using key by (simp add: st' set_info_lookup get_locked_key_image_unlock_height_def)
  ultimately show ?thesis using key unlock
    by (intro exI [of _ key] exI [of _ info] exI [of _ unlock] exI [of _ cn] conjI exI)
       (assumption | simp add: node_expired_def KEY_IMAGE_AWAITING_UNLOCK_HEIGHT_def)+
qed

definition unlock_tx :: transaction where
  "unlock_tx = (contribution_tx 1)\<lparr>tx_type := tx_key_image_unlock,
     tx_extra := [extra_service_node_pubkey 7,
       extra_tx_key_image_unlock \<lparr>kiu_key_image = 20, kiu_signature = 0, kiu_nonce = 0\<rparr>]\<rparr>"

theorem unlock_schedules_expiry_witness:
  "\<exists>key info. map_of (infos_of (example_state funded_node)) key = Some info \<and>
     fst (process_key_image_unlock_tx staking_env 50 unlock_tx (example_state funded_node))"
proof -
  obtain st' where "process_key_image_unlock_tx staking_env 50 unlock_tx (example_state funded_node) = (True, st')"
    by (simp add: process_key_image_unlock_tx_def unlock_tx_def tx_extra_defs get_tx_key_image_unlock_from_tx_extra_def
          funded_node_def example_node_def default_info_def staking_env_def staking_crypto_def const_defs)
  from unlock_schedules_expiry [OF this] this show ?thesis by auto
qed

section \<open>Where the state code falls short\<close>

text \<open>
  among the alternative states of the height the last one decides, since the loop does not stop
  at a quorum that verifies the votes.  A valid state change is rejected when another
  alternative state of the same height comes later.
\<close>

theorem later_alt_state_discards_quorum:
  assumes "find_state (sc_block_height sc) hist = Some s" and "qm_obligations (st_quorums s) = Some q"
    and "\<not> fst (verify_tx_state_change C sc h clean_tvc q hf)"
    and "st_height s1 = sc_block_height sc" and "qm_obligations (st_quorums s1) = Some q1"
    and "fst (verify_tx_state_change C sc h clean_tvc q1 hf)"
    and "st_height s2 = sc_block_height sc" and "qm_obligations (st_quorums s2) = Some q2"
    and "\<not> fst (verify_tx_state_change C sc h clean_tvc q2 hf)"
  shows "state_change_quorums C hist arch [(h1, s1)] h hf sc = ret (Some (st_quorums s1)) \<and>
         state_change_quorums C hist arch [(h1, s1), (h2, s2)] h hf sc = ret None"
  using assms by (simp add: state_change_quorums_def)

definition other_quorum_state :: state_t where
  "other_quorum_state = voting_state\<lparr>st_quorums := empty_quorums\<lparr>qm_obligations := Some \<lparr>validators = [], workers = []\<rparr>\<rparr>\<rparr>"

lemma other_quorum_fails:
  "\<not> fst (verify_tx_state_change staking_crypto (example_change deregister) 50 clean_tvc \<lparr>validators = [], workers = []\<rparr> 16)"
  by (simp add: verify_tx_state_change_def example_change_def clean_tvc_def clean_vvc_def
        bounds_check_worker_index_def bad_tx_def Let_def const_defs)

theorem later_alt_state_discards_quorum_witness:
  "state_change_quorums staking_crypto [other_quorum_state] [] [(1, voting_state), (2, other_quorum_state)] 50 16
     (example_change deregister) = ret None"
proof -
  have "find_state (sc_block_height (example_change deregister)) [other_quorum_state] = Some other_quorum_state"
    "qm_obligations (st_quorums other_quorum_state) = Some \<lparr>validators = [], workers = []\<rparr>"
    "st_height voting_state = sc_block_height (example_change deregister)"
    "qm_obligations (st_quorums voting_state) = Some voting_quorum"
    "st_height other_quorum_state = sc_block_height (example_change deregister)"
    by (simp_all add: other_quorum_state_def voting_state_def example_change_def find_state_def)
  from later_alt_state_discards_quorum [OF this(1,2) other_quorum_fails this(3,4) example_change_verifies
      this(5,2) other_quorum_fails] show ?thesis by blast
qed

end
