(* ===== verification/Node_List.thy ===== *)
theory Node_List
  imports Node_State
begin

text \<open>
  The service node list (\<^verbatim>\<open>src/src/cryptonote_core/service_node_list.{h,cpp}\<close>): the state after the
  last block with the recent, archived and alternative states, its storage in the database, the
  blocks that are added to and detached from the chain, and the look-up of quorums.

  A \<^verbatim>\<open>std::set\<close> of states is a list in strictly ascending order of heights.  What the list asks of the
  blockchain is the record \<open>blockchain_info\<close>; the two blobs of service node data in the database
  are fields of the list, as decoded data (\<open>None\<close> when there is no blob, or none that can be read).
  The stored proofs are read from \<open>bc_service_node_proofs\<close>.  Locks are left out: each operation
  holds \<^verbatim>\<open>m_sn_mutex\<close> while it runs.
\<close>

section \<open>Data\<close>

record quorum_for_serialization =
  qs_version :: u8
  qs_height :: u64
  qs_obligations_quorum :: quorum
  qs_checkpointing_quorum :: quorum

datatype state_version = version_0 | version_1_serialize_hash

record state_serialized =
  ss_version :: state_version
  ss_height :: u64
  ss_infos :: service_nodes_infos_t
  ss_key_image_blacklist :: "key_image_blacklist_entry list"
  ss_quorums :: quorum_for_serialization
  ss_only_stored_quorums :: bool
  ss_block_hash :: hash256

record data_for_serialization =
  dfs_quorum_states :: "quorum_for_serialization list"
  dfs_states :: "state_serialized list"

record quorums_by_height =
  qh_height :: u64
  qh_quorums :: quorum_manager

record blockchain_info =
  bc_has_db :: bool
  bc_current_hard_fork_version :: u8
  bc_current_blockchain_height :: u64
  bc_hardfork_9_from_height :: u64
  bc_hard_fork_version :: "u64 \<Rightarrow> u8"
  bc_block_id_by_height :: "u64 \<Rightarrow> hash256"
  bc_service_node_proofs :: proof_map
  bc_time :: u64

type_synonym x25519_map = "(x25519_public_key \<times> public_key \<times> i64) list"

record service_node_list =
  nl_state :: state_t
  nl_service_node_keys :: "service_node_keys option"
  nl_store_quorum_history :: u64
  nl_rescanning :: bool
  nl_debug_allow_local_ips :: bool
  nl_x25519_to_pub :: x25519_map
  nl_x25519_map_last_pruned :: i64
  nl_proofs :: proof_map
  nl_old_quorum_states :: "quorums_by_height list"
  nl_state_history :: state_set
  nl_state_archive :: state_set
  nl_alt_state :: "(hash256 \<times> state_t) list"
  nl_state_added_to_archive :: bool
  nl_db_long_term :: "data_for_serialization option"
  nl_db_short_term :: "data_for_serialization option"

section \<open>Sets of states\<close>

text \<open>Inserting keeps a state that is already there for the height.\<close>

fun insert_state :: "state_t \<Rightarrow> state_set \<Rightarrow> state_set" where
  "insert_state s [] = [s]"
| "insert_state s (x # xs) =
     (if st_height s < st_height x then s # x # xs
      else if st_height s = st_height x then x # xs
      else x # insert_state s xs)"

definition states_upto :: "u64 \<Rightarrow> state_set \<Rightarrow> state_set" where
  "states_upto height = takeWhile (\<lambda>s. st_height s \<le> height)"

definition states_after :: "u64 \<Rightarrow> state_set \<Rightarrow> state_set" where
  "states_after height = dropWhile (\<lambda>s. st_height s \<le> height)"

section \<open>Looking up quorums\<close>

text \<open>The search of \<^verbatim>\<open>std::lower_bound\<close> in the range of length \<open>len\<close> from \<open>first\<close>.\<close>

fun lower_bound :: "('a \<Rightarrow> bool) \<Rightarrow> 'a list \<Rightarrow> nat \<Rightarrow> nat \<Rightarrow> nat" where
  "lower_bound before xs first len =
     (if len = 0 then first
      else
        let half = len div 2
        in if before (xs ! (first + half)) then lower_bound before xs (first + half + 1) (len - half - 1)
           else lower_bound before xs first half)"

declare lower_bound.simps [simp del]

definition find_old_quorums :: "u64 \<Rightarrow> quorums_by_height list \<Rightarrow> quorum_manager option" where
  "find_old_quorums height old =
     (let i = lower_bound (\<lambda>entry. qh_height entry < height) old 0 (length old)
      in if i < length old \<and> qh_height (old ! i) = height then Some (qh_quorums (old ! i)) else None)"

definition find_quorums :: "service_node_list \<Rightarrow> u64 \<Rightarrow> bool \<Rightarrow> quorum_manager option" where
  "find_quorums nl height include_old =
     (let quorums =
        (if height = st_height (nl_state nl) then Some (st_quorums (nl_state nl))
         else
           case find_state height (nl_state_history nl) of
             Some s \<Rightarrow> Some (st_quorums s)
           | None \<Rightarrow> map_option st_quorums (find_state height (nl_state_archive nl)))
      in if quorums = None \<and> include_old then find_old_quorums height (nl_old_quorum_states nl)
         else quorums)"

text \<open>The quorum of a type at a height, and those of the alternative states of the height.\<close>

definition get_quorum :: "service_node_list \<Rightarrow> quorum_type \<Rightarrow> u64 \<Rightarrow> bool \<Rightarrow> quorum option \<times> quorum list" where
  "get_quorum nl type height include_old =
     (let height = offset_testing_quorum_height type height
      in case find_quorums nl height include_old of
           None \<Rightarrow> (None, [])
         | Some quorums \<Rightarrow>
             (quorum_manager_get quorums type,
              List.map_filter (\<lambda>(h, s). if st_height s = height then quorum_manager_get (st_quorums s) type else None)
                (nl_alt_state nl)))"

definition get_quorum_pubkey ::
    "service_node_list \<Rightarrow> quorum_type \<Rightarrow> quorum_group \<Rightarrow> u64 \<Rightarrow> nat \<Rightarrow> public_key option" where
  "get_quorum_pubkey nl type grp height quorum_index =
     (case fst (get_quorum nl type height False) of
        None \<Rightarrow> None
      | Some q \<Rightarrow> get_pubkey_from_quorum q grp quorum_index)"

definition get_service_node_count :: "service_node_list \<Rightarrow> nat" where
  "get_service_node_count nl = length (infos_of (nl_state nl))"

definition set_my_service_node_keys :: "service_node_keys option \<Rightarrow> service_node_list \<Rightarrow> service_node_list" where
  "set_my_service_node_keys keys nl = nl\<lparr>nl_service_node_keys := keys\<rparr>"

definition set_quorum_history_storage :: "u64 \<Rightarrow> service_node_list \<Rightarrow> service_node_list" where
  "set_quorum_history_storage hist_size nl =
     nl\<lparr>nl_store_quorum_history := (if hist_size = 1 then UINT64_MAX else hist_size)\<rparr>"

section \<open>Keys of the nodes for encrypted connections\<close>

definition get_pubkey_from_x25519 :: "service_node_list \<Rightarrow> x25519_public_key \<Rightarrow> public_key" where
  "get_pubkey_from_x25519 nl x25519 =
     (case map_of (nl_x25519_to_pub nl) x25519 of None \<Rightarrow> null_pkey | Some (k, t) \<Rightarrow> k)"

definition add_x25519 :: "proof_map \<Rightarrow> i64 \<Rightarrow> public_key \<times> service_node_info \<Rightarrow> x25519_map \<Rightarrow> x25519_map" where
  "add_x25519 proofs now pk_info x25519_to_pub =
     (case map_of proofs (fst pk_info) of
        None \<Rightarrow> x25519_to_pub
      | Some p \<Rightarrow>
          if pi_pubkey_x25519 p = 0 then x25519_to_pub
          else um_insert_new (pi_pubkey_x25519 p) (fst pk_info, now) x25519_to_pub)"

definition initialize_x25519_map :: "blockchain_info \<Rightarrow> service_node_list \<Rightarrow> service_node_list" where
  "initialize_x25519_map B nl =
     nl\<lparr>nl_x25519_to_pub :=
          fold (add_x25519 (nl_proofs nl) (bc_time B)) (infos_of (nl_state nl)) (nl_x25519_to_pub nl)\<rparr>"

section \<open>Serialization\<close>

definition serialize_quorum_state :: "u64 \<Rightarrow> quorum_manager \<Rightarrow> quorum_for_serialization" where
  "serialize_quorum_state height quorums =
     (let no_quorum = \<lparr>validators = [], workers = []\<rparr>
      in \<lparr>qs_version = 0, qs_height = height,
          qs_obligations_quorum = (case qm_obligations quorums of None \<Rightarrow> no_quorum | Some q \<Rightarrow> q),
          qs_checkpointing_quorum = (case qm_checkpointing quorums of None \<Rightarrow> no_quorum | Some q \<Rightarrow> q)\<rparr>)"

definition serialize_service_node_state_object :: "state_t \<Rightarrow> bool \<Rightarrow> state_serialized" where
  "serialize_service_node_state_object st only_serialize_quorums =
     (let result = \<lparr>ss_version = version_1_serialize_hash, ss_height = st_height st, ss_infos = [],
            ss_key_image_blacklist = [],
            ss_quorums = serialize_quorum_state (st_height st) (st_quorums st),
            ss_only_stored_quorums = st_only_loaded_quorums st \<or> only_serialize_quorums,
            ss_block_hash = null_hash\<rparr>
      in if only_serialize_quorums then result
         else result\<lparr>ss_infos := infos_of st, ss_key_image_blacklist := st_key_image_blacklist st,
                     ss_block_hash := st_block_hash st\<rparr>)"

definition quorum_for_serialization_to_quorum_manager :: "quorum_for_serialization \<Rightarrow> quorum_manager" where
  "quorum_for_serialization_to_quorum_manager source =
     \<lparr>qm_obligations = Some (qs_obligations_quorum source),
      qm_checkpointing =
        (if (qs_height source + REORG_SAFETY_BUFFER_BLOCKS_POST_HF12) mod CHECKPOINT_INTERVAL = 0
         then Some (qs_checkpointing_quorum source) else None),
      qm_blink = None\<rparr>"

definition upgrade_info :: "blockchain_info \<Rightarrow> service_node_info \<Rightarrow> service_node_info" where
  "upgrade_info B info =
     (if sni_version info = v0_checkpointing
      then info\<lparr>registration_hf_version := bc_hard_fork_version B (registration_height info),
                sni_version := v4_noproofs\<rparr>
      else info\<lparr>sni_version := v4_noproofs\<rparr>)"

definition state_of_serialized :: "blockchain_info \<Rightarrow> state_serialized \<Rightarrow> state_t" where
  "state_of_serialized B ss =
     \<lparr>st_only_loaded_quorums = ss_only_stored_quorums ss, st_height = ss_height ss,
      st_service_nodes_infos =
        fold (\<lambda>(k, info). um_insert_new k (upgrade_info B info)) (ss_infos ss) [],
      st_key_image_blacklist = ss_key_image_blacklist ss,
      st_quorums = quorum_for_serialization_to_quorum_manager (ss_quorums ss),
      st_block_hash = (if ss_version ss = version_0 then bc_block_id_by_height B (ss_height ss)
                       else ss_block_hash ss)\<rparr>"

section \<open>Storing and loading\<close>

definition STORE_LONG_TERM_STATE_INTERVAL :: u64 where
  [const_defs]: "STORE_LONG_TERM_STATE_INTERVAL = 10000"

definition DEFAULT_SHORT_TERM_STATE_HISTORY :: u64 where
  [const_defs]: "DEFAULT_SHORT_TERM_STATE_HISTORY = 6 * STATE_CHANGE_TX_LIFETIME_IN_BLOCKS"

definition short_term_state_cull_height :: "u64 \<Rightarrow> u64" where
  "short_term_state_cull_height block_height =
     (if block_height < DEFAULT_SHORT_TERM_STATE_HISTORY then 0
      else block_height - DEFAULT_SHORT_TERM_STATE_HISTORY)"

definition max_short_term_height :: "service_node_list \<Rightarrow> u64" where
  "max_short_term_height nl =
     short_term_state_cull_height (st_height (nl_state nl) - 1) + VOTE_LIFETIME + VOTE_OR_TX_VERIFY_HEIGHT_BUFFER"

text \<open>The result is the returned flag and the list with the data it wrote to the database.\<close>

definition store :: "blockchain_info \<Rightarrow> service_node_list \<Rightarrow> bool \<times> service_node_list" where
  "store B nl =
     (if \<not> bc_has_db B then (False, nl)
      else if bc_current_hard_fork_version B < network_version_9_service_nodes then (True, nl)
      else
        let quorum_states = map (\<lambda>e. serialize_quorum_state (qh_height e) (qh_quorums e)) (nl_old_quorum_states nl);
            max_height = max_short_term_height nl;
            states = map (\<lambda>s. serialize_service_node_state_object s (st_height s < max_height))
                       (states_upto max_height (nl_state_history nl));
            archived = map (\<lambda>s. serialize_service_node_state_object s False) (nl_state_archive nl)
        in (True, nl\<lparr>
             nl_db_long_term := (if nl_state_added_to_archive nl
                                 then Some \<lparr>dfs_quorum_states = [], dfs_states = archived\<rparr>
                                 else nl_db_long_term nl),
             nl_db_short_term := Some \<lparr>dfs_quorum_states = quorum_states, dfs_states = states\<rparr>,
             nl_state_added_to_archive := False\<rparr>))"

text \<open>The short term blob is removed first; when it is missing the long term blob stays.\<close>

definition clear_service_node_data :: "service_node_list \<Rightarrow> service_node_list" where
  "clear_service_node_data nl =
     (case nl_db_short_term nl of
        None \<Rightarrow> nl
      | Some d \<Rightarrow> nl\<lparr>nl_db_short_term := None, nl_db_long_term := None\<rparr>)"

definition reset :: "blockchain_info \<Rightarrow> bool \<Rightarrow> service_node_list \<Rightarrow> service_node_list" where
  "reset B delete_db_entry nl =
     (let nl = nl\<lparr>nl_old_quorum_states := [], nl_state_history := [], nl_state_archive := [],
                  nl_alt_state := [], nl_state_added_to_archive := False,
                  nl_state := initial_state\<lparr>st_height := bc_hardfork_9_from_height B - 1\<rparr>\<rparr>
      in if bc_has_db B \<and> delete_db_entry then clear_service_node_data nl else nl)"

fun get_tx_list :: "'g node_env \<Rightarrow> hash256 list \<Rightarrow> (node_error, transaction list) outcome" where
  "get_tx_list N [] = ret []"
| "get_tx_list N (h # hs) =
     (case ne_get_tx N h of
        None \<Rightarrow> throw db_exception
      | Some tx \<Rightarrow> rbind (get_tx_list N hs) (\<lambda>txs. ret (tx # txs)))"

text \<open>
  The archive of version 0, from its end: a state has the quorums of the one before it.  The
  pairs are those of an entry and the entry before it; the proofs and the archive are passed along.
\<close>

definition load_long_term_v0 ::
    "'g node_env \<Rightarrow> blockchain_info \<Rightarrow> bool \<Rightarrow> state_serialized \<times> state_serialized \<Rightarrow> proof_map \<times> state_set \<Rightarrow>
       (node_error, proof_map \<times> state_set) outcome" where
  "load_long_term_v0 N B rescanning entries pa =
     (let (serialized_entry, prev_serialized_entry) = entries; (proofs, archive) = pa
      in if ss_height prev_serialized_entry mod STORE_LONG_TERM_STATE_INTERVAL = 0 then ret pa
         else
           let entry = state_of_serialized B serialized_entry;
               entry = entry\<lparr>st_height := st_height entry - 1,
                 st_quorums := quorum_for_serialization_to_quorum_manager (ss_quorums prev_serialized_entry)\<rparr>
           in if ss_height serialized_entry mod STORE_LONG_TERM_STATE_INTERVAL = 0
              then
                case ne_get_block_from_height N (st_height entry + 1) of
                  None \<Rightarrow> throw db_exception
                | Some blk \<Rightarrow>
                    rbind (get_tx_list N (blk_tx_hashes blk)) (\<lambda>txs.
                    rbind (update_from_block N rescanning [] [] [] blk txs (proofs, entry)) (\<lambda>(proofs, long_term_state).
                    let entry = entry\<lparr>st_service_nodes_infos := [], st_key_image_blacklist := [],
                                      st_only_loaded_quorums := True\<rparr>
                    in ret (proofs, insert_state entry (insert_state long_term_state archive))))
              else ret (proofs, insert_state entry archive))"

fun load_all_long_term_v0 ::
    "'g node_env \<Rightarrow> blockchain_info \<Rightarrow> bool \<Rightarrow> (state_serialized \<times> state_serialized) list \<Rightarrow> proof_map \<times> state_set \<Rightarrow>
       (node_error, proof_map \<times> state_set) outcome" where
  "load_all_long_term_v0 N B rescanning [] pa = ret pa"
| "load_all_long_term_v0 N B rescanning (e # es) pa =
     rbind (load_long_term_v0 N B rescanning e pa) (load_all_long_term_v0 N B rescanning es)"

definition entries_with_previous :: "'a list \<Rightarrow> ('a \<times> 'a) list" where
  "entries_with_previous xs = zip (rev (tl xs)) (rev (butlast xs))"

text \<open>The flag of the result is false when loading stops because of the archive.\<close>

definition load_long_term ::
    "'g node_env \<Rightarrow> blockchain_info \<Rightarrow> service_node_list \<Rightarrow> (node_error, bool \<times> service_node_list) outcome" where
  "load_long_term N B nl =
     (case nl_db_long_term nl of
        None \<Rightarrow> ret (True, nl)
      | Some data_in \<Rightarrow>
          let states = dfs_states data_in
          in if states = [] then ret (True, nl)
             else if ss_version (hd states) = version_0
             then
               if ss_height (last states) mod STORE_LONG_TERM_STATE_INTERVAL \<noteq> 0 then ret (False, nl)
               else
                 rbind (load_all_long_term_v0 N B (nl_rescanning nl) (entries_with_previous states)
                          (nl_proofs nl, nl_state_archive nl))
                   (\<lambda>(proofs, archive). ret (True, nl\<lparr>nl_proofs := proofs, nl_state_archive := archive\<rparr>))
             else ret (True, nl\<lparr>nl_state_archive :=
                    fold (\<lambda>e. insert_state (state_of_serialized B e)) states (nl_state_archive nl)\<rparr>))"

text \<open>The old quorum states; the flag is false when they are not in ascending order.\<close>

fun load_quorum_states ::
    "u64 \<Rightarrow> u64 \<Rightarrow> quorum_for_serialization list \<Rightarrow> quorums_by_height list \<Rightarrow> bool \<times> quorums_by_height list" where
  "load_quorum_states hist_state_from_height last_loaded_height [] old = (True, old)"
| "load_quorum_states hist_state_from_height last_loaded_height (states # rest) old =
     (if qs_height states < hist_state_from_height
      then load_quorum_states hist_state_from_height last_loaded_height rest old
      else if qs_height states \<le> last_loaded_height then (False, old)
      else load_quorum_states hist_state_from_height (qs_height states) rest
             (old @ [\<lparr>qh_height = qs_height states,
                      qh_quorums = quorum_for_serialization_to_quorum_manager states\<rparr>]))"

definition load_short_term_v0 ::
    "blockchain_info \<Rightarrow> state_serialized list \<Rightarrow> service_node_list \<Rightarrow> service_node_list" where
  "load_short_term_v0 B states nl =
     (let entry_of = (\<lambda>(serialized_entry, prev_serialized_entry).
            let entry = state_of_serialized B serialized_entry
            in entry\<lparr>st_height := st_height entry - 1,
                 st_quorums := quorum_for_serialization_to_quorum_manager (ss_quorums prev_serialized_entry)\<rparr>)
      in case map entry_of (entries_with_previous states) of
           [] \<Rightarrow> nl
         | entry # entries \<Rightarrow>
             nl\<lparr>nl_state := entry, nl_state_archive := fold insert_state entries (nl_state_archive nl)\<rparr>)"

definition load_short_term ::
    "blockchain_info \<Rightarrow> state_serialized list \<Rightarrow> service_node_list \<Rightarrow> service_node_list" where
  "load_short_term B states nl =
     (if ss_version (hd states) = version_0 then load_short_term_v0 B states nl
      else
        let with_hash = (\<lambda>e. if ss_block_hash e = null_hash
                             then e\<lparr>ss_block_hash := bc_block_id_by_height B (ss_height e)\<rparr> else e)
        in nl\<lparr>nl_state_history := fold (\<lambda>e. insert_state (state_of_serialized B (with_hash e))) (butlast states)
                                    (nl_state_history nl),
              nl_state := state_of_serialized B (last states)\<rparr>)"

definition load_proofs :: "blockchain_info \<Rightarrow> service_node_list \<Rightarrow> service_node_list" where
  "load_proofs B nl =
     nl\<lparr>nl_proofs :=
       (case nl_service_node_keys nl of
          None \<Rightarrow> bc_service_node_proofs B
        | Some keys \<Rightarrow> update_proof (sn_pub keys) (\<lambda>p. p\<lparr>pi_timestamp := 0, pi_effective_timestamp := 0\<rparr>)
                         (bc_service_node_proofs B))\<rparr>"

definition load ::
    "'g node_env \<Rightarrow> blockchain_info \<Rightarrow> u64 \<Rightarrow> service_node_list \<Rightarrow> (node_error, bool \<times> service_node_list) outcome" where
  "load N B current_height nl =
     (let nl = reset B False nl
      in if \<not> bc_has_db B then ret (False, nl)
         else
           rbind (load_long_term N B nl) (\<lambda>(ok, nl).
           if \<not> ok then ret (False, nl)
           else
             case nl_db_short_term nl of
               None \<Rightarrow> ret (False, nl)
             | Some data_in \<Rightarrow>
                 if dfs_states data_in = [] then ret (False, nl)
                 else
                   let (ok, old) = load_quorum_states (current_height - nl_store_quorum_history nl) 0
                         (dfs_quorum_states data_in) (nl_old_quorum_states nl);
                       nl = nl\<lparr>nl_old_quorum_states := old\<rparr>
                   in if \<not> ok then ret (False, nl)
                      else if ss_only_stored_quorums (last (dfs_states data_in)) then ret (False, nl)
                      else ret (True, initialize_x25519_map B (load_proofs B
                                  (load_short_term B (dfs_states data_in) nl)))))"

definition init ::
    "'g node_env \<Rightarrow> blockchain_info \<Rightarrow> service_node_list \<Rightarrow> (node_error, service_node_list) outcome" where
  "init N B nl =
     (if bc_current_hard_fork_version B < 9 then ret (reset B True nl)
      else
        let current_height = bc_current_blockchain_height B
        in rbind (load N B current_height nl) (\<lambda>(loaded, nl).
             let loaded = (loaded \<and> \<not> length (nl_old_quorum_states nl) < unat (min (nl_store_quorum_history nl) 10))
             in if \<not> loaded \<or> current_height < st_height (nl_state nl) then ret (reset B True nl)
                else ret nl))"

section \<open>Blocks\<close>

definition need_quorum_for_future_states :: "u64 \<Rightarrow> bool" where
  "need_quorum_for_future_states height =
     (let next_long_term_state = (height div STORE_LONG_TERM_STATE_INTERVAL + 1) * STORE_LONG_TERM_STATE_INTERVAL;
          dist_to_next_long_term_state = next_long_term_state - height
      in dist_to_next_long_term_state \<le> VOTE_LIFETIME + VOTE_OR_TX_VERIFY_HEIGHT_BUFFER)"

text \<open>What happens to a state that leaves the recent history.\<close>

definition cull_state :: "state_t \<Rightarrow> service_node_list \<Rightarrow> service_node_list" where
  "cull_state s nl =
     (let nl = (if nl_store_quorum_history nl \<noteq> 0
                then nl\<lparr>nl_old_quorum_states :=
                       nl_old_quorum_states nl @ [\<lparr>qh_height = st_height s, qh_quorums = st_quorums s\<rparr>]\<rparr>
                else nl);
          need_quorum = need_quorum_for_future_states (st_height s)
      in if st_height s mod STORE_LONG_TERM_STATE_INTERVAL = 0 \<or> need_quorum
         then
           let s = (if need_quorum
                    then s\<lparr>st_service_nodes_infos := [], st_key_image_blacklist := [], st_only_loaded_quorums := True\<rparr>
                    else s)
           in nl\<lparr>nl_state_added_to_archive := True, nl_state_archive := insert_state s (nl_state_archive nl)\<rparr>
         else nl)"

definition cull_history :: "u64 \<Rightarrow> service_node_list \<Rightarrow> service_node_list" where
  "cull_history cull_height nl =
     (let nl = fold cull_state (states_upto cull_height (nl_state_history nl)) nl;
          nl = nl\<lparr>nl_state_history := states_after cull_height (nl_state_history nl)\<rparr>;
          old = nl_old_quorum_states nl
      in nl\<lparr>nl_old_quorum_states := drop (length old - unat (nl_store_quorum_history nl)) old,
            nl_alt_state := filter (\<lambda>(h, s). \<not> st_height s < cull_height) (nl_alt_state nl)\<rparr>)"

definition process_block ::
    "'g node_env \<Rightarrow> block \<Rightarrow> transaction list \<Rightarrow> service_node_list \<Rightarrow> (node_error, service_node_list) outcome" where
  "process_block N blk txs nl =
     (if blk_major_version blk < 9 then ret nl
      else
        let nl = cull_history (short_term_state_cull_height (get_block_height blk)) nl;
            history = insert_state (nl_state nl) (nl_state_history nl)
        in rbind (update_from_block N (nl_rescanning nl) history (nl_state_archive nl) [] blk txs
                    (nl_proofs nl, nl_state nl)) (\<lambda>(proofs, st).
           ret (nl\<lparr>nl_state_history := history, nl_state := st, nl_proofs := proofs\<rparr>)))"

text \<open>The result is the returned flag and the list, which has the block in either case.\<close>

definition block_added ::
    "'g node_env \<Rightarrow> block \<Rightarrow> transaction list \<Rightarrow> checkpoint_t option \<Rightarrow> service_node_list \<Rightarrow>
       (node_error, bool \<times> service_node_list) outcome" where
  "block_added N blk txs checkpoint nl =
     (if blk_major_version blk < network_version_9_service_nodes then ret (True, nl)
      else
        rbind (process_block N blk txs nl) (\<lambda>nl.
        case checkpoint of
          None \<Rightarrow> ret (True, nl)
        | Some cp \<Rightarrow>
            if blk_major_version blk < network_version_13_enforce_checkpoints then ret (True, nl)
            else
              case fst (get_quorum nl checkpointing (cp_height cp) False) of
                None \<Rightarrow> ret (False, nl)
              | Some q \<Rightarrow> ret (verify_checkpoint (ne_crypto N) (blk_major_version blk) cp q, nl)))"

text \<open>The newest state left in the history, or in the archive, becomes the current state.\<close>

definition usable_state :: "state_t option \<Rightarrow> bool" where
  "usable_state s = (case s of None \<Rightarrow> False | Some s \<Rightarrow> \<not> st_only_loaded_quorums s)"

definition blockchain_detached ::
    "'g node_env \<Rightarrow> blockchain_info \<Rightarrow> u64 \<Rightarrow> service_node_list \<Rightarrow> (node_error, service_node_list) outcome" where
  "blockchain_detached N B height nl =
     (let revert_to_height = height - 1;
          prev_interval = revert_to_height - revert_to_height mod STORE_LONG_TERM_STATE_INTERVAL
      in if usable_state (find_state revert_to_height (nl_state_history nl))
         then
           let history = states_upto revert_to_height (nl_state_history nl)
           in ret (nl\<lparr>nl_state := last history, nl_state_history := butlast history\<rparr>)
         else if usable_state (find_state prev_interval (nl_state_archive nl))
         then
           let archive = states_upto prev_interval (nl_state_archive nl)
           in ret (nl\<lparr>nl_state := last archive, nl_state_history := [], nl_state_archive := butlast archive\<rparr>)
         else init N B (nl\<lparr>nl_state_history := [], nl_state_archive := []\<rparr>))"

text \<open>The state an alternative block builds on.\<close>

definition alt_starting_state :: "block \<Rightarrow> service_node_list \<Rightarrow> state_t option" where
  "alt_starting_state blk nl =
     (case find_state (get_block_height blk - 1) (nl_state_history nl) of
        Some s \<Rightarrow> if blk_prev_id blk = st_block_hash s then Some s
                   else map_of (nl_alt_state nl) (blk_prev_id blk)
      | None \<Rightarrow> map_of (nl_alt_state nl) (blk_prev_id blk))"

definition alt_checkpoint_valid :: "crypto_ops \<Rightarrow> u8 \<Rightarrow> checkpoint_t option \<Rightarrow> service_node_list \<Rightarrow> bool" where
  "alt_checkpoint_valid C hf_version checkpoint nl =
     (case checkpoint of
        None \<Rightarrow> True
      | Some cp \<Rightarrow>
          (case get_quorum nl checkpointing (cp_height cp) False of
             (None, alt_quorums) \<Rightarrow> False
           | (Some q, alt_quorums) \<Rightarrow>
               verify_checkpoint C hf_version cp q \<or> list_ex (verify_checkpoint C hf_version cp) alt_quorums))"

definition alt_block_added ::
    "'g node_env \<Rightarrow> block \<Rightarrow> transaction list \<Rightarrow> checkpoint_t option \<Rightarrow> service_node_list \<Rightarrow>
       (node_error, bool \<times> service_node_list) outcome" where
  "alt_block_added N blk txs checkpoint nl =
     (if blk_major_version blk < network_version_9_service_nodes then ret (True, nl)
      else if map_of (nl_alt_state nl) (blk_hash blk) \<noteq> None then ret (True, nl)
      else
        case alt_starting_state blk nl of
          None \<Rightarrow> ret (False, nl)
        | Some starting_state \<Rightarrow>
            if st_block_hash starting_state \<noteq> blk_prev_id blk then ret (False, nl)
            else
              rbind (update_from_block N (nl_rescanning nl) (nl_state_history nl) (nl_state_archive nl)
                       (nl_alt_state nl) blk txs (nl_proofs nl, starting_state)) (\<lambda>(proofs, alt_state).
              let nl = nl\<lparr>nl_proofs := proofs, nl_alt_state := um_assign_key (blk_hash blk) alt_state (nl_alt_state nl)\<rparr>
              in ret (alt_checkpoint_valid (ne_crypto N) (blk_major_version blk) checkpoint nl, nl)))"

section \<open>Facts on sets of states\<close>

definition heights_ascend :: "state_set \<Rightarrow> bool" where
  "heights_ascend states = sorted_wrt (<) (map st_height states)"

lemma heights_ascend_Nil [simp]: "heights_ascend []"
  by (simp add: heights_ascend_def)

lemma heights_ascend_Cons:
  "heights_ascend (s # ss) \<longleftrightarrow> (\<forall>x \<in> set ss. st_height s < st_height x) \<and> heights_ascend ss"
  by (simp add: heights_ascend_def)

lemma heights_ascend_append:
  "heights_ascend (xs @ ys) \<longleftrightarrow>
     heights_ascend xs \<and> heights_ascend ys \<and> (\<forall>x \<in> set xs. \<forall>y \<in> set ys. st_height x < st_height y)"
  by (auto simp: heights_ascend_def sorted_wrt_append)

lemma set_insert_state:
  "heights_ascend ss \<Longrightarrow>
     set (insert_state s ss) = (if st_height s \<in> st_height ` set ss then set ss else insert s (set ss))"
  by (induction s ss rule: insert_state.induct) (auto simp: heights_ascend_Cons)

lemma insert_state_ascend: "heights_ascend ss \<Longrightarrow> heights_ascend (insert_state s ss)"
proof (induction s ss rule: insert_state.induct)
  case (2 s x xs)
  have "set (insert_state s xs) \<subseteq> insert s (set xs)"
    using 2(2) by (subst set_insert_state) (auto simp: heights_ascend_Cons)
  then show ?case using 2 by (auto simp: heights_ascend_Cons)
qed (simp add: heights_ascend_Cons)

lemma insert_state_subset: "set (insert_state s ss) \<subseteq> insert s (set ss)"
  by (induction s ss rule: insert_state.induct) auto

lemma insert_state_last:
  "\<forall>x \<in> set ss. st_height x < st_height s \<Longrightarrow> insert_state s ss = ss @ [s]"
  by (induction s ss rule: insert_state.induct) (auto dest: order.asym)

lemma find_state_iff:
  "heights_ascend ss \<Longrightarrow> find_state h ss = Some s \<longleftrightarrow> s \<in> set ss \<and> st_height s = h"
  by (induction ss) (auto simp: find_state_def heights_ascend_Cons)

lemma find_state_None_iff: "find_state h ss = None \<longleftrightarrow> h \<notin> st_height ` set ss"
  by (induction ss) (auto simp: find_state_def)

lemma find_state_eqI:
  assumes "heights_ascend xs" "heights_ascend ys"
    and "\<And>s. st_height s = h \<Longrightarrow> s \<in> set xs \<longleftrightarrow> s \<in> set ys"
  shows "find_state h xs = find_state h ys"
proof (cases "find_state h xs")
  case None
  then have "find_state h ys = None" using assms(3) by (auto simp: find_state_None_iff)
  then show ?thesis using None by simp
next
  case (Some s)
  then have "s \<in> set xs" "st_height s = h" using assms(1) by (simp_all add: find_state_iff)
  then have "find_state h ys = Some s" using assms(2,3) by (simp add: find_state_iff)
  then show ?thesis using Some by simp
qed

lemma states_upto_filter: "heights_ascend ss \<Longrightarrow> states_upto h ss = filter (\<lambda>s. st_height s \<le> h) ss"
proof (induction ss)
  case (Cons s ss)
  show ?case
  proof (cases "st_height s \<le> h")
    case True
    then show ?thesis using Cons by (simp add: states_upto_def heights_ascend_Cons)
  next
    case False
    then have "filter (\<lambda>s. st_height s \<le> h) ss = []"
      using Cons.prems by (auto simp: heights_ascend_Cons filter_empty_conv)
    then show ?thesis using False by (simp add: states_upto_def)
  qed
qed (simp add: states_upto_def)

lemma states_after_filter: "heights_ascend ss \<Longrightarrow> states_after h ss = filter (\<lambda>s. h < st_height s) ss"
proof (induction ss)
  case (Cons s ss)
  show ?case
  proof (cases "st_height s \<le> h")
    case True
    then show ?thesis using Cons by (simp add: states_after_def heights_ascend_Cons not_less)
  next
    case False
    then have "filter (\<lambda>s. h < st_height s) ss = ss"
      using Cons.prems by (auto simp: heights_ascend_Cons filter_id_conv)
    then show ?thesis using False by (simp add: states_after_def)
  qed
qed (simp add: states_after_def)

lemma heights_ascend_filter: "heights_ascend ss \<Longrightarrow> heights_ascend (filter P ss)"
  by (induction ss) (auto simp: heights_ascend_Cons)

lemma fold_insert_state_ascend:
  "heights_ascend ss \<Longrightarrow> heights_ascend (fold (\<lambda>x. insert_state (f x)) xs ss)"
  by (induction xs arbitrary: ss) (simp_all add: insert_state_ascend)

lemma fold_insert_state_subset: "set (fold (\<lambda>x. insert_state (f x)) xs ss) \<subseteq> f ` set xs \<union> set ss"
proof (induction xs arbitrary: ss)
  case (Cons x xs)
  then show ?case using insert_state_subset [of "f x" ss] by fastforce
qed simp

lemma fold_insert_state_append:
  "heights_ascend (ss @ map f xs) \<Longrightarrow> fold (\<lambda>x. insert_state (f x)) xs ss = ss @ map f xs"
proof (induction xs arbitrary: ss)
  case (Cons x xs)
  have "insert_state (f x) ss = ss @ [f x]"
    using Cons.prems by (intro insert_state_last) (auto simp: heights_ascend_append)
  then show ?case using Cons.IH [of "ss @ [f x]"] Cons.prems by simp
qed simp

section \<open>Facts on the search for old quorums\<close>

lemma lower_bound_spec:
  assumes "first + len \<le> length xs"
    and "\<forall>i j. i \<le> j \<longrightarrow> j < length xs \<longrightarrow> before (xs ! j) \<longrightarrow> before (xs ! i)"
    and "\<forall>i < first. before (xs ! i)"
    and "\<forall>i < length xs. first + len \<le> i \<longrightarrow> \<not> before (xs ! i)"
  shows "lower_bound before xs first len \<le> length xs \<and>
     (\<forall>i < length xs. before (xs ! i) \<longleftrightarrow> i < lower_bound before xs first len)"
  using assms
proof (induction before xs first len rule: lower_bound.induct)
  case (1 before xs first len)
  show ?case
  proof (cases "len = 0")
    case True
    then have "lower_bound before xs first len = first" by (subst lower_bound.simps) simp
    moreover have "before (xs ! i) \<longleftrightarrow> i < first" if "i < length xs" for i
      using "1.prems"(3,4) True that by (cases "i < first") auto
    ultimately show ?thesis using "1.prems"(1) by auto
  next
    case False
    let ?h = "len div 2"
    have h: "first + ?h < length xs" "?h < len" using False "1.prems"(1) by linarith+
    show ?thesis
    proof (cases "before (xs ! (first + ?h))")
      case True
      have below: "\<forall>i < first + ?h + 1. before (xs ! i)"
      proof (intro allI impI)
        fix i assume "i < first + ?h + 1"
        then have "i \<le> first + ?h" by linarith
        then show "before (xs ! i)" using "1.prems"(2) h(1) True by blast
      qed
      have range: "first + ?h + 1 + (len - ?h - 1) = first + len" using h by linarith
      have step: "lower_bound before xs first len = lower_bound before xs (first + ?h + 1) (len - ?h - 1)"
        using False True by (subst lower_bound.simps) (simp add: Let_def)
      show ?thesis unfolding step
        by (rule "1.IH"(1) [OF False refl True _ "1.prems"(2) below]) (unfold range, fact "1.prems"(1), fact "1.prems"(4))
    next
      case no: False
      have above: "\<forall>i < length xs. first + ?h \<le> i \<longrightarrow> \<not> before (xs ! i)"
        using "1.prems"(2) no by blast
      have step: "lower_bound before xs first len = lower_bound before xs first ?h"
        using False no by (subst lower_bound.simps) (simp add: Let_def)
      have "first + ?h \<le> length xs" using h by linarith
      then show ?thesis unfolding step
        by (rule "1.IH"(2) [OF False refl no _ "1.prems"(2,3) above])
    qed
  qed
qed

lemma find_old_quorums_iff:
  assumes "sorted_wrt (<) (map qh_height old)"
  shows "find_old_quorums h old = Some qs \<longleftrightarrow> \<lparr>qh_height = h, qh_quorums = qs\<rparr> \<in> set old"
proof -
  define i where "i = lower_bound (\<lambda>e. qh_height e < h) old 0 (length old)"
  have mono: "qh_height (old ! a) < qh_height (old ! b)" if "a < b" "b < length old" for a b
    using sorted_wrt_nth_less [OF assms, of a b] that by simp
  have "qh_height (old ! a) < h" if "a \<le> b" "b < length old" "qh_height (old ! b) < h" for a b
    using mono [of a b] that by (cases "a = b") auto
  then have i: "i \<le> length old" "\<And>k. k < length old \<Longrightarrow> qh_height (old ! k) < h \<longleftrightarrow> k < i"
    using lower_bound_spec [of 0 "length old" old "\<lambda>e. qh_height e < h"] unfolding i_def by auto
  show ?thesis
  proof
    assume "find_old_quorums h old = Some qs"
    then have "i < length old" "old ! i = \<lparr>qh_height = h, qh_quorums = qs\<rparr>"
      by (auto simp: find_old_quorums_def Let_def simp flip: i_def split: if_splits)
    then show "\<lparr>qh_height = h, qh_quorums = qs\<rparr> \<in> set old" by (metis nth_mem)
  next
    assume "\<lparr>qh_height = h, qh_quorums = qs\<rparr> \<in> set old"
    then obtain k where k: "k < length old" "old ! k = \<lparr>qh_height = h, qh_quorums = qs\<rparr>"
      by (auto simp: in_set_conv_nth)
    have "\<not> k < i" using i(2) [of k] k by simp
    moreover have "\<not> i < k"
    proof
      assume "i < k"
      then have "qh_height (old ! i) < h" using mono [of i k] k by simp
      then show False using i(2) [of i] \<open>i < k\<close> k(1) by simp
    qed
    ultimately have "k = i" by simp
    then show "find_old_quorums h old = Some qs"
      using k by (simp add: find_old_quorums_def Let_def flip: i_def)
  qed
qed

end
