(* ===== verification/List_Blocks.thy ===== *)
theory List_Blocks
  imports Node_List Block_Update
begin

text \<open>
  Facts on the service node list across blocks, reorganisations and restarts: the invariant that
  every operation keeps, and the comparison of a list that went through a reorganisation with one
  that did not.  The hard fork of a height is a function \<open>ver\<close>; a block fits a list when it
  is for the next height and has the hard fork of that height.
\<close>

section \<open>The invariant of the list\<close>

definition all_states :: "service_node_list \<Rightarrow> state_t set" where
  "all_states nl = insert (nl_state nl)
     (set (nl_state_history nl) \<union> set (nl_state_archive nl) \<union> snd ` set (nl_alt_state nl))"

text \<open>What the database holds was written by the current version of the code.\<close>

definition stored_ok :: "(u64 \<Rightarrow> u8) \<Rightarrow> data_for_serialization option \<Rightarrow> bool" where
  "stored_ok ver d =
     (case d of
        None \<Rightarrow> True
      | Some d \<Rightarrow>
          sorted_wrt (<) (map ss_height (dfs_states d)) \<and>
          (\<forall>ss \<in> set (dfs_states d). ss_version ss = version_1_serialize_hash \<and> um_wf (ss_infos ss) \<and>
             (\<forall>e \<in> set (ss_infos ss). info_inv (ver (ss_height ss)) (snd e))))"

definition list_ok :: "(u64 \<Rightarrow> u8) \<Rightarrow> service_node_list \<Rightarrow> bool" where
  "list_ok ver nl \<longleftrightarrow>
     heights_ascend (nl_state_history nl) \<and> heights_ascend (nl_state_archive nl) \<and> um_wf (nl_alt_state nl) \<and>
     (\<forall>s \<in> set (nl_state_history nl). st_height s < st_height (nl_state nl)) \<and>
     \<not> st_only_loaded_quorums (nl_state nl) \<and>
     (\<forall>s \<in> all_states nl. node_inv (ver (st_height s)) s) \<and>
     stored_ok ver (nl_db_long_term nl) \<and> stored_ok ver (nl_db_short_term nl)"

text \<open>A block for the height after \<open>height\<close>, with the hard fork of its height.\<close>

definition fits :: "(u64 \<Rightarrow> u8) \<Rightarrow> u64 \<Rightarrow> block \<Rightarrow> bool" where
  "fits ver height blk \<longleftrightarrow>
     height < UINT64_MAX \<and> get_block_height blk = height + 1 \<and>
     blk_major_version blk = ver (height + 1) \<and> ver height \<le> ver (height + 1) \<and> 9 \<le> blk_major_version blk"

lemma next_height: "h < UINT64_MAX \<Longrightarrow> unat (h + 1 :: u64) = unat h + 1" "h < UINT64_MAX \<Longrightarrow> h < h + (1 :: u64)"
proof -
  assume "h < UINT64_MAX"
  then have "unat h < 18446744073709551615" using unat_UINT64_MAX by (simp add: word_less_nat_alt)
  then show *: "unat (h + 1) = unat h + 1" by (subst unat_add_no_wrap) simp_all
  show "h < h + 1" using * by (simp add: word_less_nat_alt)
qed

section \<open>Reading back what was stored\<close>

lemma um_assign_fresh: "k \<notin> fst ` set m \<Longrightarrow> um_assign_key k v m = m @ [(k, v)]"
  by (induction k v m rule: um_assign_key.induct) auto

lemma fold_insert_new:
  assumes "distinct (map fst xs)" "fst ` set xs \<inter> fst ` set m = {}"
  shows "fold (\<lambda>(k, i). um_insert_new k (f i)) xs m = m @ map (\<lambda>(k, i). (k, f i)) xs"
  using assms
proof (induction xs arbitrary: m)
  case (Cons e xs)
  obtain k i where e: "e = (k, i)" by fastforce
  have "um_insert_new k (f i) m = m @ [(k, f i)]"
    using Cons.prems by (simp add: e um_insert_new_def keys_of_def um_assign_fresh)
  then show ?case using Cons.IH [of "m @ [(k, f i)]"] Cons.prems by (auto simp: e)
qed simp

lemma state_of_serialized_infos:
  "um_wf (ss_infos ss) \<Longrightarrow>
     infos_of (state_of_serialized B ss) = map (\<lambda>(k, i). (k, upgrade_info B i)) (ss_infos ss)"
  using fold_insert_new [of "ss_infos ss" "[]" "upgrade_info B"]
  by (simp add: state_of_serialized_def um_wf_def keys_of_def)

lemma upgrade_info_inv: "info_inv v i \<Longrightarrow> info_inv v (upgrade_info B i)"
  by (simp add: info_inv_def upgrade_info_def stake_ok_def stake_backed_def total_num_locked_contributions_def)

lemma state_of_serialized_inv:
  assumes "um_wf (ss_infos ss)" "\<forall>e \<in> set (ss_infos ss). info_inv v (snd e)"
  shows "node_inv v (state_of_serialized B ss)"
proof -
  have "keys_of (infos_of (state_of_serialized B ss)) = keys_of (ss_infos ss)"
    by (simp add: state_of_serialized_infos assms(1) keys_of_def case_prod_unfold comp_def)
  then have "um_wf (infos_of (state_of_serialized B ss))" using assms(1) by (simp add: um_wf_def)
  then show ?thesis
    using assms(2) by (auto simp: node_inv_def state_of_serialized_infos assms(1) upgrade_info_inv)
qed

lemma serialized_height [simp]:
  "st_height (state_of_serialized B ss) = ss_height ss"
  "ss_height (serialize_service_node_state_object s b) = st_height s"
  by (simp_all add: state_of_serialized_def serialize_service_node_state_object_def Let_def)

lemma serialize_ok:
  assumes "node_inv (ver (st_height s)) s"
  shows "ss_version (serialize_service_node_state_object s b) = version_1_serialize_hash \<and>
     um_wf (ss_infos (serialize_service_node_state_object s b)) \<and>
     (\<forall>e \<in> set (ss_infos (serialize_service_node_state_object s b)). info_inv (ver (st_height s)) (snd e))"
  using assms by (simp add: serialize_service_node_state_object_def Let_def node_inv_def um_wf_def keys_of_def)

lemma stored_states_inv:
  assumes "stored_ok ver (Some d)" "ss \<in> set (dfs_states d)"
  shows "node_inv (ver (ss_height ss)) (state_of_serialized B ss) \<and> ss_version ss = version_1_serialize_hash"
  using assms state_of_serialized_inv [of ss "ver (ss_height ss)" B] by (simp add: stored_ok_def)

lemma serialized_ok:
  assumes "heights_ascend ss" "\<forall>s \<in> set ss. node_inv (ver (st_height s)) s"
  shows "stored_ok ver (Some \<lparr>dfs_quorum_states = qs, dfs_states = map (\<lambda>s. serialize_service_node_state_object s (f s)) ss\<rparr>)"
  using assms serialize_ok [of ver] by (auto simp: stored_ok_def heights_ascend_def comp_def)

lemma store_ok:
  assumes "list_ok ver nl"
  shows "list_ok ver (snd (store B nl))"
proof -
  let ?h = "states_upto (max_short_term_height nl) (nl_state_history nl)"
  have "heights_ascend ?h" "\<forall>s \<in> set ?h. node_inv (ver (st_height s)) s"
    using assms by (auto simp: list_ok_def all_states_def states_upto_filter heights_ascend_filter)
  moreover have "\<forall>s \<in> set (nl_state_archive nl). node_inv (ver (st_height s)) s"
    using assms by (auto simp: list_ok_def all_states_def)
  ultimately have "stored_ok ver (nl_db_short_term (snd (store B nl)))" "stored_ok ver (nl_db_long_term (snd (store B nl)))"
    using assms by (auto simp: store_def Let_def list_ok_def intro!: serialized_ok)
  moreover have "all_states (snd (store B nl)) = all_states nl" by (simp add: store_def Let_def all_states_def)
  ultimately show ?thesis using assms by (simp add: list_ok_def store_def Let_def split: if_splits)
qed

lemma reset_ok:
  assumes "stored_ok ver (nl_db_long_term nl)" "stored_ok ver (nl_db_short_term nl)"
  shows "list_ok ver (reset B d nl)"
  using assms
  by (auto simp: reset_def clear_service_node_data_def Let_def list_ok_def all_states_def initial_state_def node_inv_def
        um_wf_def keys_of_def stored_ok_def split: option.splits)

text \<open>The part of the list that loading starts from: the reset list with the same stored data.\<close>

lemma load_long_term_ok:
  assumes "list_ok ver nl" "load_long_term N B nl = ret (ok, nl')"
  shows "list_ok ver nl' \<and> nl_db_long_term nl' = nl_db_long_term nl \<and> nl_db_short_term nl' = nl_db_short_term nl \<and>
     nl_state nl' = nl_state nl \<and> nl_state_history nl' = nl_state_history nl \<and> nl_alt_state nl' = nl_alt_state nl"
proof (cases "nl_db_long_term nl")
  case None
  then show ?thesis using assms by (simp add: load_long_term_def)
next
  case (Some d)
  have st: "stored_ok ver (Some d)" using assms(1) Some by (simp add: list_ok_def)
  show ?thesis
  proof (cases "dfs_states d = []")
    case True
    then show ?thesis using assms Some by (simp add: load_long_term_def)
  next
    case False
    let ?a = "fold (\<lambda>e. insert_state (state_of_serialized B e)) (dfs_states d) (nl_state_archive nl)"
    have "ss_version (hd (dfs_states d)) = version_1_serialize_hash"
      using stored_states_inv [OF st, of "hd (dfs_states d)"] False by simp
    then have nl': "nl' = nl\<lparr>nl_state_archive := ?a\<rparr>"
      using assms(2) Some False by (simp add: load_long_term_def Let_def)
    have "heights_ascend ?a" using assms(1) by (simp add: fold_insert_state_ascend list_ok_def)
    moreover have "\<forall>s \<in> set ?a. node_inv (ver (st_height s)) s"
      using fold_insert_state_subset [of "state_of_serialized B" "dfs_states d" "nl_state_archive nl"]
        stored_states_inv [OF st] assms(1) by (fastforce simp: list_ok_def all_states_def)
    ultimately show ?thesis using assms(1) by (auto simp: nl' list_ok_def all_states_def)
  qed
qed

lemma load_short_term_ok:
  assumes ok: "list_ok ver nl" and h: "nl_state_history nl = []" and st: "stored_ok ver (Some d)"
    and ne: "dfs_states d \<noteq> []" and only: "\<not> ss_only_stored_quorums (last (dfs_states d))"
  shows "list_ok ver (load_short_term B (dfs_states d) nl)"
proof -
  let ?nl = "load_short_term B (dfs_states d) nl"
  define wh :: "state_serialized \<Rightarrow> state_serialized" where "wh e = (if ss_block_hash e = null_hash then e\<lparr>ss_block_hash := bc_block_id_by_height B (ss_height e)\<rparr> else e)" for e
  have wh: "ss_height (wh e) = ss_height e" "ss_infos (wh e) = ss_infos e" for e by (simp_all add: wh_def)
  have "ss_version (hd (dfs_states d)) = version_1_serialize_hash"
    using stored_states_inv [OF st, of "hd (dfs_states d)"] ne by simp
  then have nl: "?nl = nl\<lparr>nl_state_history := fold (\<lambda>e. insert_state (state_of_serialized B (wh e))) (butlast (dfs_states d)) [],
      nl_state := state_of_serialized B (last (dfs_states d))\<rparr>"
    by (simp add: load_short_term_def Let_def h wh_def)
  have inv: "node_inv (ver (ss_height e)) (state_of_serialized B (wh e))" if "e \<in> set (dfs_states d)" for e
    using state_of_serialized_inv [of "wh e" "ver (ss_height e)" B] st that by (simp add: stored_ok_def wh)
  have sub: "set (nl_state_history ?nl) \<subseteq> (\<lambda>e. state_of_serialized B (wh e)) ` set (butlast (dfs_states d))"
    unfolding nl using fold_insert_state_subset [of "\<lambda>e. state_of_serialized B (wh e)" "butlast (dfs_states d)" "[]"] by simp
  have low: "ss_height e < ss_height (last (dfs_states d))" if "e \<in> set (butlast (dfs_states d))" for e
  proof -
    have "sorted_wrt (<) (map ss_height (butlast (dfs_states d) @ [last (dfs_states d)]))"
      using st ne by (simp add: stored_ok_def)
    then show ?thesis using that by (auto simp: sorted_wrt_append)
  qed
  have "\<forall>s \<in> set (nl_state_history ?nl). st_height s < st_height (nl_state ?nl)"
    using sub low by (fastforce simp: nl wh)
  moreover have "\<forall>s \<in> set (nl_state_history ?nl). node_inv (ver (st_height s)) s"
    using sub inv by (fastforce simp: wh dest: in_set_butlastD)
  moreover have "node_inv (ver (st_height (nl_state ?nl))) (nl_state ?nl)"
    using stored_states_inv [OF st, of "last (dfs_states d)"] ne by (simp add: nl)
  moreover have "heights_ascend (nl_state_history ?nl)" by (simp add: nl fold_insert_state_ascend)
  moreover have "\<not> st_only_loaded_quorums (nl_state ?nl)" using only by (simp add: nl state_of_serialized_def)
  ultimately show ?thesis using ok by (auto simp: list_ok_def all_states_def nl)
qed

lemma load_ok:
  assumes "stored_ok ver (nl_db_long_term nl)" "stored_ok ver (nl_db_short_term nl)"
    and "load N B h nl = ret (ok, nl')"
  shows "list_ok ver nl'"
proof -
  have r: "list_ok ver (reset B False nl)" by (rule reset_ok [OF assms(1,2)])
  have hist: "nl_state_history (reset B False nl) = []" by (simp add: reset_def Let_def)
  have upd: "list_ok ver (x\<lparr>nl_old_quorum_states := old\<rparr>) = list_ok ver x"
    "list_ok ver (initialize_x25519_map B (load_proofs B x)) = list_ok ver x" for x old
    by (simp_all add: list_ok_def all_states_def initialize_x25519_map_def load_proofs_def)
  show ?thesis
  proof (cases "bc_has_db B")
    case False
    then show ?thesis using assms(3) r by (simp add: load_def Let_def)
  next
    case True
    then obtain ok1 nl1 where l: "load_long_term N B (reset B False nl) = ret (ok1, nl1)"
      using assms(3) by (auto simp: load_def Let_def rbind_eq_ret_iff)
    have ok1: "list_ok ver nl1" "nl_state_history nl1 = []" using load_long_term_ok [OF r l] hist by simp_all
    have "stored_ok ver (nl_db_short_term nl1)" using ok1 by (simp add: list_ok_def)
    then show ?thesis
      using assms(3) True l ok1 load_short_term_ok [where nl = "nl1\<lparr>nl_old_quorum_states := old\<rparr>" for old]
      by (auto simp: load_def Let_def upd split: if_splits option.splits prod.splits)
  qed
qed

lemma init_ok:
  assumes "stored_ok ver (nl_db_long_term nl)" "stored_ok ver (nl_db_short_term nl)"
    and "init N B nl = ret nl'"
  shows "list_ok ver nl'"
proof (cases "bc_current_hard_fork_version B < 9")
  case True
  then show ?thesis using assms reset_ok [of ver nl B True] by (simp add: init_def)
next
  case False
  then obtain ok1 nl1 where l: "load N B (bc_current_blockchain_height B) nl = ret (ok1, nl1)"
    and nl': "nl' = nl1 \<or> nl' = reset B True nl1"
    using assms(3) by (auto simp: init_def Let_def rbind_eq_ret_iff split: if_splits)
  have "list_ok ver nl1" by (rule load_ok [OF assms(1,2) l])
  then show ?thesis using nl' reset_ok [of ver nl1 B True] by (auto simp: list_ok_def)
qed

section \<open>Leaving the recent history\<close>

definition archived_form :: "state_t \<Rightarrow> state_t" where
  "archived_form s =
     (if need_quorum_for_future_states (st_height s)
      then s\<lparr>st_service_nodes_infos := [], st_key_image_blacklist := [], st_only_loaded_quorums := True\<rparr> else s)"

lemma archived_form_fields [simp]:
  "st_height (archived_form s) = st_height s" "st_quorums (archived_form s) = st_quorums s"
  by (simp_all add: archived_form_def)

lemma archived_form_inv: "node_inv v s \<Longrightarrow> node_inv v (archived_form s)"
  by (simp add: archived_form_def node_inv_def um_wf_def keys_of_def)

text \<open>The parts of the list that culling does not touch.\<close>

definition kept_part :: "service_node_list \<Rightarrow> service_node_list" where
  "kept_part nl = nl\<lparr>nl_old_quorum_states := [], nl_state_archive := [], nl_state_added_to_archive := False,
     nl_state_history := [], nl_alt_state := []\<rparr>"

lemma kept_part_eq:
  assumes "kept_part x = kept_part y"
  shows "nl_state x = nl_state y" "nl_proofs x = nl_proofs y" "nl_rescanning x = nl_rescanning y"
    "nl_db_long_term x = nl_db_long_term y" "nl_db_short_term x = nl_db_short_term y"
    "nl_store_quorum_history x = nl_store_quorum_history y"
proof -
  have "f (kept_part x) = f (kept_part y)" for f :: "service_node_list \<Rightarrow> 'b" by (simp add: assms)
  from this [of nl_state] this [of nl_proofs] this [of nl_rescanning] this [of nl_db_long_term]
    this [of nl_db_short_term] this [of nl_store_quorum_history]
  show "nl_state x = nl_state y" "nl_proofs x = nl_proofs y" "nl_rescanning x = nl_rescanning y"
    "nl_db_long_term x = nl_db_long_term y" "nl_db_short_term x = nl_db_short_term y"
    "nl_store_quorum_history x = nl_store_quorum_history y"
    by (simp_all add: kept_part_def)
qed

lemma cull_state_kept:
  "kept_part (cull_state s nl) = kept_part nl"
  "nl_state_history (cull_state s nl) = nl_state_history nl" "nl_alt_state (cull_state s nl) = nl_alt_state nl"
  by (simp_all add: cull_state_def kept_part_def Let_def)

lemma cull_state_archive:
  "nl_state_archive (cull_state s nl) =
     (if st_height s mod STORE_LONG_TERM_STATE_INTERVAL = 0 \<or> need_quorum_for_future_states (st_height s)
      then insert_state (archived_form s) (nl_state_archive nl) else nl_state_archive nl)"
  by (simp add: cull_state_def archived_form_def Let_def)

lemma fold_cull_kept:
  "kept_part (fold cull_state ss nl) = kept_part nl \<and> nl_state_history (fold cull_state ss nl) = nl_state_history nl \<and>
   nl_alt_state (fold cull_state ss nl) = nl_alt_state nl"
  by (induction ss arbitrary: nl) (simp_all add: cull_state_kept)

lemma fold_cull_archive:
  "heights_ascend (nl_state_archive nl) \<Longrightarrow>
     heights_ascend (nl_state_archive (fold cull_state ss nl)) \<and>
     set (nl_state_archive (fold cull_state ss nl)) \<subseteq> set (nl_state_archive nl) \<union> archived_form ` set ss"
proof (induction ss arbitrary: nl)
  case (Cons s ss)
  have "heights_ascend (nl_state_archive (cull_state s nl))"
    using Cons.prems by (simp add: cull_state_archive insert_state_ascend)
  moreover have "set (nl_state_archive (cull_state s nl)) \<subseteq> insert (archived_form s) (set (nl_state_archive nl))"
    using insert_state_subset [of "archived_form s" "nl_state_archive nl"] by (auto simp: cull_state_archive)
  ultimately show ?case using Cons.IH [of "cull_state s nl"] by auto
qed simp

lemma cull_history_kept:
  "kept_part (cull_history h nl) = kept_part nl"
  "nl_state_history (cull_history h nl) = states_after h (nl_state_history nl)"
  "nl_alt_state (cull_history h nl) = filter (\<lambda>(k, s). \<not> st_height s < h) (nl_alt_state nl)"
  using fold_cull_kept [of "states_upto h (nl_state_history nl)" nl]
  by (simp_all add: cull_history_def Let_def kept_part_def)

lemma cull_history_archive:
  assumes "heights_ascend (nl_state_archive nl)" "heights_ascend (nl_state_history nl)"
  shows "heights_ascend (nl_state_archive (cull_history h nl)) \<and>
     set (nl_state_archive (cull_history h nl)) \<subseteq>
       set (nl_state_archive nl) \<union> archived_form ` {s \<in> set (nl_state_history nl). st_height s \<le> h}"
  using fold_cull_archive [OF assms(1), of "states_upto h (nl_state_history nl)"]
  by (simp add: cull_history_def Let_def states_upto_filter assms(2))

lemma cull_history_ok:
  assumes "list_ok ver nl"
  shows "list_ok ver (cull_history h nl)"
proof -
  have arch: "heights_ascend (nl_state_archive (cull_history h nl))"
    "set (nl_state_archive (cull_history h nl)) \<subseteq>
       set (nl_state_archive nl) \<union> archived_form ` {s \<in> set (nl_state_history nl). st_height s \<le> h}"
    using cull_history_archive [of nl h] assms by (auto simp: list_ok_def)
  have inv: "\<forall>s \<in> all_states nl. node_inv (ver (st_height s)) s" using assms by (simp add: list_ok_def)
  have "node_inv (ver (st_height s)) s" if s: "s \<in> set (nl_state_archive (cull_history h nl))" for s
  proof -
    consider "s \<in> set (nl_state_archive nl)" | t where "t \<in> set (nl_state_history nl)" "s = archived_form t"
      using arch(2) s by blast
    then show ?thesis
    proof cases
      case 1
      then show ?thesis using inv by (simp add: all_states_def)
    next
      case (2 t)
      then have "node_inv (ver (st_height t)) t" using inv by (simp add: all_states_def)
      then show ?thesis using 2(2) by (simp add: archived_form_inv)
    qed
  qed
  moreover have "um_wf (nl_alt_state (cull_history h nl))"
    using assms unfolding cull_history_kept list_ok_def by (intro um.wf_filter) simp
  ultimately show ?thesis
    using assms arch(1) kept_part_eq [OF cull_history_kept(1) [of h nl]] inv
    by (auto simp: list_ok_def cull_history_kept states_after_filter heights_ascend_filter all_states_def)
qed

section \<open>Adding blocks\<close>

lemma process_block_result:
  assumes "process_block N blk txs nl = ret nl'" "9 \<le> blk_major_version blk"
    and "c = cull_history (short_term_state_cull_height (get_block_height blk)) nl"
    and "hist = insert_state (nl_state nl) (nl_state_history c)"
  obtains proofs st where
    "update_from_block N (nl_rescanning nl) hist (nl_state_archive c) [] blk txs (nl_proofs nl, nl_state nl) = ret (proofs, st)"
    "nl' = c\<lparr>nl_state_history := hist, nl_state := st, nl_proofs := proofs\<rparr>"
  using assms kept_part_eq [OF cull_history_kept(1) [of "short_term_state_cull_height (get_block_height blk)" nl]]
  by (auto simp: process_block_def Let_def rbind_eq_ret_iff leD)

lemma process_block_ok:
  assumes ok: "list_ok ver nl" and fits: "fits ver (st_height (nl_state nl)) blk" and run: "process_block N blk txs nl = ret nl'"
  shows "list_ok ver nl' \<and> st_height (nl_state nl') = st_height (nl_state nl) + 1 \<and>
     qm_obligations (st_quorums (nl_state nl')) \<noteq> None"
proof -
  define c where "c = cull_history (short_term_state_cull_height (get_block_height blk)) nl"
  define hist where "hist = insert_state (nl_state nl) (nl_state_history c)"
  have v9: "9 \<le> blk_major_version blk" using fits unfolding fits_def by blast
  obtain proofs st where
    u: "update_from_block N (nl_rescanning nl) hist (nl_state_archive c) [] blk txs (nl_proofs nl, nl_state nl) = ret (proofs, st)"
    and nl': "nl' = c\<lparr>nl_state_history := hist, nl_state := st, nl_proofs := proofs\<rparr>"
    using process_block_result [OF run v9 c_def hist_def] by blast
  have okc: "list_ok ver c" unfolding c_def by (rule cull_history_ok [OF ok])
  have same: "nl_state c = nl_state nl" unfolding c_def using kept_part_eq(1) [OF cull_history_kept(1)] .
  have inv: "node_inv (ver (st_height (nl_state nl))) (nl_state nl)" using ok by (simp add: list_ok_def all_states_def)
  have up: "node_inv (blk_major_version blk) st" "st_height st = st_height (nl_state nl) + 1"
    "st_only_loaded_quorums st = st_only_loaded_quorums (nl_state nl)" "qm_obligations (st_quorums st) \<noteq> None"
    using update_from_block_inv [OF inv _ u] fits by (simp_all add: fits_def)
  have hist: "hist = nl_state_history c @ [nl_state nl]"
    unfolding hist_def using okc same by (intro insert_state_last) (simp add: list_ok_def)
  have lt: "st_height (nl_state nl) < st_height st" using up(2) fits next_height(2) by (simp add: fits_def)
  have "heights_ascend hist" using okc same by (auto simp: hist heights_ascend_append heights_ascend_Cons list_ok_def)
  moreover have "\<forall>s \<in> set hist. st_height s < st_height st"
    using okc same lt by (auto simp: hist list_ok_def dest: order.strict_trans)
  moreover have "\<forall>s \<in> insert st (all_states c). node_inv (ver (st_height s)) s"
    using okc up(1,2) fits by (auto simp: list_ok_def fits_def)
  moreover have "all_states nl' \<subseteq> insert st (all_states c)" by (auto simp: nl' hist all_states_def same)
  ultimately show ?thesis using okc up(2,3,4) same by (auto simp: nl' list_ok_def)
qed

lemma block_added_ok:
  assumes "list_ok ver nl" "fits ver (st_height (nl_state nl)) blk" "block_added N blk txs cp nl = ret (ok, nl')"
  shows "list_ok ver nl' \<and> st_height (nl_state nl') = st_height (nl_state nl) + 1"
proof -
  have "9 \<le> blk_major_version blk" using assms(2) unfolding fits_def by blast
  then have "\<not> blk_major_version blk < network_version_9_service_nodes" by (simp add: const_defs not_less)
  then have "process_block N blk txs nl = ret nl'"
    using assms(3) by (auto simp: block_added_def rbind_eq_ret_iff split: option.splits if_splits)
  from process_block_ok [OF assms(1,2) this] show ?thesis by blast
qed

lemma find_state_upto:
  assumes "heights_ascend ss" "find_state h ss = Some s"
  obtains pre where "states_upto h ss = pre @ [s]" "\<forall>x \<in> set pre. x \<in> set ss \<and> st_height x < h"
proof -
  have s: "s \<in> set ss" "st_height s = h" using assms by (simp_all add: find_state_iff)
  then obtain pre post where ss: "ss = pre @ s # post" by (meson split_list)
  have pre: "\<forall>x \<in> set pre. st_height x < h" and post: "\<forall>x \<in> set post. h < st_height x"
    using assms(1) s(2) by (auto simp: ss heights_ascend_append heights_ascend_Cons)
  have "filter (\<lambda>s. st_height s \<le> h) pre = pre" using pre by (auto simp: filter_id_conv)
  moreover have "filter (\<lambda>s. st_height s \<le> h) post = []" using post by (auto simp: filter_empty_conv)
  ultimately have "states_upto h ss = pre @ [s]" using assms(1) s(2) by (simp add: states_upto_filter) (simp add: ss)
  moreover have "\<forall>x \<in> set pre. x \<in> set ss \<and> st_height x < h" using pre by (simp add: ss)
  ultimately show ?thesis by (rule that)
qed

lemma usable_stateE:
  assumes "usable_state (find_state h ss)"
  obtains s where "find_state h ss = Some s" "\<not> st_only_loaded_quorums s"
  using assms by (auto simp: usable_state_def split: option.splits)

lemma detached_history:
  assumes "heights_ascend (nl_state_history nl)" "find_state (h - 1) (nl_state_history nl) = Some s" "\<not> st_only_loaded_quorums s"
  obtains pre where "states_upto (h - 1) (nl_state_history nl) = pre @ [s]"
    "\<forall>x \<in> set pre. x \<in> set (nl_state_history nl) \<and> st_height x < h - 1"
    "blockchain_detached N B h nl = ret (nl\<lparr>nl_state := s, nl_state_history := pre\<rparr>)"
proof -
  obtain pre where pre: "states_upto (h - 1) (nl_state_history nl) = pre @ [s]"
    "\<forall>x \<in> set pre. x \<in> set (nl_state_history nl) \<and> st_height x < h - 1"
    using find_state_upto [OF assms(1,2)] by blast
  have "blockchain_detached N B h nl = ret (nl\<lparr>nl_state := s, nl_state_history := pre\<rparr>)"
    using assms(2,3) pre(1) by (simp add: blockchain_detached_def Let_def usable_state_def)
  from that [OF pre this] show ?thesis .
qed

lemma detached_archive:
  assumes "heights_ascend (nl_state_archive nl)" "\<not> usable_state (find_state (h - 1) (nl_state_history nl))"
    and "p = h - 1 - (h - 1) mod STORE_LONG_TERM_STATE_INTERVAL"
    and "find_state p (nl_state_archive nl) = Some s" "\<not> st_only_loaded_quorums s"
  obtains pre where "states_upto p (nl_state_archive nl) = pre @ [s]"
    "\<forall>x \<in> set pre. x \<in> set (nl_state_archive nl) \<and> st_height x < p"
    "blockchain_detached N B h nl = ret (nl\<lparr>nl_state := s, nl_state_history := [], nl_state_archive := pre\<rparr>)"
proof -
  obtain pre where pre: "states_upto p (nl_state_archive nl) = pre @ [s]"
    "\<forall>x \<in> set pre. x \<in> set (nl_state_archive nl) \<and> st_height x < p"
    using find_state_upto [OF assms(1,4)] by blast
  have "blockchain_detached N B h nl = ret (nl\<lparr>nl_state := s, nl_state_history := [], nl_state_archive := pre\<rparr>)"
    using assms(2,4,5) pre(1) by (simp add: blockchain_detached_def Let_def flip: assms(3)) (simp add: usable_state_def)
  from that [OF pre this] show ?thesis .
qed

lemma upto_ascend: "heights_ascend ss \<Longrightarrow> states_upto h ss = pre @ [s] \<Longrightarrow> heights_ascend pre"
  using heights_ascend_filter [of ss "\<lambda>s. st_height s \<le> h"] by (simp add: states_upto_filter heights_ascend_append)

lemma blockchain_detached_ok:
  assumes ok: "list_ok ver nl" and run: "blockchain_detached N B h nl = ret nl'"
  shows "list_ok ver nl'"
proof (cases "usable_state (find_state (h - 1) (nl_state_history nl))")
  case True
  then obtain s where s: "find_state (h - 1) (nl_state_history nl) = Some s" "\<not> st_only_loaded_quorums s"
    by (rule usable_stateE)
  have asc: "heights_ascend (nl_state_history nl)" using ok by (simp add: list_ok_def)
  have mem: "s \<in> set (nl_state_history nl)" "st_height s = h - 1" using s(1) asc by (simp_all add: find_state_iff)
  obtain pre where pre: "states_upto (h - 1) (nl_state_history nl) = pre @ [s]"
    "\<forall>x \<in> set pre. x \<in> set (nl_state_history nl) \<and> st_height x < h - 1"
    and d: "blockchain_detached N B h nl = ret (nl\<lparr>nl_state := s, nl_state_history := pre\<rparr>)"
    using detached_history [OF asc s] by blast
  have nl': "nl' = nl\<lparr>nl_state := s, nl_state_history := pre\<rparr>" using run d by simp
  have "all_states nl' \<subseteq> all_states nl" using mem(1) pre(2) by (auto simp: nl' all_states_def)
  then have "\<forall>s \<in> all_states nl'. node_inv (ver (st_height s)) s" using ok by (auto simp: list_ok_def)
  then show ?thesis
    using ok s(2) mem(2) pre(2) upto_ascend [OF asc pre(1)] by (simp add: list_ok_def nl')
next
  case False
  define p where "p = h - 1 - (h - 1) mod STORE_LONG_TERM_STATE_INTERVAL"
  show ?thesis
  proof (cases "usable_state (find_state p (nl_state_archive nl))")
    case True
    then obtain s where s: "find_state p (nl_state_archive nl) = Some s" "\<not> st_only_loaded_quorums s"
      by (rule usable_stateE)
    have asc: "heights_ascend (nl_state_archive nl)" using ok by (simp add: list_ok_def)
    have mem: "s \<in> set (nl_state_archive nl)" using s(1) asc by (simp add: find_state_iff)
    obtain pre where pre: "states_upto p (nl_state_archive nl) = pre @ [s]"
      "\<forall>x \<in> set pre. x \<in> set (nl_state_archive nl) \<and> st_height x < p"
      and d: "blockchain_detached N B h nl = ret (nl\<lparr>nl_state := s, nl_state_history := [], nl_state_archive := pre\<rparr>)"
      using detached_archive [OF asc False p_def s] by blast
    have nl': "nl' = nl\<lparr>nl_state := s, nl_state_history := [], nl_state_archive := pre\<rparr>" using run d by simp
    have "all_states nl' \<subseteq> all_states nl" using mem pre(2) by (auto simp: nl' all_states_def)
    then have "\<forall>s \<in> all_states nl'. node_inv (ver (st_height s)) s" using ok by (auto simp: list_ok_def)
    then show ?thesis
      using ok s(2) upto_ascend [OF asc pre(1)] by (simp add: list_ok_def nl')
  next
    case none: False
    have "init N B (nl\<lparr>nl_state_history := [], nl_state_archive := []\<rparr>) = ret nl'"
      using run False none by (simp add: blockchain_detached_def Let_def flip: p_def)
    then show ?thesis using ok by (intro init_ok) (simp_all add: list_ok_def)
  qed
qed

lemma find_state_mem: "find_state h ss = Some s \<Longrightarrow> s \<in> set ss"
  by (auto simp: find_state_def find_Some_iff)

lemma alt_starting_state_mem:
  assumes "alt_starting_state blk nl = Some s"
  shows "s \<in> set (nl_state_history nl) \<union> snd ` set (nl_alt_state nl)"
proof -
  have "find_state (get_block_height blk - 1) (nl_state_history nl) = Some s \<or> map_of (nl_alt_state nl) (blk_prev_id blk) = Some s"
    using assms by (auto simp: alt_starting_state_def split: option.splits if_splits)
  then show ?thesis
  proof
    assume "map_of (nl_alt_state nl) (blk_prev_id blk) = Some s"
    then have "(blk_prev_id blk, s) \<in> set (nl_alt_state nl)" by (rule map_of_SomeD)
    then show ?thesis by (simp add: image_iff) force
  qed (simp add: find_state_mem)
qed

lemma alt_block_added_result:
  assumes "alt_block_added N blk txs cp nl = ret (ok, nl')"
  shows "nl' = nl \<or> (\<exists>s proofs st. alt_starting_state blk nl = Some s \<and> st_block_hash s = blk_prev_id blk \<and>
     update_from_block N (nl_rescanning nl) (nl_state_history nl) (nl_state_archive nl) (nl_alt_state nl) blk txs
       (nl_proofs nl, s) = ret (proofs, st) \<and>
     nl' = nl\<lparr>nl_proofs := proofs, nl_alt_state := um_assign_key (blk_hash blk) st (nl_alt_state nl)\<rparr>)"
  using assms by (auto simp: alt_block_added_def rbind_eq_ret_iff Let_def split: option.splits if_splits)

lemma set_um_assign: "set (um_assign_key k v m) \<subseteq> insert (k, v) (set m)"
  by (induction k v m rule: um_assign_key.induct) auto

lemma alt_block_added_ok:
  assumes ok: "list_ok ver nl" and run: "alt_block_added N blk txs cp nl = ret (ok', nl')"
    and fits: "\<And>s. alt_starting_state blk nl = Some s \<Longrightarrow> fits ver (st_height s) blk"
  shows "list_ok ver nl'"
  using alt_block_added_result [OF run]
proof (elim disjE exE conjE)
  assume "nl' = nl"
  then show ?thesis using ok by simp
next
  fix s proofs st
  assume s: "alt_starting_state blk nl = Some s"
    and u: "update_from_block N (nl_rescanning nl) (nl_state_history nl) (nl_state_archive nl) (nl_alt_state nl) blk txs
       (nl_proofs nl, s) = ret (proofs, st)"
    and nl': "nl' = nl\<lparr>nl_proofs := proofs, nl_alt_state := um_assign_key (blk_hash blk) st (nl_alt_state nl)\<rparr>"
  have "s \<in> all_states nl" using alt_starting_state_mem [OF s] by (auto simp: all_states_def)
  then have inv: "node_inv (ver (st_height s)) s" using ok by (simp add: list_ok_def)
  have "node_inv (ver (st_height st)) st"
    using update_from_block_inv [OF inv _ u] fits [OF s] by (simp add: fits_def)
  moreover have "all_states nl' \<subseteq> insert st (all_states nl)"
    using set_um_assign [of "blk_hash blk" st "nl_alt_state nl"] by (force simp: nl' all_states_def)
  moreover have "um_wf (nl_alt_state nl')" using ok by (simp add: nl' list_ok_def um.wf_put)
  ultimately show ?thesis using ok by (auto simp: nl' list_ok_def)
qed

section \<open>Histories of a list\<close>

text \<open>
  What can happen to a list: it is initialised, blocks are added to and detached from the chain,
  blocks are added to alternative chains, and the list is stored.  The blockchain can differ from
  step to step.
\<close>

inductive list_step :: "(u64 \<Rightarrow> u8) \<Rightarrow> 'g node_env \<Rightarrow> service_node_list \<Rightarrow> service_node_list \<Rightarrow> bool" for ver N where
  step_init: "init N B nl = ret nl' \<Longrightarrow> list_step ver N nl nl'"
| step_block: "fits ver (st_height (nl_state nl)) blk \<Longrightarrow> block_added N blk txs cp nl = ret (ok, nl') \<Longrightarrow> list_step ver N nl nl'"
| step_detach: "blockchain_detached N B h nl = ret nl' \<Longrightarrow> list_step ver N nl nl'"
| step_alt: "(\<And>s. alt_starting_state blk nl = Some s \<Longrightarrow> fits ver (st_height s) blk) \<Longrightarrow>
     alt_block_added N blk txs cp nl = ret (ok, nl') \<Longrightarrow> list_step ver N nl nl'"
| step_store: "list_step ver N nl (snd (store B nl))"
| step_keys: "list_step ver N nl (set_my_service_node_keys keys nl)"
| step_history: "list_step ver N nl (set_quorum_history_storage n nl)"

lemma list_step_ok: "list_step ver N nl nl' \<Longrightarrow> list_ok ver nl \<Longrightarrow> list_ok ver nl'"
proof (induction rule: list_step.induct)
  case (step_init B nl nl')
  then show ?case by (intro init_ok) (simp_all add: list_ok_def)
next
  case (step_block nl blk txs cp ok nl')
  then show ?case using block_added_ok [of ver nl blk N txs cp ok nl'] by blast
next
  case (step_detach B h nl nl')
  then show ?case using blockchain_detached_ok [of ver nl N B h nl'] by blast
next
  case (step_alt blk nl txs cp ok nl')
  show ?case by (rule alt_block_added_ok [OF step_alt(3,2,1)])
next
  case (step_store nl B)
  then show ?case by (rule store_ok)
qed (simp_all add: set_my_service_node_keys_def set_quorum_history_storage_def list_ok_def all_states_def)

end
