(* ===== verification/Reorg.thy ===== *)
theory Reorg
  imports List_Blocks
begin

text \<open>
  Reorganisations of the chain.  A list that followed a branch, was detached from it and then
  followed another one ends in the state of a list that only ever saw the second branch, as long
  as the abandoned branch is not longer than the recent history allows.

  The first part shows what the state after a block depends on: of the recorded states only the
  quorums of the last \<^verbatim>\<open>STATE_CHANGE_TX_LIFETIME_IN_BLOCKS\<close> heights, and of the proofs nothing.
  The locale \<open>reorganisable\<close> states what the chain relies on in a component that follows
  it; the second part proves that the service node list is one.
\<close>

section \<open>What the state after a block depends on\<close>

definition lookup_quorums :: "state_set \<Rightarrow> state_set \<Rightarrow> u64 \<Rightarrow> quorum_manager option" where
  "lookup_quorums hist arch h =
     (case find_state h hist of
        Some s \<Rightarrow> Some (st_quorums s)
      | None \<Rightarrow> map_option st_quorums (find_state h arch))"

definition recent :: "u64 \<Rightarrow> u64 \<Rightarrow> bool" where
  "recent L h \<longleftrightarrow> h < L \<and> L < h + STATE_CHANGE_TX_LIFETIME_IN_BLOCKS"

definition same_recent :: "u64 \<Rightarrow> state_set \<Rightarrow> state_set \<Rightarrow> state_set \<Rightarrow> state_set \<Rightarrow> bool" where
  "same_recent L hist arch hist' arch' \<longleftrightarrow>
     (\<forall>h. recent L h \<longrightarrow> lookup_quorums hist arch h = lookup_quorums hist' arch' h)"

definition have_obligations :: "state_set \<Rightarrow> bool" where
  "have_obligations ss \<longleftrightarrow> (\<forall>s \<in> set ss. qm_obligations (st_quorums s) \<noteq> None)"

lemma lookup_have_obligations:
  "have_obligations hist \<Longrightarrow> have_obligations arch \<Longrightarrow> lookup_quorums hist arch h = Some qs \<Longrightarrow> qm_obligations qs \<noteq> None"
  by (auto simp: lookup_quorums_def have_obligations_def dest!: find_state_mem split: option.splits)

lemma state_change_quorums_lookup:
  "state_change_quorums C hist arch [] L hf sc =
     (case lookup_quorums hist arch (sc_block_height sc) of
        None \<Rightarrow> ret None
      | Some qs \<Rightarrow>
          (case qm_obligations qs of
             None \<Rightarrow> throw null_quorum
           | Some q \<Rightarrow> ret (if fst (verify_tx_state_change C sc L clean_tvc q hf) then Some qs else None)))"
  by (auto simp: state_change_quorums_def lookup_quorums_def split: option.splits)

lemma verify_recent:
  assumes "fst (verify_tx_state_change C sc L tvc q hf)"
  shows "recent L (sc_block_height sc)"
proof (rule ccontr)
  assume "\<not> recent L (sc_block_height sc)"
  then have "L \<le> sc_block_height sc \<or> sc_block_height sc + STATE_CHANGE_TX_LIFETIME_IN_BLOCKS \<le> L"
    by (auto simp: recent_def not_less)
  then have "\<not> fst (verify_tx_state_change C sc L tvc q hf)"
    by (auto simp: verify_tx_state_change_def Let_def bad_tx_def split: prod.splits)
  then show False using assms by contradiction
qed

lemma state_change_quorums_same:
  assumes "same_recent L hist arch hist' arch'" "have_obligations hist" "have_obligations arch"
    "have_obligations hist'" "have_obligations arch'"
  shows "state_change_quorums C hist arch [] L hf sc = state_change_quorums C hist' arch' [] L hf sc"
proof (cases "recent L (sc_block_height sc)")
  case True
  then show ?thesis using assms(1) by (simp add: state_change_quorums_lookup same_recent_def)
next
  case False
  then have no: "\<not> fst (verify_tx_state_change C sc L clean_tvc q hf)" for q using verify_recent by blast
  have "state_change_quorums C h a [] L hf sc = ret None" if "have_obligations h" "have_obligations a" for h a
    using lookup_have_obligations [OF that, of "sc_block_height sc"]
    by (cases "lookup_quorums h a (sc_block_height sc)") (auto simp: state_change_quorums_lookup no)
  then show ?thesis using assms(2-5) by metis
qed

text \<open>The proofs are written, never read.\<close>

lemma registration_proofs:
  "fst (process_registration_tx E r blk tx idx (p, st)) = fst (process_registration_tx E r' blk tx idx (p', st))"
  "snd (snd (process_registration_tx E r blk tx idx (p, st))) = snd (snd (process_registration_tx E r' blk tx idx (p', st)))"
  by (auto simp: process_registration_tx_def Let_def split: option.splits)

lemma apply_state_change_proofs:
  "fst (apply_state_change n r blk s k i (p, st)) = fst (apply_state_change n r' blk s k i (p', st))"
  "snd (snd (apply_state_change n r blk s k i (p, st))) = snd (snd (apply_state_change n r' blk s k i (p', st)))"
  by (auto simp: apply_state_change_def Let_def split: new_state.split)

definition state_change_target ::
    "'g node_env \<Rightarrow> state_set \<Rightarrow> state_set \<Rightarrow> block \<Rightarrow> transaction \<Rightarrow> state_t \<Rightarrow>
       (node_error, (new_state \<times> public_key \<times> service_node_info) option) outcome" where
  "state_change_target N hist arch blk tx st =
     (if tx_type tx \<noteq> tx_state_change then ret None
      else
        case get_service_node_state_change_from_tx_extra (tx_extra tx) (blk_major_version blk) of
          None \<Rightarrow> ret None
        | Some sc \<Rightarrow>
            rbind (state_change_quorums (ne_crypto N) hist arch [] (get_block_height blk) (blk_major_version blk) sc) (\<lambda>qo.
            case qo of
              None \<Rightarrow> ret None
            | Some qs \<Rightarrow>
                (case qm_obligations qs of
                   None \<Rightarrow> throw null_quorum
                 | Some q \<Rightarrow>
                     ret (case get_pubkey_from_quorum q group_worker (unat (sc_service_node_index sc)) of
                            None \<Rightarrow> None
                          | Some key \<Rightarrow> map_option (\<lambda>info. (sc_state sc, key, info)) (map_of (infos_of st) key)))))"

lemma process_state_change_target:
  "process_state_change_tx N r hist arch [] blk tx (p, st) =
     rbind (state_change_target N hist arch blk tx st) (\<lambda>t. ret
       (case t of None \<Rightarrow> (False, p, st)
        | Some (s, k, i) \<Rightarrow> apply_state_change (ne_nettype N) r blk s k i (p, st)))"
  by (auto simp: process_state_change_tx_def state_change_target_def rbind_assoc intro!: arg_cong [where f = "rbind _"]
        split: option.split)

lemma state_change_same:
  assumes run: "process_state_change_tx N r hist arch [] blk tx (p, st) = ret (c, p1, st1)"
    and same: "\<And>C hf sc. state_change_quorums C hist arch [] (get_block_height blk) hf sc =
      state_change_quorums C hist' arch' [] (get_block_height blk) hf sc"
  shows "\<exists>p2. process_state_change_tx N r' hist' arch' [] blk tx (p', st) = ret (c, p2, st1)"
proof -
  have target: "state_change_target N hist' arch' blk tx st = state_change_target N hist arch blk tx st"
    by (simp add: state_change_target_def same split: option.split)
  obtain t where t: "state_change_target N hist arch blk tx st = ret t"
    "(case t of None \<Rightarrow> (False, p, st) | Some (s, k, i) \<Rightarrow> apply_state_change (ne_nettype N) r blk s k i (p, st)) = (c, p1, st1)"
    using run unfolding process_state_change_target by (auto simp: rbind_eq_ret_iff)
  have "\<exists>p2. apply_state_change n r' blk s k i (p', st) = (c, p2, st1)"
    if "apply_state_change n r blk s k i (p, st) = (c, p1, st1)" for n s k i
    using apply_state_change_proofs [of n r blk s k i p st r' p'] that
    by (cases "apply_state_change n r' blk s k i (p', st)") simp
  then show ?thesis
    unfolding process_state_change_target target using t by (auto split: option.splits)
qed

lemma block_tx_same:
  assumes run: "process_block_tx N r hist arch [] blk idx tx (b, p, st) = ret (b1, p1, st1)"
    and same: "\<And>C hf sc. state_change_quorums C hist arch [] (get_block_height blk) hf sc =
      state_change_quorums C hist' arch' [] (get_block_height blk) hf sc"
  shows "\<exists>p2. process_block_tx N r' hist' arch' [] blk idx tx (b, p', st) = ret (b1, p2, st1)"
proof -
  let ?staking = "if txtype_less (get_max_type_for_hf (blk_major_version blk)) tx_stake then tx_standard else tx_stake"
  show ?thesis
  proof (cases "tx_type tx = ?staking")
    case True
    obtain g q1 s1 where reg: "process_registration_tx (ne_chain N) r blk tx idx (p, st) = (g, q1, s1)" by (rule prod_cases3)
    obtain g' q2 s2 where reg': "process_registration_tx (ne_chain N) r' blk tx idx (p', st) = (g', q2, s2)" by (rule prod_cases3)
    obtain f s3 where con: "process_contribution_tx (ne_chain N) blk tx idx s1 = (f, s3)" by fastforce
    have "s2 = s1" using registration_proofs(2) [of "ne_chain N" r blk tx idx p st r' p'] reg reg' by simp
    moreover have "st1 = s3" "b1 = (b \<or> f)" using run True reg con by (simp_all add: process_block_tx_def Let_def)
    ultimately show ?thesis using True reg' con by (simp add: process_block_tx_def Let_def)
  next
    case False
    show ?thesis
    proof (cases "tx_type tx = tx_state_change")
      case True
      then obtain c where c: "process_state_change_tx N r hist arch [] blk tx (p, st) = ret (c, p1, st1)" "b1 = (b \<or> c)"
        using run False by (auto simp: process_block_tx_def Let_def rbind_eq_ret_iff)
      obtain p2 where "process_state_change_tx N r' hist' arch' [] blk tx (p', st) = ret (c, p2, st1)"
        using state_change_same [OF c(1) same] by blast
      then show ?thesis using True False c(2) by (auto simp: process_block_tx_def Let_def)
    next
      case no: False
      then show ?thesis using run False by (auto simp: process_block_tx_def Let_def split: if_splits)
    qed
  qed
qed

lemma block_txs_same:
  assumes "process_block_txs N r hist arch [] blk idx txs (b, p, st) = ret (b1, p1, st1)"
    and same: "\<And>C hf sc. state_change_quorums C hist arch [] (get_block_height blk) hf sc =
      state_change_quorums C hist' arch' [] (get_block_height blk) hf sc"
  shows "\<exists>p2. process_block_txs N r' hist' arch' [] blk idx txs (b, p', st) = ret (b1, p2, st1)"
  using assms(1)
proof (induction txs arbitrary: idx b p p' st)
  case Nil
  then show ?case by simp
next
  case (Cons tx txs)
  from Cons.prems obtain b2 p2 st2 where
    step: "process_block_tx N r hist arch [] blk idx tx (b, p, st) = ret (b2, p2, st2)"
    and rest: "process_block_txs N r hist arch [] blk (idx + 1) txs (b2, p2, st2) = ret (b1, p1, st1)"
    by (auto simp: rbind_eq_ret_iff)
  obtain p3 where "process_block_tx N r' hist' arch' [] blk idx tx (b, p', st) = ret (b2, p3, st2)"
    using block_tx_same [OF step same] by blast
  moreover obtain p4 where "process_block_txs N r' hist' arch' [] blk (idx + 1) txs (b2, p3, st2) = ret (b1, p4, st1)"
    using Cons.IH [OF rest] by blast
  ultimately show ?case by simp
qed

lemma update_from_block_same:
  assumes run: "update_from_block N r hist arch [] blk txs (p, st) = ret (p1, st1)"
    and "same_recent (get_block_height blk) hist arch hist' arch'" "have_obligations hist" "have_obligations arch"
    "have_obligations hist'" "have_obligations arch'"
  shows "\<exists>p2. update_from_block N r' hist' arch' [] blk txs (p', st) = ret (p2, st1)"
proof -
  obtain b0 st0 where b0: "begin_block N blk st = (b0, st0)" by fastforce
  from run b0 obtain b2 p2 st2 st3 qs where
    txs: "process_block_txs N r hist arch [] blk 0 txs (b0, p, st0) = ret (b2, p2, st2)"
    and rest: "(if b2 then update_swarms N (blk_hash blk) st2 else ret st2) = ret st3"
      "generate_quorums N (blk_major_version blk) st3 = ret qs" "st1 = st3\<lparr>st_quorums := qs\<rparr>"
    by (auto simp: update_from_block_def rbind_eq_ret_iff)
  obtain p3 where "process_block_txs N r' hist' arch' [] blk 0 txs (b0, p', st0) = ret (b2, p3, st2)"
    using block_txs_same [OF txs state_change_quorums_same [OF assms(2-6)]] by blast
  then show ?thesis using b0 rest by (simp add: update_from_block_def)
qed

section \<open>Components that follow the chain\<close>

fun run_blocks :: "('b \<Rightarrow> 's \<Rightarrow> 's option) \<Rightarrow> 'b list \<Rightarrow> 's \<Rightarrow> 's option" where
  "run_blocks add [] s = Some s"
| "run_blocks add (b # bs) s = (case add b s of None \<Rightarrow> None | Some s' \<Rightarrow> run_blocks add bs s')"

text \<open>
  \<open>same\<close> relates states that behave alike from here on; \<open>keeps s t\<close> says that \<open>s\<close>
  still has what it needs to go back to \<open>t\<close>, which holds for \<open>depth\<close> blocks.
\<close>

locale reorganisable =
  fixes ok :: "'s \<Rightarrow> bool" and height :: "'s \<Rightarrow> nat"
    and add :: "'b \<Rightarrow> 's \<Rightarrow> 's option" and rewind :: "nat \<Rightarrow> 's \<Rightarrow> 's option"
    and same :: "'s \<Rightarrow> 's \<Rightarrow> bool" and keeps :: "'s \<Rightarrow> 's \<Rightarrow> bool" and depth :: nat
  assumes add_ok: "ok s \<Longrightarrow> add b s = Some s' \<Longrightarrow> ok s' \<and> height s' = height s + 1"
    and same_add: "ok s \<Longrightarrow> ok t \<Longrightarrow> same s t \<Longrightarrow> add b s = Some s' \<Longrightarrow> \<exists>t'. add b t = Some t' \<and> same s' t'"
    and keeps_start: "ok s \<Longrightarrow> add b s = Some s' \<Longrightarrow> keeps s' s"
    and keeps_add: "ok s \<Longrightarrow> keeps s t \<Longrightarrow> add b s = Some s' \<Longrightarrow> height s' \<le> height t + depth \<Longrightarrow> keeps s' t"
    and rewind: "ok s \<Longrightarrow> keeps s t \<Longrightarrow> \<exists>s'. rewind (height t) s = Some s' \<and> ok s' \<and> same t s'"
begin

lemma run_ok: "ok s \<Longrightarrow> run_blocks add bs s = Some s' \<Longrightarrow> ok s' \<and> height s' = height s + length bs"
proof (induction bs arbitrary: s)
  case (Cons b bs)
  then obtain u where u: "add b s = Some u" "run_blocks add bs u = Some s'" by (auto split: option.splits)
  show ?case using Cons.IH [OF _ u(2)] add_ok [OF Cons.prems(1) u(1)] by simp
qed simp

lemma run_same:
  "ok s \<Longrightarrow> ok t \<Longrightarrow> same s t \<Longrightarrow> run_blocks add bs s = Some s' \<Longrightarrow> \<exists>t'. run_blocks add bs t = Some t' \<and> same s' t'"
proof (induction bs arbitrary: s t)
  case (Cons b bs)
  then obtain u where u: "add b s = Some u" "run_blocks add bs u = Some s'" by (auto split: option.splits)
  obtain v where v: "add b t = Some v" "same u v" using same_add [OF Cons.prems(1-3) u(1)] by blast
  have "ok u" "ok v" using add_ok Cons.prems(1,2) u(1) v(1) by blast+
  from Cons.IH [OF this v(2) u(2)] show ?case using v(1) by auto
qed simp

lemma run_keeps:
  "ok s \<Longrightarrow> keeps s t \<Longrightarrow> run_blocks add bs s = Some s' \<Longrightarrow> height s + length bs \<le> height t + depth \<Longrightarrow> keeps s' t"
proof (induction bs arbitrary: s)
  case (Cons b bs)
  then obtain u where u: "add b s = Some u" "run_blocks add bs u = Some s'" by (auto split: option.splits)
  have "ok u" "height u = height s + 1" using add_ok [OF Cons.prems(1) u(1)] by simp_all
  moreover from this have "keeps u t" using keeps_add [OF Cons.prems(1,2) u(1)] Cons.prems(4) by simp
  ultimately show ?case using Cons.IH [OF _ _ u(2)] Cons.prems(4) by simp
qed simp

text \<open>Leaving a branch of at most \<open>depth\<close> blocks for another one.\<close>

lemma reorganise:
  assumes "ok s" "run_blocks add bs s = Some s1" "bs \<noteq> []" "length bs \<le> depth"
  obtains t where "rewind (height s) s1 = Some t" "ok t" "same s t"
    "\<And>cs s2. run_blocks add cs s = Some s2 \<Longrightarrow> \<exists>t2. run_blocks add cs t = Some t2 \<and> same s2 t2"
proof -
  obtain b bs' u where u: "bs = b # bs'" "add b s = Some u" "run_blocks add bs' u = Some s1"
    using assms(2,3) by (cases bs) (auto split: option.splits)
  have ok: "ok u" "height u = height s + 1" using add_ok [OF assms(1) u(2)] by simp_all
  have "keeps s1 s" using run_keeps [OF ok(1) keeps_start [OF assms(1) u(2)] u(3)] ok(2) assms(4) u(1) by simp
  moreover have "ok s1" using run_ok [OF ok(1) u(3)] by simp
  ultimately obtain t where t: "rewind (height s) s1 = Some t" "ok t" "same s t" using rewind by blast
  from that [OF t] run_same [OF assms(1) t(2,3)] show ?thesis by blast
qed

end

section \<open>The service node list follows the chain\<close>

definition reorg_ok :: "(u64 \<Rightarrow> u8) \<Rightarrow> service_node_list \<Rightarrow> bool" where
  "reorg_ok ver nl \<longleftrightarrow> list_ok ver nl \<and>
     (\<forall>s \<in> insert (nl_state nl) (set (nl_state_history nl) \<union> set (nl_state_archive nl)).
        qm_obligations (st_quorums s) \<noteq> None \<and> 0 < st_height s)"

definition follow_block ::
    "(u64 \<Rightarrow> u8) \<Rightarrow> 'g node_env \<Rightarrow> block \<times> transaction list \<times> checkpoint_t option \<Rightarrow> service_node_list \<Rightarrow>
       service_node_list option" where
  "follow_block ver N b nl =
     (case b of (blk, txs, cp) \<Rightarrow>
        if fits ver (st_height (nl_state nl)) blk
        then (case block_added N blk txs cp nl of Some (Inr (ok, nl')) \<Rightarrow> Some nl' | _ \<Rightarrow> None)
        else None)"

definition go_back :: "'g node_env \<Rightarrow> blockchain_info \<Rightarrow> nat \<Rightarrow> service_node_list \<Rightarrow> service_node_list option" where
  "go_back N B h nl =
     (case blockchain_detached N B (of_nat h + 1) nl of Some (Inr nl') \<Rightarrow> Some nl' | _ \<Rightarrow> None)"

definition list_height :: "service_node_list \<Rightarrow> nat" where
  "list_height nl = unat (st_height (nl_state nl))"

text \<open>The heights below \<open>H\<close> that the next block can refer to.\<close>

definition in_window :: "u64 \<Rightarrow> u64 \<Rightarrow> bool" where
  "in_window H h \<longleftrightarrow> 0 < h \<and> h < H \<and> unat H + 1 < unat h + 60"

abbreviation list_quorums :: "service_node_list \<Rightarrow> u64 \<Rightarrow> quorum_manager option" where
  "list_quorums nl \<equiv> lookup_quorums (nl_state_history nl) (nl_state_archive nl)"

definition same_window :: "u64 \<Rightarrow> service_node_list \<Rightarrow> service_node_list \<Rightarrow> bool" where
  "same_window H nl nl' \<longleftrightarrow>
     (\<forall>h. in_window H h \<longrightarrow> list_quorums nl h = list_quorums nl' h)"

definition same_list :: "service_node_list \<Rightarrow> service_node_list \<Rightarrow> bool" where
  "same_list nl nl' \<longleftrightarrow> nl_state nl = nl_state nl' \<and> same_window (st_height (nl_state nl)) nl nl'"

definition keeps_list :: "service_node_list \<Rightarrow> service_node_list \<Rightarrow> bool" where
  "keeps_list nl t \<longleftrightarrow>
     find_state (st_height (nl_state t)) (nl_state_history nl) = Some (nl_state t) \<and>
     \<not> st_only_loaded_quorums (nl_state t) \<and> 0 < st_height (nl_state t) \<and>
     same_window (st_height (nl_state t)) t nl"

definition reorg_depth :: nat where [const_defs]: "reorg_depth = 301"

lemma fits_version:
  assumes "fits ver h blk"
  shows "9 \<le> blk_major_version blk" "\<not> blk_major_version blk < network_version_9_service_nodes"
proof -
  show "9 \<le> blk_major_version blk" using assms unfolding fits_def by blast
  then show "\<not> blk_major_version blk < network_version_9_service_nodes" by (simp add: const_defs not_less)
qed

lemma follow_blockE:
  assumes "follow_block ver N (blk, txs, cp) nl = Some nl'"
  obtains "fits ver (st_height (nl_state nl)) blk" "process_block N blk txs nl = ret nl'"
proof -
  obtain ok where f: "fits ver (st_height (nl_state nl)) blk" and b: "block_added N blk txs cp nl = ret (ok, nl')"
    using assms by (auto simp: follow_block_def ret_def split: if_splits option.splits sum.splits)
  have "process_block N blk txs nl = ret nl'"
    using b fits_version(2) [OF f] by (auto simp: block_added_def rbind_eq_ret_iff split: option.splits if_splits)
  then show ?thesis using f that by blast
qed

lemma follow_blockI:
  assumes "fits ver (st_height (nl_state nl)) blk" "process_block N blk txs nl = ret nl'"
  shows "follow_block ver N (blk, txs, cp) nl = Some nl'"
proof -
  have "\<exists>ok. block_added N blk txs cp nl = ret (ok, nl')"
    using assms(2) fits_version(2) [OF assms(1)] by (auto simp: block_added_def split: option.split)
  then show ?thesis using assms(1) by (auto simp: follow_block_def ret_def)
qed

lemma cull_height_bound:
  assumes "fits ver H blk" "0 < h" "unat H + 1 < unat h + 360"
  shows "short_term_state_cull_height (get_block_height blk) < h"
proof -
  have H: "get_block_height blk = H + 1" "unat (H + 1) = unat H + 1"
    using assms(1) next_height(1) by (simp_all add: fits_def)
  have "unat DEFAULT_SHORT_TERM_STATE_HISTORY = 360" by (simp add: const_defs)
  then show ?thesis
    using assms(2,3) H by (simp add: short_term_state_cull_height_def word_less_nat_alt unat_sub_if') linarith
qed

lemma insert_state_superset: "set ss \<subseteq> set (insert_state s ss)"
  by (induction s ss rule: insert_state.induct) auto

lemma fold_cull_superset: "set (nl_state_archive nl) \<subseteq> set (nl_state_archive (fold cull_state ss nl))"
proof (induction ss arbitrary: nl)
  case (Cons s ss)
  have "set (nl_state_archive nl) \<subseteq> set (nl_state_archive (cull_state s nl))"
    using insert_state_superset by (auto simp: cull_state_archive)
  then show ?case using Cons.IH [of "cull_state s nl"] by auto
qed simp

lemma cull_find:
  assumes "list_ok ver nl" "c < h"
  shows "find_state h (nl_state_history (cull_history c nl)) = find_state h (nl_state_history nl)"
    and "find_state h (nl_state_archive (cull_history c nl)) = find_state h (nl_state_archive nl)"
proof -
  have asc: "heights_ascend (nl_state_history nl)" "heights_ascend (nl_state_archive nl)"
    using assms(1) by (simp_all add: list_ok_def)
  show "find_state h (nl_state_history (cull_history c nl)) = find_state h (nl_state_history nl)"
    unfolding cull_history_kept using asc(1) assms(2)
    by (intro find_state_eqI) (auto simp: states_after_filter heights_ascend_filter)
  have sup: "set (nl_state_archive nl) \<subseteq> set (nl_state_archive (cull_history c nl))"
    using fold_cull_superset [of nl "states_upto c (nl_state_history nl)"] by (simp add: cull_history_def Let_def)
  show "find_state h (nl_state_archive (cull_history c nl)) = find_state h (nl_state_archive nl)"
  proof (rule find_state_eqI)
    fix s :: state_t assume "st_height s = h"
    then have "s \<notin> archived_form ` {s \<in> set (nl_state_history nl). st_height s \<le> c}" using assms(2) by auto
    then show "s \<in> set (nl_state_archive (cull_history c nl)) \<longleftrightarrow> s \<in> set (nl_state_archive nl)"
      using cull_history_archive [OF asc(2,1), of c] sup by blast
  qed (use asc cull_history_archive [OF asc(2,1), of c] in auto)
qed

lemma cull_history_reorg_ok:
  assumes "reorg_ok ver nl"
  shows "reorg_ok ver (cull_history c nl)"
proof -
  have lok: "list_ok ver nl" using assms by (simp add: reorg_ok_def)
  have "set (nl_state_history (cull_history c nl)) \<subseteq> set (nl_state_history nl)"
    using lok by (auto simp: cull_history_kept states_after_filter list_ok_def)
  moreover have "set (nl_state_archive (cull_history c nl)) \<subseteq> set (nl_state_archive nl) \<union> archived_form ` set (nl_state_history nl)"
    using cull_history_archive [of nl c] lok by (auto simp: list_ok_def)
  moreover have "nl_state (cull_history c nl) = nl_state nl" by (rule kept_part_eq(1) [OF cull_history_kept(1)])
  ultimately show ?thesis
    using assms cull_history_ok [OF lok, of c] unfolding reorg_ok_def by (simp, fastforce)
qed

text \<open>What a block leaves of the history and the archive.\<close>

lemma process_block_parts:
  assumes ok: "reorg_ok ver nl" and fits: "fits ver (st_height (nl_state nl)) blk"
    and run: "process_block N blk txs nl = ret nl'"
    and c: "c = cull_history (short_term_state_cull_height (get_block_height blk)) nl"
  shows "nl_state_history nl' = nl_state_history c @ [nl_state nl]" "nl_state_archive nl' = nl_state_archive c"
    "reorg_ok ver nl'" "st_height (nl_state nl') = st_height (nl_state nl) + 1"
    "\<exists>proofs. update_from_block N (nl_rescanning nl) (nl_state_history nl') (nl_state_archive nl') [] blk txs
       (nl_proofs nl, nl_state nl) = ret (proofs, nl_state nl')"
proof -
  have lok: "list_ok ver nl" using ok by (simp add: reorg_ok_def)
  define hist where "hist = insert_state (nl_state nl) (nl_state_history c)"
  obtain proofs st where
    u: "update_from_block N (nl_rescanning nl) hist (nl_state_archive c) [] blk txs (nl_proofs nl, nl_state nl) = ret (proofs, st)"
    and nl': "nl' = c\<lparr>nl_state_history := hist, nl_state := st, nl_proofs := proofs\<rparr>"
    using process_block_result [OF run fits_version(1) [OF fits] c hist_def] by blast
  have okc: "list_ok ver c" unfolding c by (rule cull_history_ok [OF lok])
  have same: "nl_state c = nl_state nl" unfolding c using kept_part_eq(1) [OF cull_history_kept(1)] .
  have "hist = nl_state_history c @ [nl_state nl]"
    unfolding hist_def using okc same by (intro insert_state_last) (simp add: list_ok_def)
  then show h: "nl_state_history nl' = nl_state_history c @ [nl_state nl]" by (simp add: nl')
  show a: "nl_state_archive nl' = nl_state_archive c" by (simp add: nl')
  have p: "list_ok ver nl'" "st_height (nl_state nl') = st_height (nl_state nl) + 1"
    "qm_obligations (st_quorums (nl_state nl')) \<noteq> None"
    using process_block_ok [OF lok fits run] by blast+
  have "unat (st_height (nl_state nl) + 1) = unat (st_height (nl_state nl)) + 1"
    using fits next_height(1) by (simp add: fits_def)
  then have "0 < st_height (nl_state nl')" unfolding p(2) by (simp add: word_less_nat_alt)
  moreover have "reorg_ok ver c" unfolding c by (rule cull_history_reorg_ok [OF ok])
  ultimately show "reorg_ok ver nl'"
    using p(1,3) h a same by (simp add: reorg_ok_def ball_Un)
  show "st_height (nl_state nl') = st_height (nl_state nl) + 1" by (fact p(2))
  show "\<exists>proofs. update_from_block N (nl_rescanning nl) (nl_state_history nl') (nl_state_archive nl') [] blk txs
       (nl_proofs nl, nl_state nl) = ret (proofs, nl_state nl')"
    using u by (auto simp: nl')
qed

lemma find_state_snoc: "find_state h (xs @ [s]) = (case find_state h xs of None \<Rightarrow> if st_height s = h then Some s else None | r \<Rightarrow> r)"
  by (induction xs) (auto simp: find_state_def)

lemma lookup_quorums_cong:
  "find_state h hist = find_state h hist' \<Longrightarrow> find_state h arch = find_state h arch' \<Longrightarrow>
     lookup_quorums hist arch h = lookup_quorums hist' arch' h"
  by (simp only: lookup_quorums_def)

lemma process_block_lookup:
  assumes ok: "reorg_ok ver nl" and fits: "fits ver (st_height (nl_state nl)) blk"
    and run: "process_block N blk txs nl = ret nl'"
    and h: "0 < h" "h < st_height (nl_state nl)" "unat (st_height (nl_state nl)) + 1 < unat h + 360"
  shows "find_state h (nl_state_history nl') = find_state h (nl_state_history nl)" "list_quorums nl' h = list_quorums nl h"
proof -
  have "list_ok ver nl" using ok by (simp add: reorg_ok_def)
  note find = cull_find [OF this cull_height_bound [OF fits h(1,3)]]
  note parts = process_block_parts [OF ok fits run refl]
  show hist: "find_state h (nl_state_history nl') = find_state h (nl_state_history nl)"
    unfolding parts(1) find_state_snoc find using h(2) by (auto split: option.split)
  show "list_quorums nl' h = list_quorums nl h"
    by (rule lookup_quorums_cong [OF hist]) (simp only: parts(2) find)
qed

lemma process_block_top:
  assumes ok: "reorg_ok ver nl" and fits: "fits ver (st_height (nl_state nl)) blk"
    and run: "process_block N blk txs nl = ret nl'"
  shows "find_state (st_height (nl_state nl)) (nl_state_history nl') = Some (nl_state nl)"
proof -
  have "heights_ascend (nl_state_history nl')"
    using process_block_parts(3) [OF ok fits run refl] by (simp add: reorg_ok_def list_ok_def)
  then show ?thesis using process_block_parts(1) [OF ok fits run refl] by (simp add: find_state_iff)
qed

lemma no_state_at_0:
  "reorg_ok ver nl \<Longrightarrow> find_state 0 (nl_state_history nl) = None \<and> find_state 0 (nl_state_archive nl) = None"
proof -
  assume "reorg_ok ver nl"
  then have "st_height s \<noteq> 0" if "s \<in> set (nl_state_history nl) \<union> set (nl_state_archive nl)" for s
    using that unfolding reorg_ok_def by (metis insertI2 less_irrefl)
  then show ?thesis by (auto simp: find_state_None_iff)
qed

lemma recent_cases:
  assumes "recent (H + 1) h" "H < UINT64_MAX"
  shows "h = H \<or> h = 0 \<or> in_window H h"
proof -
  have H: "unat (H + 1) = unat H + 1" by (rule next_height(1) [OF assms(2)])
  have life: "unat STATE_CHANGE_TX_LIFETIME_IN_BLOCKS = 60" by (simp add: const_defs)
  have lt: "unat h < unat H + 1" "unat H + 1 < unat (h + STATE_CHANGE_TX_LIFETIME_IN_BLOCKS)"
    using assms(1) H by (simp_all add: recent_def word_less_nat_alt)
  have "unat (h + STATE_CHANGE_TX_LIFETIME_IN_BLOCKS) \<le> unat h + 60"
    by (simp add: unat_word_ariths life)
  then show ?thesis
    using lt by (auto simp: in_window_def word_less_nat_alt word_unat_eq_iff)
qed

lemma same_list_recent:
  assumes ok: "reorg_ok ver nl" "reorg_ok ver t" and same: "same_list nl t"
    and fits: "fits ver (st_height (nl_state nl)) blk"
    and nl': "process_block N blk txs nl = ret nl'"
    and c: "c = cull_history (short_term_state_cull_height (get_block_height blk)) t"
  shows "same_recent (get_block_height blk) (nl_state_history nl') (nl_state_archive nl')
     (nl_state_history c @ [nl_state t]) (nl_state_archive c)"
proof -
  let ?H = "st_height (nl_state nl)"
  have eq: "nl_state t = nl_state nl" using same by (simp add: same_list_def)
  have okt: "list_ok ver t" using ok(2) by (simp add: reorg_ok_def)
  have asc: "heights_ascend (nl_state_history c)" "\<forall>s \<in> set (nl_state_history c). st_height s < ?H"
    using cull_history_ok [OF okt] kept_part_eq(1) [OF cull_history_kept(1)] eq by (auto simp: c list_ok_def)
  have zero: "find_state 0 (nl_state_history c @ [nl_state t]) = None" "find_state 0 (nl_state_archive c) = None"
    using no_state_at_0 [OF cull_history_reorg_ok [OF ok(2)], of "short_term_state_cull_height (get_block_height blk)"] ok(2)
    by (auto simp: c find_state_snoc reorg_ok_def)
  have "lookup_quorums (nl_state_history nl') (nl_state_archive nl') h =
      lookup_quorums (nl_state_history c @ [nl_state t]) (nl_state_archive c) h" if r: "recent (get_block_height blk) h" for h
  proof -
    have "recent (?H + 1) h" "?H < UINT64_MAX" using r fits by (simp_all add: fits_def)
    then consider "h = ?H" | "h = 0" | "in_window ?H h" using recent_cases by blast
    then show ?thesis
    proof cases
      case 1
      have "find_state ?H (nl_state_history c @ [nl_state t]) = Some (nl_state nl)"
        using asc eq by (auto simp: find_state_snoc find_state_None_iff split: option.split) (auto simp: find_state_iff)
      then show ?thesis using process_block_top [OF ok(1) fits nl'] 1 by (simp add: lookup_quorums_def)
    next
      case 2
      then show ?thesis
        using zero no_state_at_0 [OF process_block_parts(3) [OF ok(1) fits nl' refl]] by (simp add: lookup_quorums_def)
    next
      case 3
      then have h: "0 < h" "h < ?H" "unat ?H + 1 < unat h + 360" by (simp_all add: in_window_def)
      have "lookup_quorums (nl_state_history c @ [nl_state t]) (nl_state_archive c) h = list_quorums t h"
        using cull_find [OF okt cull_height_bound [OF fits h(1,3)]] h(2) eq
        by (intro lookup_quorums_cong) (auto simp: c find_state_snoc split: option.split)
      moreover have "list_quorums nl h = list_quorums t h"
        using same 3 by (simp add: same_list_def same_window_def)
      ultimately show ?thesis using process_block_lookup(2) [OF ok(1) fits nl' h] by simp
    qed
  qed
  then show ?thesis by (simp add: same_recent_def)
qed

lemma same_list_step:
  assumes ok: "reorg_ok ver nl" "reorg_ok ver t" and same: "same_list nl t"
    and run: "follow_block ver N (blk, txs, cp) nl = Some nl'"
  shows "\<exists>t'. follow_block ver N (blk, txs, cp) t = Some t' \<and> same_list nl' t'"
proof -
  let ?H = "st_height (nl_state nl)"
  have eq: "nl_state t = nl_state nl" using same by (simp add: same_list_def)
  from run obtain fits: "fits ver ?H blk" and nl': "process_block N blk txs nl = ret nl'" by (rule follow_blockE)
  define c where "c = cull_history (short_term_state_cull_height (get_block_height blk)) t"
  have okc: "reorg_ok ver c" unfolding c_def by (rule cull_history_reorg_ok [OF ok(2)])
  have keep: "nl_state c = nl_state nl" "nl_proofs c = nl_proofs t" "nl_rescanning c = nl_rescanning t"
    unfolding c_def using kept_part_eq [OF cull_history_kept(1) [of _ t]] eq by simp_all
  have hist: "insert_state (nl_state nl) (nl_state_history c) = nl_state_history c @ [nl_state nl]"
    using okc keep(1) by (subst insert_state_last) (auto simp: reorg_ok_def list_ok_def)
  note parts = process_block_parts [OF ok(1) fits nl' refl]
  obtain proofs where u: "update_from_block N (nl_rescanning nl) (nl_state_history nl') (nl_state_archive nl') [] blk txs
       (nl_proofs nl, nl_state nl) = ret (proofs, nl_state nl')" using parts(5) by blast
  have "have_obligations (nl_state_history nl')" "have_obligations (nl_state_archive nl')"
    "have_obligations (nl_state_history c @ [nl_state t])" "have_obligations (nl_state_archive c)"
    using parts(3) okc keep(1) eq by (auto simp: have_obligations_def reorg_ok_def)
  from update_from_block_same [OF u same_list_recent [OF ok same fits nl' c_def] this, of "nl_rescanning t" "nl_proofs t"]
  obtain p2 where u2: "update_from_block N (nl_rescanning t) (nl_state_history c @ [nl_state t]) (nl_state_archive c) [] blk txs
       (nl_proofs t, nl_state nl) = ret (p2, nl_state nl')" by blast
  define t' where "t' = c\<lparr>nl_state_history := nl_state_history c @ [nl_state t], nl_state := nl_state nl', nl_proofs := p2\<rparr>"
  have t': "process_block N blk txs t = ret t'"
    using u2 fits_version(1) [OF fits] by (simp add: process_block_def Let_def hist keep t'_def eq leD flip: c_def)
  have fits': "fits ver (st_height (nl_state t)) blk" using fits eq by simp
  have "same_window (?H + 1) nl' t'"
    unfolding same_window_def
  proof (intro allI impI)
    fix h assume w: "in_window (?H + 1) h"
    have H: "unat (?H + 1) = unat ?H + 1" using fits next_height(1) by (simp add: fits_def)
    have h: "0 < h" "unat h \<le> unat ?H" "unat ?H + 2 < unat h + 60"
      using w H by (simp_all add: in_window_def word_less_nat_alt)
    show "list_quorums nl' h = list_quorums t' h"
    proof (cases "h = ?H")
      case True
      then show ?thesis
        using process_block_top [OF ok(1) fits nl'] process_block_top [OF ok(2) fits' t'] eq
        by (simp add: lookup_quorums_def)
    next
      case False
      then have h': "h < ?H" "unat ?H + 1 < unat h + 360" "in_window ?H h"
        using h by (auto simp: in_window_def word_less_nat_alt word_unat_eq_iff)
      then have "list_quorums nl h = list_quorums t h" using same by (simp add: same_list_def same_window_def)
      then show ?thesis
        using process_block_lookup(2) [OF ok(1) fits nl' h(1) h'(1,2)]
          process_block_lookup(2) [OF ok(2) fits' t' h(1)] h'(1,2) eq by simp
    qed
  qed
  then show ?thesis
    using follow_blockI [OF fits' t', of cp] parts(4) by (auto simp: same_list_def t'_def)
qed

lemma keeps_list_start:
  assumes ok: "reorg_ok ver nl" and run: "follow_block ver N (blk, txs, cp) nl = Some nl'"
  shows "keeps_list nl' nl"
proof -
  from run obtain fits: "fits ver (st_height (nl_state nl)) blk" and nl': "process_block N blk txs nl = ret nl'"
    by (rule follow_blockE)
  have "same_window (st_height (nl_state nl)) nl nl'"
    unfolding same_window_def using process_block_lookup(2) [OF ok fits nl'] by (auto simp: in_window_def)
  then show ?thesis
    using process_block_top [OF ok fits nl'] ok by (simp add: keeps_list_def reorg_ok_def list_ok_def)
qed

lemma keeps_list_step:
  assumes ok: "reorg_ok ver nl" and keeps: "keeps_list nl t" and run: "follow_block ver N (blk, txs, cp) nl = Some nl'"
    and depth: "list_height nl' \<le> list_height t + reorg_depth"
  shows "keeps_list nl' t"
proof -
  let ?H = "st_height (nl_state nl)" and ?T = "st_height (nl_state t)"
  from run obtain fits: "fits ver ?H blk" and nl': "process_block N blk txs nl = ret nl'" by (rule follow_blockE)
  have top: "find_state ?T (nl_state_history nl) = Some (nl_state t)" "0 < ?T" using keeps by (simp_all add: keeps_list_def)
  have lt: "?T < ?H" using ok find_state_mem [OF top(1)] by (simp add: reorg_ok_def list_ok_def)
  have "unat (?H + 1) = unat ?H + 1" using fits next_height(1) by (simp add: fits_def)
  then have d: "unat ?H + 1 \<le> unat ?T + 301"
    using depth process_block_parts(4) [OF ok fits nl' refl] by (simp add: list_height_def const_defs)
  have "find_state ?T (nl_state_history nl') = Some (nl_state t)"
    using process_block_lookup(1) [OF ok fits nl' top(2) lt] d top(1) by simp
  moreover have "list_quorums t h = list_quorums nl' h" if w: "in_window ?T h" for h
  proof -
    have "0 < h" "h < ?H" "unat ?H + 1 < unat h + 360"
      using w lt d by (auto simp: in_window_def word_less_nat_alt)
    then have "list_quorums nl' h = list_quorums nl h" using process_block_lookup(2) [OF ok fits nl'] by blast
    moreover have "list_quorums t h = list_quorums nl h" using keeps w by (simp add: keeps_list_def same_window_def)
    ultimately show ?thesis by simp
  qed
  ultimately show ?thesis using keeps by (simp add: keeps_list_def same_window_def)
qed

lemma go_back_list:
  assumes ok: "reorg_ok ver nl" and keeps: "keeps_list nl t"
  shows "\<exists>nl'. go_back N B (list_height t) nl = Some nl' \<and> reorg_ok ver nl' \<and> same_list t nl'"
proof -
  let ?T = "st_height (nl_state t)"
  have asc: "heights_ascend (nl_state_history nl)" using ok by (simp add: reorg_ok_def list_ok_def)
  have top: "find_state (?T + 1 - 1) (nl_state_history nl) = Some (nl_state t)" "\<not> st_only_loaded_quorums (nl_state t)"
    using keeps by (simp_all add: keeps_list_def)
  obtain pre where pre: "states_upto ?T (nl_state_history nl) = pre @ [nl_state t]"
    "\<forall>x \<in> set pre. x \<in> set (nl_state_history nl) \<and> st_height x < ?T"
    and d: "blockchain_detached N B (?T + 1) nl = ret (nl\<lparr>nl_state := nl_state t, nl_state_history := pre\<rparr>)"
    using detached_history [OF asc top] by auto
  define nl' where "nl' = nl\<lparr>nl_state := nl_state t, nl_state_history := pre\<rparr>"
  have d': "blockchain_detached N B (?T + 1) nl = ret nl'" using d by (simp add: nl'_def)
  then have gone: "go_back N B (list_height t) nl = Some nl'" by (simp add: go_back_def list_height_def ret_def)
  have "list_ok ver nl'" using blockchain_detached_ok [OF _ d'] ok by (simp add: reorg_ok_def)
  moreover have "nl_state t \<in> set (nl_state_history nl)" using find_state_mem [OF top(1)] .
  ultimately have "reorg_ok ver nl'" using ok pre(2) by (auto simp: reorg_ok_def nl'_def)
  moreover have "list_quorums t h = list_quorums nl' h" if w: "in_window ?T h" for h
  proof -
    have "find_state h (states_upto ?T (nl_state_history nl)) = find_state h (nl_state_history nl)"
      using asc w by (intro find_state_eqI) (auto simp: states_upto_filter heights_ascend_filter in_window_def)
    then have "find_state h pre = find_state h (nl_state_history nl)"
      using w unfolding pre(1) find_state_snoc by (auto simp: in_window_def split: option.splits if_splits)
    then have "list_quorums nl' h = list_quorums nl h" by (intro lookup_quorums_cong) (simp_all add: nl'_def)
    then show ?thesis using keeps w by (simp add: keeps_list_def same_window_def)
  qed
  ultimately show ?thesis using gone by (auto simp: same_list_def same_window_def nl'_def)
qed

interpretation snl: reorganisable "reorg_ok ver" list_height "follow_block ver N" "go_back N B" same_list keeps_list reorg_depth
proof
  fix s b s' assume ok: "reorg_ok ver s" and run: "follow_block ver N b s = Some s'"
  obtain blk txs cp where b: "b = (blk, txs, cp)" by (rule prod_cases3)
  from run b obtain fits: "fits ver (st_height (nl_state s)) blk" and s': "process_block N blk txs s = ret s'"
    using follow_blockE by blast
  have "unat (st_height (nl_state s) + 1) = unat (st_height (nl_state s)) + 1" using fits next_height(1) by (simp add: fits_def)
  then show "reorg_ok ver s' \<and> list_height s' = list_height s + 1"
    using process_block_parts(3,4) [OF ok fits s' refl] by (simp add: list_height_def)
  show "keeps_list s' s" using keeps_list_start [OF ok] run b by blast
next
  fix s t b s' assume "reorg_ok ver s" "reorg_ok ver t" "same_list s t" "follow_block ver N b s = Some s'"
  then show "\<exists>t'. follow_block ver N b t = Some t' \<and> same_list s' t'" using same_list_step by (cases b) blast
next
  fix s t b s' assume "reorg_ok ver s" "keeps_list s t" "follow_block ver N b s = Some s'" "list_height s' \<le> list_height t + reorg_depth"
  then show "keeps_list s' t" using keeps_list_step by (cases b) blast
next
  fix s t assume "reorg_ok ver s" "keeps_list s t"
  then show "\<exists>s'. go_back N B (list_height t) s = Some s' \<and> reorg_ok ver s' \<and> same_list t s'" by (rule go_back_list)
qed

end
