(* ===== verification/List_Properties.thy ===== *)
theory List_Properties
  imports Reorg Node_Properties
begin

text \<open>
  Properties of the service node list: its invariant over all histories of operations, what a
  reorganisation and a restart leave of it, how quorums are looked up, and the cases in which stored
  data is lost or outdated.
\<close>

section \<open>A list without nodes\<close>

lemma quiet_block_run:
  assumes "infos_of st = []" "blk_major_version blk = 16"
  shows "\<exists>st'. update_from_block example_node_env r hist arch alts blk [] (p, st) = ret (p, st') \<and> infos_of st' = []"
proof -
  obtain b st1 where b: "begin_block example_node_env blk st = (b, st1)" by fastforce
  then have st1: "infos_of st1 = []" "\<not> b"
    using assms by (auto simp: begin_block_def Let_def get_expired_nodes_def advance_winner_def const_defs)
  then have act: "active_service_nodes_infos st1 = []" "decommissioned_service_nodes_infos st1 = []"
    by (simp_all add: active_service_nodes_infos_def decommissioned_service_nodes_infos_def sort_and_filter_def)
  have "\<exists>qs. generate_quorums example_node_env 16 st1 = ret qs"
    unfolding generate_quorums_def Let_def act
    by (simp add: generate_obligations_quorum_def generate_shuffled_service_node_index_list_def shuffle_portable_def
          fill_quorum_def generate_checkpointing_quorum_def generate_blink_quorum_def Let_def const_defs)
  then show ?thesis using b st1 assms(2) by (auto simp: update_from_block_def)
qed

definition no_quorum :: quorum where
  "no_quorum = \<lparr>validators = [], workers = []\<rparr>"

definition quiet_state :: "u64 \<Rightarrow> state_t" where
  "quiet_state h = initial_state\<lparr>st_height := h, st_block_hash := ucast h,
     st_quorums := empty_quorums\<lparr>qm_obligations := Some no_quorum\<rparr>\<rparr>"

definition quiet_list :: "u64 \<Rightarrow> service_node_list" where
  "quiet_list h = \<lparr>nl_state = quiet_state h, nl_service_node_keys = None, nl_store_quorum_history = 0,
     nl_rescanning = False, nl_debug_allow_local_ips = False, nl_x25519_to_pub = [],
     nl_x25519_map_last_pruned = 0, nl_proofs = [], nl_old_quorum_states = [], nl_state_history = [],
     nl_state_archive = [], nl_alt_state = [], nl_state_added_to_archive = False,
     nl_db_long_term = None, nl_db_short_term = None\<rparr>"

abbreviation hf16 :: "u64 \<Rightarrow> u8" where "hf16 \<equiv> \<lambda>_. 16"

lemma quiet_list_ok: "0 < h \<Longrightarrow> reorg_ok hf16 (quiet_list h)"
  by (simp add: reorg_ok_def list_ok_def quiet_list_def quiet_state_def all_states_def initial_state_def
        node_inv_def um_wf_def keys_of_def stored_ok_def)

lemma example_block_fits: "h < UINT64_MAX \<Longrightarrow> fits hf16 h (example_block (h + 1))"
  by (simp add: fits_def example_block_def get_block_height_def)

lemma quiet_follow:
  assumes "list_ok hf16 nl" "infos_of (nl_state nl) = []" "st_height (nl_state nl) < UINT64_MAX"
  shows "\<exists>nl'. follow_block hf16 example_node_env (example_block (st_height (nl_state nl) + 1), [], None) nl = Some nl'"
proof -
  let ?b = "example_block (st_height (nl_state nl) + 1)"
  define c where "c = cull_history (short_term_state_cull_height (get_block_height ?b)) nl"
  have "infos_of (nl_state c) = []" using assms(2) kept_part_eq(1) [OF cull_history_kept(1)] by (simp add: c_def)
  moreover have "blk_major_version ?b = 16" by (simp add: example_block_def)
  ultimately obtain st' where
    "update_from_block example_node_env (nl_rescanning c) (insert_state (nl_state c) (nl_state_history c)) (nl_state_archive c) []
       ?b [] (nl_proofs c, nl_state c) = ret (nl_proofs c, st')"
    using quiet_block_run by blast
  then have "\<exists>nl'. process_block example_node_env ?b [] nl = ret nl'"
    by (simp add: process_block_def Let_def \<open>blk_major_version ?b = 16\<close> flip: c_def)
  then show ?thesis using follow_blockI [OF example_block_fits [OF assms(3)]] by blast
qed

section \<open>The invariant\<close>

text \<open>
  C8: in every list that the operations can lead to from a fresh one, the recent states are in
  strictly ascending order below the current state, so are the archived ones among themselves, and
  every state the list keeps, recent, archived, alternative or current, satisfies the accounting
  invariant of its nodes for the hard fork of its height.
\<close>

theorem reachable_list_invariant:
  assumes "(list_step ver N)\<^sup>*\<^sup>* (reset B False nl0) nl"
    and "nl_db_long_term nl0 = None" "nl_db_short_term nl0 = None"
  shows "heights_ascend (nl_state_history nl) \<and> heights_ascend (nl_state_archive nl) \<and>
     (\<forall>s \<in> set (nl_state_history nl). st_height s < st_height (nl_state nl)) \<and>
     (\<forall>s \<in> all_states nl. node_inv (ver (st_height s)) s)"
proof -
  have "list_ok ver (reset B False nl0)" using assms(2,3) by (intro reset_ok) (simp_all add: stored_ok_def)
  with assms(1) have "list_ok ver nl" by (induction rule: rtranclp_induct) (auto intro: list_step_ok)
  then show ?thesis by (simp add: list_ok_def)
qed

definition example_chain :: blockchain_info where
  "example_chain = \<lparr>bc_has_db = True, bc_current_hard_fork_version = 16, bc_current_blockchain_height = 1000,
     bc_hardfork_9_from_height = 50, bc_hard_fork_version = \<lambda>_. 16, bc_block_id_by_height = ucast,
     bc_service_node_proofs = [], bc_time = 5000\<rparr>"

theorem reachable_list_invariant_witness:
  "\<exists>nl. (list_step hf16 example_node_env)\<^sup>*\<^sup>* (reset example_chain False (quiet_list 49)) nl \<and>
     nl_state_history nl \<noteq> [] \<and> heights_ascend (nl_state_history nl) \<and>
     (\<forall>s \<in> all_states nl. node_inv (hf16 (st_height s)) s)"
proof -
  let ?r = "reset example_chain False (quiet_list 49)"
  have db: "nl_db_long_term (quiet_list 49) = None" "nl_db_short_term (quiet_list 49) = None"
    by (simp_all add: quiet_list_def)
  have h: "st_height (nl_state ?r) = 49" "infos_of (nl_state ?r) = []"
    by (simp_all add: reset_def example_chain_def initial_state_def)
  have ok: "list_ok hf16 ?r" using db by (intro reset_ok) (simp_all add: stored_ok_def)
  have "st_height (nl_state ?r) < UINT64_MAX" using h(1) by simp
  from quiet_follow [OF ok h(2) this] obtain nl where
    "follow_block hf16 example_node_env (example_block 50, [], None) ?r = Some nl" by (auto simp: h(1))
  then obtain b where f: "fits hf16 (st_height (nl_state ?r)) (example_block 50)"
    "block_added example_node_env (example_block 50) [] None ?r = ret (b, nl)"
    by (auto simp: follow_block_def ret_def split: if_splits option.splits sum.splits)
  have run: "process_block example_node_env (example_block 50) [] ?r = ret nl"
    using f(2) fits_version(2) [OF f(1)] by (simp add: block_added_def rbind_eq_ret_iff)
  obtain p st where "nl = (cull_history (short_term_state_cull_height (get_block_height (example_block 50))) ?r)
      \<lparr>nl_state_history := insert_state (nl_state ?r) (nl_state_history
         (cull_history (short_term_state_cull_height (get_block_height (example_block 50))) ?r)), nl_state := st, nl_proofs := p\<rparr>"
    by (rule process_block_result [OF run fits_version(1) [OF f(1)] refl refl])
  moreover have "insert_state s ss \<noteq> []" for s ss by (cases ss) auto
  ultimately have "nl_state_history nl \<noteq> []" by simp
  moreover have step: "(list_step hf16 example_node_env)\<^sup>*\<^sup>* ?r nl" using step_block [OF f] by (rule r_into_rtranclp)
  ultimately show ?thesis using reachable_list_invariant [OF step db] by blast
qed

section \<open>Reorganisations\<close>

text \<open>
  C7: a list that followed a branch of at most 301 blocks, was detached from it and then followed
  another branch is in the same state as a list that only followed the second branch; right after
  the detachment it is back in the state before the first branch.
\<close>

theorem reorganisation_same_state:
  assumes "reorg_ok ver nl" "run_blocks (follow_block ver N) bs nl = Some nl1" "bs \<noteq> []" "length bs \<le> 301"
    and "run_blocks (follow_block ver N) cs nl = Some nl2"
  shows "\<exists>nl' nl3. blockchain_detached N B (st_height (nl_state nl) + 1) nl1 = ret nl' \<and> nl_state nl' = nl_state nl \<and>
     run_blocks (follow_block ver N) cs nl' = Some nl3 \<and> nl_state nl3 = nl_state nl2"
proof -
  have "length bs \<le> reorg_depth" using assms(4) by (simp add: reorg_depth_def)
  then obtain t where t: "go_back N B (list_height nl) nl1 = Some t" "same_list nl t"
    "\<exists>t2. run_blocks (follow_block ver N) cs t = Some t2 \<and> same_list nl2 t2"
    using snl.reorganise [OF assms(1-3)] assms(5) by metis
  then show ?thesis
    by (auto simp: go_back_def list_height_def same_list_def ret_def split: option.splits sum.splits)
qed

theorem reorganisation_same_state_witness:
  "\<exists>nl1 nl' nl3. follow_block hf16 example_node_env (example_block 50, [], None) (quiet_list 49) = Some nl1 \<and>
     blockchain_detached example_node_env example_chain 50 nl1 = ret nl' \<and> nl_state nl' = quiet_state 49 \<and>
     follow_block hf16 example_node_env (example_block 50, [], None) nl' = Some nl3 \<and> nl_state nl3 = nl_state nl1"
proof -
  have ok: "reorg_ok hf16 (quiet_list 49)" by (rule quiet_list_ok) simp
  have q: "nl_state (quiet_list 49) = quiet_state 49" "st_height (quiet_state 49) = 49" "infos_of (quiet_state 49) = []"
    by (simp_all add: quiet_list_def quiet_state_def initial_state_def)
  have lok: "list_ok hf16 (quiet_list 49)" using ok by (simp add: reorg_ok_def)
  have "st_height (nl_state (quiet_list 49)) < UINT64_MAX" by (simp add: q)
  from quiet_follow [OF lok _ this] obtain nl1 where
    nl1: "follow_block hf16 example_node_env (example_block 50, [], None) (quiet_list 49) = Some nl1"
    by (auto simp: q)
  then have run: "run_blocks (follow_block hf16 example_node_env) [(example_block 50, [], None)] (quiet_list 49) = Some nl1" by simp
  from reorganisation_same_state [OF ok run _ _ run, of example_chain] show ?thesis
    using nl1 by (auto simp: q split: option.splits)
qed

section \<open>Looking up quorums\<close>

lemma option_eqI: "(\<And>y. a = Some y \<longleftrightarrow> b = Some y) \<Longrightarrow> a = b"
  by (cases a; cases b) auto

text \<open>
  C16: the look-up of a quorum, with its binary search in the old quorums, gives what a plain
  search through the current state, the history, the archive and the old quorums gives, as long as
  the old quorums are in ascending order.
\<close>

theorem get_quorum_searches_all:
  assumes "sorted_wrt (<) (map qh_height (nl_old_quorum_states nl))"
  shows "fst (get_quorum nl type height True) =
     Option.bind (map_of ((st_height (nl_state nl), st_quorums (nl_state nl)) #
         map (\<lambda>s. (st_height s, st_quorums s)) (nl_state_history nl @ nl_state_archive nl) @
         map (\<lambda>e. (qh_height e, qh_quorums e)) (nl_old_quorum_states nl))
       (offset_testing_quorum_height type height)) (\<lambda>qs. quorum_manager_get qs type)"
proof -
  let ?h = "offset_testing_quorum_height type height"
  have states: "map_of (map (\<lambda>s. (st_height s, st_quorums s)) ss) h = map_option st_quorums (find_state h ss)" for h ss
    by (induction ss) (auto simp: find_state_def)
  have "map_of (map (\<lambda>e. (qh_height e, qh_quorums e)) (nl_old_quorum_states nl)) ?h = Some qs \<longleftrightarrow>
      find_old_quorums ?h (nl_old_quorum_states nl) = Some qs" for qs
  proof -
    have "distinct (map fst (map (\<lambda>e. (qh_height e, qh_quorums e)) (nl_old_quorum_states nl)))"
      using assms by (simp add: comp_def strict_sorted_iff)
    then have "map_of (map (\<lambda>e. (qh_height e, qh_quorums e)) (nl_old_quorum_states nl)) ?h = Some qs \<longleftrightarrow>
        (?h, qs) \<in> set (map (\<lambda>e. (qh_height e, qh_quorums e)) (nl_old_quorum_states nl))" by simp
    also have "\<dots> \<longleftrightarrow> \<lparr>qh_height = ?h, qh_quorums = qs\<rparr> \<in> set (nl_old_quorum_states nl)"
    proof
      assume "(?h, qs) \<in> set (map (\<lambda>e. (qh_height e, qh_quorums e)) (nl_old_quorum_states nl))"
      then obtain e where e: "e \<in> set (nl_old_quorum_states nl)" "qh_height e = ?h" "qh_quorums e = qs" by auto
      have "e = \<lparr>qh_height = ?h, qh_quorums = qs\<rparr>" by (rule quorums_by_height.equality) (simp_all add: e)
      then show "\<lparr>qh_height = ?h, qh_quorums = qs\<rparr> \<in> set (nl_old_quorum_states nl)" using e(1) by simp
    qed force
    finally show ?thesis using find_old_quorums_iff [OF assms] by simp
  qed
  then have old: "map_of (map (\<lambda>e. (qh_height e, qh_quorums e)) (nl_old_quorum_states nl)) ?h =
      find_old_quorums ?h (nl_old_quorum_states nl)" by (rule option_eqI)
  have app: "find_state h (xs @ ys) = (case find_state h xs of None \<Rightarrow> find_state h ys | r \<Rightarrow> r)" for h xs ys
    by (induction xs) (auto simp: find_state_def)
  show ?thesis
    by (auto simp: get_quorum_def find_quorums_def Let_def states old map_add_def app simp del: map_append split: option.splits)
qed

theorem get_quorum_searches_all_witness:
  "fst (get_quorum ((quiet_list 900)\<lparr>nl_old_quorum_states := map (\<lambda>h. \<lparr>qh_height = h,
       qh_quorums = empty_quorums\<lparr>qm_obligations := Some no_quorum\<rparr>\<rparr>) [7, 8, 10]\<rparr>) obligations 8 True) = Some no_quorum"
  by (subst get_quorum_searches_all) (simp_all add: quiet_list_def quiet_state_def offset_testing_quorum_height_def)

section \<open>Restarts\<close>

text \<open>
  What storing and loading keep of a state: everything but the quorum for blinks; of a state
  stored with its quorums only, these, the height and the hash.
\<close>

definition reloaded :: "blockchain_info \<Rightarrow> state_t \<Rightarrow> state_t" where
  "reloaded B s = s\<lparr>st_service_nodes_infos := map (\<lambda>(k, i). (k, upgrade_info B i)) (infos_of s),
     st_quorums := (st_quorums s)\<lparr>qm_blink := None\<rparr>\<rparr>"

definition quorums_left :: "state_t \<Rightarrow> state_t" where
  "quorums_left s = s\<lparr>st_service_nodes_infos := [], st_key_image_blacklist := [], st_only_loaded_quorums := True,
     st_quorums := (st_quorums s)\<lparr>qm_blink := None\<rparr>\<rparr>"

text \<open>The quorums that a state of the checkpointing era has.\<close>

definition regular_quorums :: "state_t \<Rightarrow> bool" where
  "regular_quorums s \<longleftrightarrow> qm_obligations (st_quorums s) \<noteq> None \<and>
     (qm_checkpointing (st_quorums s) \<noteq> None \<longleftrightarrow>
        (st_height s + REORG_SAFETY_BUFFER_BLOCKS_POST_HF12) mod CHECKPOINT_INTERVAL = 0)"

lemma quorums_round_trip:
  assumes "regular_quorums s"
  shows "quorum_for_serialization_to_quorum_manager (serialize_quorum_state (st_height s) (st_quorums s)) =
     (st_quorums s)\<lparr>qm_blink := None\<rparr>"
proof -
  have "((st_height s + REORG_SAFETY_BUFFER_BLOCKS_POST_HF12) mod CHECKPOINT_INTERVAL = 0) = (qm_checkpointing (st_quorums s) \<noteq> None)"
    "qm_obligations (st_quorums s) \<noteq> None"
    using assms unfolding regular_quorums_def by (elim conjE, simp only:)+
  then show ?thesis
    unfolding quorum_for_serialization_to_quorum_manager_def serialize_quorum_state_def Let_def quorum_for_serialization.select_convs
    by (cases "st_quorums s") auto
qed

lemma reloaded_state:
  assumes "um_wf (infos_of s)" "regular_quorums s"
  shows "state_of_serialized B (serialize_service_node_state_object s False) = reloaded B s"
proof -
  let ?ss = "serialize_service_node_state_object s False"
  have infos: "ss_infos ?ss = infos_of s" by (simp add: serialize_service_node_state_object_def Let_def)
  have "infos_of (state_of_serialized B ?ss) = map (\<lambda>(k, i). (k, upgrade_info B i)) (infos_of s)"
    using state_of_serialized_infos [of ?ss B] assms(1) by (simp add: infos)
  then show ?thesis
    using quorums_round_trip [OF assms(2)]
    by (intro state_t.equality)
       (simp_all add: reloaded_def state_of_serialized_def serialize_service_node_state_object_def Let_def)
qed

lemma reloaded_quorums:
  assumes "regular_quorums s"
  shows "state_of_serialized B ((serialize_service_node_state_object s True)\<lparr>ss_block_hash := st_block_hash s\<rparr>) = quorums_left s"
  using quorums_round_trip [OF assms]
  by (intro state_t.equality)
     (simp_all add: quorums_left_def state_of_serialized_def serialize_service_node_state_object_def Let_def)

lemma load_long_term_stored:
  assumes arch: "\<forall>x \<in> set arch. um_wf (infos_of x) \<and> regular_quorums x" "heights_ascend arch"
    and d: "nl_db_long_term nl = Some \<lparr>dfs_quorum_states = [], dfs_states = map (\<lambda>s. serialize_service_node_state_object s False) arch\<rparr>"
    and empty: "nl_state_archive nl = []"
  shows "load_long_term N B nl = ret (True, nl\<lparr>nl_state_archive := map (reloaded B) arch\<rparr>)"
proof (cases "arch = []")
  case True
  then show ?thesis using d empty by (simp add: load_long_term_def)
next
  case False
  let ?f = "\<lambda>s. state_of_serialized B (serialize_service_node_state_object s False)"
  have eq: "map ?f arch = map (reloaded B) arch" using arch(1) by (simp add: reloaded_state)
  have "heights_ascend ([] @ map ?f arch)"
    unfolding eq using arch(2) by (simp add: heights_ascend_def reloaded_def comp_def)
  from fold_insert_state_append [OF this]
  have "fold (\<lambda>e. insert_state (state_of_serialized B e)) (map (\<lambda>s. serialize_service_node_state_object s False) arch) [] = map (reloaded B) arch"
    by (simp add: fold_map comp_def eq)
  moreover have "ss_version (serialize_service_node_state_object s b) = version_1_serialize_hash" for s b
    by (simp add: serialize_service_node_state_object_def Let_def)
  ultimately show ?thesis using False d empty by (simp add: load_long_term_def Let_def hd_map)
qed

lemma load_short_term_stored:
  assumes pre: "\<forall>x \<in> set pre. regular_quorums x \<and> bc_block_id_by_height B (st_height x) = st_block_hash x"
    and s: "um_wf (infos_of s)" "regular_quorums s" and asc: "heights_ascend pre" and empty: "nl_state_history nl = []"
  shows "load_short_term B (map (\<lambda>x. serialize_service_node_state_object x True) pre @ [serialize_service_node_state_object s False]) nl =
     nl\<lparr>nl_state_history := map quorums_left pre, nl_state := reloaded B s\<rparr>"
proof -
  define wh :: "state_serialized \<Rightarrow> state_serialized" where
    "wh e = (if ss_block_hash e = null_hash then e\<lparr>ss_block_hash := bc_block_id_by_height B (ss_height e)\<rparr> else e)" for e
  let ?f = "\<lambda>x. state_of_serialized B (wh (serialize_service_node_state_object x True))"
  have "wh (serialize_service_node_state_object x True) = (serialize_service_node_state_object x True)\<lparr>ss_block_hash := st_block_hash x\<rparr>"
    if "x \<in> set pre" for x
    using pre that by (simp add: wh_def serialize_service_node_state_object_def Let_def)
  then have eq: "map ?f pre = map quorums_left pre" using pre by (simp add: reloaded_quorums)
  have "heights_ascend ([] @ map ?f pre)"
    unfolding eq using asc by (simp add: heights_ascend_def quorums_left_def comp_def)
  from fold_insert_state_append [OF this]
  have fold: "fold (\<lambda>e. insert_state (state_of_serialized B (wh e))) (map (\<lambda>x. serialize_service_node_state_object x True) pre) [] =
      map quorums_left pre"
    by (simp add: fold_map comp_def eq)
  have v: "ss_version (serialize_service_node_state_object x b) = version_1_serialize_hash" for x b
    by (simp add: serialize_service_node_state_object_def Let_def)
  have "ss_version (hd (map (\<lambda>x. serialize_service_node_state_object x True) pre @ [serialize_service_node_state_object s False])) =
      version_1_serialize_hash"
    by (cases pre) (simp_all add: v)
  then show ?thesis
    using fold by (simp add: load_short_term_def Let_def empty reloaded_state [OF s] butlast_append flip: wh_def)
qed


definition stored_example :: service_node_list where
  "stored_example = (quiet_list 400)\<lparr>nl_state_history := [quiet_state 103, quiet_state 104, quiet_state 399],
     nl_state_archive := [quiet_state 40], nl_state_added_to_archive := True\<rparr>"

lemma quiet_state_simps [simp]:
  "st_height (quiet_state h) = h" "infos_of (quiet_state h) = []" "\<not> st_only_loaded_quorums (quiet_state h)"
  "st_block_hash (quiet_state h) = ucast h" "st_quorums (quiet_state h) = empty_quorums\<lparr>qm_obligations := Some no_quorum\<rparr>"
  by (simp_all add: quiet_state_def initial_state_def)

lemma quiet_node_inv: "node_inv v (quiet_state h)"
  by (simp add: node_inv_def um_wf_def keys_of_def)

lemma stored_example_parts:
  "nl_state stored_example = quiet_state 400" "nl_state_history stored_example = [quiet_state 103, quiet_state 104, quiet_state 399]"
  "nl_state_archive stored_example = [quiet_state 40]" "nl_state_added_to_archive stored_example"
  "nl_old_quorum_states stored_example = []" "nl_alt_state stored_example = []"
  "nl_db_long_term stored_example = None" "nl_db_short_term stored_example = None"
  by (simp_all add: stored_example_def quiet_list_def)

lemma stored_example_ok: "list_ok hf16 stored_example"
  by (auto simp: list_ok_def stored_example_parts heights_ascend_def all_states_def quiet_node_inv stored_ok_def um_wf_def keys_of_def)


lemma load_quorum_states_old:
  "\<forall>q \<in> set qs. qs_height q < start \<Longrightarrow> load_quorum_states start l qs old = (True, old)"
  by (induction start l qs old rule: load_quorum_states.induct) auto

text \<open>
  C39: a daemon that is asked to keep all old quorums (history size 1) loses them at every
  restart: the size becomes the largest number, the height from which on quorums are loaded wraps
  around to the next height, no stored quorum is loaded, and initialisation therefore drops the
  stored data and starts over from hard fork 9.
\<close>

theorem full_history_is_dropped:
  assumes "9 \<le> bc_current_hard_fork_version B" "bc_current_blockchain_height B < UINT64_MAX"
    and "stored_ok ver (nl_db_long_term nl)"
    and "nl_db_short_term nl = Some d" "\<forall>q \<in> set (dfs_quorum_states d). qs_height q \<le> bc_current_blockchain_height B"
  shows "\<exists>nl'. init N B (set_quorum_history_storage 1 nl) = ret nl' \<and> nl_old_quorum_states nl' = [] \<and>
     nl_state_history nl' = [] \<and> nl_state nl' = initial_state\<lparr>st_height := bc_hardfork_9_from_height B - 1\<rparr> \<and>
     (bc_has_db B \<longrightarrow> nl_db_short_term nl' = None \<and> nl_db_long_term nl' = None)"
proof -
  let ?c = "bc_current_blockchain_height B"
  define nl0 where "nl0 = set_quorum_history_storage 1 nl"
  have nl0: "nl_store_quorum_history nl0 = UINT64_MAX" "nl_db_short_term nl0 = Some d" "nl_db_long_term nl0 = nl_db_long_term nl"
    using assms(4) by (simp_all add: nl0_def set_quorum_history_storage_def)
  have hf: "\<not> bc_current_hard_fork_version B < 9" using assms(1) by (simp add: not_less)
  have low: "\<forall>q \<in> set (dfs_quorum_states d). qs_height q < ?c - UINT64_MAX"
    using assms(5) next_height(2) [OF assms(2)] by (auto intro: le_less_trans)
  define r where "r = reset B False nl0"
  have r: "nl_old_quorum_states r = []" "nl_store_quorum_history r = UINT64_MAX" "nl_db_short_term r = Some d"
    "nl_db_long_term r = nl_db_long_term nl" using nl0 by (simp_all add: r_def reset_def Let_def)
  have "\<exists>ok nl1. load N B ?c nl0 = ret (ok, nl1) \<and> nl_old_quorum_states nl1 = [] \<and>
      nl_store_quorum_history nl1 = UINT64_MAX \<and> nl_db_short_term nl1 = Some d"
  proof (cases "bc_has_db B")
    case False
    then have "load N B ?c nl0 = ret (False, r)" by (simp add: load_def Let_def flip: r_def)
    then show ?thesis using r by blast
  next
    case True
    obtain a where l: "load_long_term N B r = ret (True, r\<lparr>nl_state_archive := a\<rparr>)"
    proof (cases "nl_db_long_term nl")
      case None
      then have "load_long_term N B r = ret (True, r\<lparr>nl_state_archive := nl_state_archive r\<rparr>)" using r by (simp add: load_long_term_def)
      then show ?thesis by (rule that)
    next
      case (Some e)
      show ?thesis
      proof (cases "dfs_states e = []")
        case True
        then have "load_long_term N B r = ret (True, r\<lparr>nl_state_archive := nl_state_archive r\<rparr>)"
          using Some r by (simp add: load_long_term_def)
        then show ?thesis by (rule that)
      next
        case False
        then have "ss_version (hd (dfs_states e)) \<noteq> version_0"
          using stored_states_inv [of ver e "hd (dfs_states e)"] assms(3) Some by simp
        then show ?thesis using that False Some r by (simp add: load_long_term_def Let_def)
      qed
    qed
    have keep: "nl_old_quorum_states (load_short_term B ss x) = nl_old_quorum_states x"
      "nl_store_quorum_history (load_short_term B ss x) = nl_store_quorum_history x"
      "nl_db_short_term (load_short_term B ss x) = nl_db_short_term x" for ss x
      by (auto simp: load_short_term_def load_short_term_v0_def Let_def split: list.split)
    show ?thesis
      using True l r low
      by (simp add: load_def Let_def load_quorum_states_old load_proofs_def initialize_x25519_map_def keep flip: r_def)
        (auto intro: exI [of _ False])
  qed
  then obtain ok nl1 where l: "load N B ?c nl0 = ret (ok, nl1)" "nl_old_quorum_states nl1 = []"
    "nl_store_quorum_history nl1 = UINT64_MAX" "nl_db_short_term nl1 = Some d" by blast
  have "min UINT64_MAX (10 :: u64) = 10" by (simp add: min_def word_le_nat_alt unat_UINT64_MAX)
  then have "init N B nl0 = ret (reset B True nl1)" using hf l by (simp add: init_def Let_def)
  moreover have "nl_old_quorum_states (reset B True nl1) = []" "nl_state_history (reset B True nl1) = []"
    "nl_state (reset B True nl1) = initial_state\<lparr>st_height := bc_hardfork_9_from_height B - 1\<rparr>"
    "bc_has_db B \<longrightarrow> nl_db_short_term (reset B True nl1) = None \<and> nl_db_long_term (reset B True nl1) = None"
    using l(4) by (simp_all add: reset_def clear_service_node_data_def Let_def)
  ultimately show ?thesis by (simp add: nl0_def)
qed

theorem full_history_is_dropped_witness:
  "\<exists>nl'. init example_node_env example_chain (set_quorum_history_storage 1 ((quiet_list 900)\<lparr>
       nl_db_short_term := Some \<lparr>dfs_quorum_states = map (\<lambda>h. serialize_quorum_state h empty_quorums) [100, 101, 102],
         dfs_states = [serialize_service_node_state_object (quiet_state 900) False]\<rparr>\<rparr>)) = ret nl' \<and>
     nl_old_quorum_states nl' = [] \<and> st_height (nl_state nl') = 49"
proof -
  let ?d = "\<lparr>dfs_quorum_states = map (\<lambda>h. serialize_quorum_state h empty_quorums) [100, 101, 102],
         dfs_states = [serialize_service_node_state_object (quiet_state 900) False]\<rparr>"
  let ?nl = "(quiet_list 900)\<lparr>nl_db_short_term := Some ?d\<rparr>"
  have c: "9 \<le> bc_current_hard_fork_version example_chain" "bc_current_blockchain_height example_chain = 1000"
    "bc_hardfork_9_from_height example_chain = 50"
    by (simp_all add: example_chain_def)
  have "bc_current_blockchain_height example_chain < UINT64_MAX" by (simp add: c)
  moreover have "stored_ok hf16 (nl_db_long_term ?nl)" by (simp add: quiet_list_def stored_ok_def)
  moreover have "\<forall>q \<in> set (dfs_quorum_states ?d). qs_height q \<le> bc_current_blockchain_height example_chain"
    by (simp add: c serialize_quorum_state_def Let_def)
  ultimately show ?thesis
    using full_history_is_dropped [OF c(1), of hf16 ?nl ?d example_node_env] by (auto simp: c)
qed

text \<open>
  C40: going back to an archived state removes the later states from the archive but not from
  the stored archive, which is only written again once another state is archived; a restart
  before that brings the states of the abandoned branch back.
\<close>

theorem abandoned_archive_returns:
  assumes ok: "list_ok ver nl" and p: "p = h - 1 - (h - 1) mod STORE_LONG_TERM_STATE_INTERVAL"
    and gone: "\<not> usable_state (find_state (h - 1) (nl_state_history nl))" "usable_state (find_state p (nl_state_archive nl))"
    and x: "x \<in> set (nl_state_archive nl)" "p < st_height x"
    and regular: "\<forall>s \<in> set (nl_state_archive nl). regular_quorums s"
    and stored: "nl_db_long_term nl = Some \<lparr>dfs_quorum_states = [],
      dfs_states = map (\<lambda>s. serialize_service_node_state_object s False) (nl_state_archive nl)\<rparr>"
    and flag: "\<not> nl_state_added_to_archive nl"
  shows "\<exists>nl1. blockchain_detached N B h nl = ret nl1 \<and> find_state (st_height x) (nl_state_archive nl1) = None \<and>
     (\<forall>B' H nl2 ok nl3. bc_has_db B' \<and> 9 \<le> bc_current_hard_fork_version B' \<and>
        nl_db_long_term nl2 = nl_db_long_term nl1 \<and> \<not> nl_state_added_to_archive nl2 \<and>
        load N B' H (snd (store B' nl2)) = ret (ok, nl3) \<longrightarrow>
        find_state (st_height x) (nl_state_archive nl3) = Some (reloaded B' x))"
proof -
  have asc: "heights_ascend (nl_state_archive nl)" using ok by (simp add: list_ok_def)
  obtain s where s: "find_state p (nl_state_archive nl) = Some s" "\<not> st_only_loaded_quorums s"
    using gone(2) by (rule usable_stateE)
  obtain pre where pre: "\<forall>y \<in> set pre. y \<in> set (nl_state_archive nl) \<and> st_height y < p"
    and d: "blockchain_detached N B h nl = ret (nl\<lparr>nl_state := s, nl_state_history := [], nl_state_archive := pre\<rparr>)"
    using detached_archive [OF asc gone(1) p s] by blast
  let ?nl1 = "nl\<lparr>nl_state := s, nl_state_history := [], nl_state_archive := pre\<rparr>"
  have "find_state (st_height x) (nl_state_archive ?nl1) = None"
    using pre x(2) by (auto simp: find_state_None_iff dest: order.asym)
  moreover have "find_state (st_height x) (nl_state_archive nl3) = Some (reloaded B' x)"
    if a: "bc_has_db B'" "nl_db_long_term nl2 = nl_db_long_term ?nl1" "\<not> nl_state_added_to_archive nl2"
      "9 \<le> bc_current_hard_fork_version B'"
      "load N B' H (snd (store B' nl2)) = ret (ok', nl3)" for B' H nl2 ok' nl3
  proof -
    define r where "r = reset B' False (snd (store B' nl2))"
    have long: "nl_db_long_term r = Some \<lparr>dfs_quorum_states = [],
        dfs_states = map (\<lambda>s. serialize_service_node_state_object s False) (nl_state_archive nl)\<rparr>"
      using a(2,3) stored by (simp add: r_def reset_def store_def Let_def)
    have r: "nl_state_archive r = []" "nl_db_short_term r = nl_db_short_term (snd (store B' nl2))"
      by (simp_all add: r_def reset_def Let_def)
    have wf: "\<forall>y \<in> set (nl_state_archive nl). um_wf (infos_of y) \<and> regular_quorums y"
      using ok regular by (auto simp: list_ok_def all_states_def node_inv_def)
    have l: "load_long_term N B' r = ret (True, r\<lparr>nl_state_archive := map (reloaded B') (nl_state_archive nl)\<rparr>)"
      by (rule load_long_term_stored [OF wf asc long r(1)])
    have keep: "nl_state_archive (load_short_term B' (dfs_states d) y) = nl_state_archive y"
      if "nl_db_short_term r = Some d" "dfs_states d \<noteq> []" for d y
    proof -
      have "\<not> bc_current_hard_fork_version B' < network_version_9_service_nodes" using a(4) by (simp add: const_defs not_less)
      then have "dfs_states d = map (\<lambda>s. serialize_service_node_state_object s (st_height s < max_short_term_height nl2))
          (states_upto (max_short_term_height nl2) (nl_state_history nl2))"
        using that(1) r(2) a(1) by (auto simp: store_def Let_def)
      then have "ss_version (hd (dfs_states d)) = version_1_serialize_hash"
        using that(2) by (simp add: hd_map) (simp add: serialize_service_node_state_object_def Let_def)
      then show ?thesis by (simp add: load_short_term_def Let_def)
    qed
    have "nl_state_archive nl3 = map (reloaded B') (nl_state_archive nl)"
      using a(5) a(1) l unfolding load_def Let_def r_def [symmetric]
      by (auto simp: load_proofs_def initialize_x25519_map_def keep split: option.splits if_splits prod.splits)
    moreover have "heights_ascend (map (reloaded B') (nl_state_archive nl))"
      using asc by (simp add: heights_ascend_def reloaded_def comp_def)
    moreover have "st_height (reloaded B' x) = st_height x" by (simp add: reloaded_def)
    ultimately show ?thesis using x(1) by (simp add: find_state_iff)
  qed
  ultimately show ?thesis using d by blast
qed

definition archive_example :: service_node_list where
  "archive_example = (quiet_list 30000)\<lparr>nl_state_archive := [quiet_state 10000, quiet_state 20000],
     nl_db_long_term := Some \<lparr>dfs_quorum_states = [],
       dfs_states = map (\<lambda>s. serialize_service_node_state_object s False) [quiet_state 10000, quiet_state 20000]\<rparr>\<rparr>"

lemma archive_example_parts:
  "nl_state archive_example = quiet_state 30000" "nl_state_history archive_example = []"
  "nl_state_archive archive_example = [quiet_state 10000, quiet_state 20000]" "\<not> nl_state_added_to_archive archive_example"
  "nl_alt_state archive_example = []" "nl_db_short_term archive_example = None"
  "nl_db_long_term archive_example = Some \<lparr>dfs_quorum_states = [],
     dfs_states = map (\<lambda>s. serialize_service_node_state_object s False) (nl_state_archive archive_example)\<rparr>"
  by (simp_all add: archive_example_def quiet_list_def)

theorem abandoned_archive_returns_witness:
  "\<exists>nl1 ok nl3. blockchain_detached example_node_env example_chain 15000 archive_example = ret nl1 \<and>
     find_state 20000 (nl_state_archive nl1) = None \<and>
     load example_node_env example_chain 1000 (snd (store example_chain nl1)) = ret (ok, nl3) \<and>
     find_state 20000 (nl_state_archive nl3) = Some (reloaded example_chain (quiet_state 20000))"
proof -
  have arch: "heights_ascend (nl_state_archive archive_example)"
    "\<forall>s \<in> set (nl_state_archive archive_example). node_inv (hf16 (st_height s)) s"
    by (simp_all add: archive_example_parts heights_ascend_def quiet_node_inv)
  have "stored_ok hf16 (nl_db_long_term archive_example)" "stored_ok hf16 (nl_db_short_term archive_example)"
    using serialized_ok [OF arch, of "[]" "\<lambda>_. False"] by (simp_all add: archive_example_parts(6,7)) (simp add: stored_ok_def)
  then have "list_ok hf16 archive_example"
    using arch quiet_node_inv by (simp add: list_ok_def archive_example_parts(1,2,5) all_states_def um_wf_def keys_of_def)
  moreover have p: "(10000 :: u64) = 15000 - 1 - (15000 - 1) mod STORE_LONG_TERM_STATE_INTERVAL" by (simp add: const_defs)
  moreover have "\<not> usable_state (find_state (15000 - 1) (nl_state_history archive_example))"
    "usable_state (find_state 10000 (nl_state_archive archive_example))"
    by (simp_all add: archive_example_parts find_state_def usable_state_def)
  moreover have "quiet_state 20000 \<in> set (nl_state_archive archive_example)" "10000 < st_height (quiet_state 20000)"
    by (simp_all add: archive_example_parts)
  moreover have "\<forall>s \<in> set (nl_state_archive archive_example). regular_quorums s"
    by (simp add: archive_example_parts regular_quorums_def empty_quorums_def const_defs)
  ultimately obtain nl1 where nl1: "blockchain_detached example_node_env example_chain 15000 archive_example = ret nl1"
    "find_state 20000 (nl_state_archive nl1) = None"
    and all: "\<forall>B' H nl2 ok nl3. bc_has_db B' \<and> 9 \<le> bc_current_hard_fork_version B' \<and>
        nl_db_long_term nl2 = nl_db_long_term nl1 \<and> \<not> nl_state_added_to_archive nl2 \<and>
        load example_node_env B' H (snd (store B' nl2)) = ret (ok, nl3) \<longrightarrow>
        find_state 20000 (nl_state_archive nl3) = Some (reloaded B' (quiet_state 20000))"
    using abandoned_archive_returns [OF _ p _ _ _ _ _ archive_example_parts(7,4), of hf16 "quiet_state 20000" example_node_env example_chain]
    by auto
  have "nl1 = archive_example\<lparr>nl_state := quiet_state 10000, nl_state_history := [], nl_state_archive := []\<rparr>"
    using nl1(1) by (simp add: blockchain_detached_def Let_def usable_state_def find_state_def states_upto_def archive_example_parts const_defs)
  then have flag: "\<not> nl_state_added_to_archive nl1" "nl_state_history nl1 = []" "nl_db_long_term nl1 = nl_db_long_term archive_example"
    by (simp_all add: archive_example_parts(4))
  let ?r = "reset example_chain False (snd (store example_chain nl1))"
  have wf: "\<forall>x \<in> set (nl_state_archive archive_example). um_wf (infos_of x) \<and> regular_quorums x"
    by (simp add: archive_example_parts regular_quorums_def empty_quorums_def const_defs um_wf_def keys_of_def)
  have "nl_db_long_term ?r = nl_db_long_term archive_example" "nl_state_archive ?r = []"
    using flag by (simp_all add: reset_def store_def Let_def)
  then have "load_long_term example_node_env example_chain ?r =
      ret (True, ?r\<lparr>nl_state_archive := map (reloaded example_chain) (nl_state_archive archive_example)\<rparr>)"
    by (intro load_long_term_stored [OF wf arch(1)]) (simp_all only: archive_example_parts(7))
  moreover have "nl_db_short_term ?r = Some \<lparr>dfs_quorum_states = map (\<lambda>e. serialize_quorum_state (qh_height e) (qh_quorums e))
      (nl_old_quorum_states nl1), dfs_states = []\<rparr>"
    using flag by (simp add: reset_def store_def Let_def example_chain_def states_upto_def const_defs)
  moreover have db: "bc_has_db example_chain" "9 \<le> bc_current_hard_fork_version example_chain" by (simp_all add: example_chain_def)
  ultimately have "load example_node_env example_chain 1000 (snd (store example_chain nl1)) =
      ret (False, ?r\<lparr>nl_state_archive := map (reloaded example_chain) (nl_state_archive archive_example)\<rparr>)"
    by (simp add: load_def Let_def)
  then show ?thesis using nl1 all flag db by blast
qed

section \<open>Alternative blocks\<close>

text \<open>
  C17: an alternative block never touches the main chain: the current state, the history, the
  archive and the other alternative states stay as they are.  What it adds is a state of the block,
  one above a recorded state with the hash of the block's predecessor.
\<close>

theorem alt_block_leaves_main_chain:
  assumes ok: "list_ok ver nl" and run: "alt_block_added N blk txs cp nl = ret (b, nl')"
    and fits: "\<forall>s. alt_starting_state blk nl = Some s \<longrightarrow> fits ver (st_height s) blk"
  shows "nl_state nl' = nl_state nl \<and> nl_state_history nl' = nl_state_history nl \<and>
     nl_state_archive nl' = nl_state_archive nl \<and> nl_old_quorum_states nl' = nl_old_quorum_states nl \<and>
     (\<forall>k. k \<noteq> blk_hash blk \<longrightarrow> map_of (nl_alt_state nl') k = map_of (nl_alt_state nl) k) \<and>
     (nl' = nl \<or> (\<exists>s st. s \<in> set (nl_state_history nl) \<union> snd ` set (nl_alt_state nl) \<and> st_block_hash s = blk_prev_id blk \<and>
        map_of (nl_alt_state nl') (blk_hash blk) = Some st \<and> st_height st = st_height s + 1 \<and> st_block_hash st = blk_hash blk))"
  using alt_block_added_result [OF run]
proof (elim disjE exE conjE)
  fix s proofs st
  assume s: "alt_starting_state blk nl = Some s" "st_block_hash s = blk_prev_id blk"
    and u: "update_from_block N (nl_rescanning nl) (nl_state_history nl) (nl_state_archive nl) (nl_alt_state nl) blk txs
       (nl_proofs nl, s) = ret (proofs, st)"
    and nl': "nl' = nl\<lparr>nl_proofs := proofs, nl_alt_state := um_assign_key (blk_hash blk) st (nl_alt_state nl)\<rparr>"
  have mem: "s \<in> set (nl_state_history nl) \<union> snd ` set (nl_alt_state nl)" by (rule alt_starting_state_mem [OF s(1)])
  then have inv: "node_inv (ver (st_height s)) s" using ok by (auto simp: list_ok_def all_states_def)
  have st: "st_height st = st_height s + 1" "st_block_hash st = blk_hash blk"
    using update_from_block_inv [OF inv _ u] fits s(1) by (simp_all add: fits_def)
  have look: "map_of (nl_alt_state nl') k = (if k = blk_hash blk then Some st else map_of (nl_alt_state nl) k)" for k
    using ok by (simp add: nl' um.find_put list_ok_def)
  have "\<exists>s st. s \<in> set (nl_state_history nl) \<union> snd ` set (nl_alt_state nl) \<and> st_block_hash s = blk_prev_id blk \<and>
        map_of (nl_alt_state nl') (blk_hash blk) = Some st \<and> st_height st = st_height s + 1 \<and> st_block_hash st = blk_hash blk"
    using mem s(2) st look by auto
  then show ?thesis using look by (simp add: nl')
qed simp

theorem alt_block_leaves_main_chain_witness:
  "\<exists>b nl'. alt_block_added example_node_env ((example_block 41)\<lparr>blk_prev_id := 40, blk_hash := 5\<rparr>) [] None
       ((quiet_list 50)\<lparr>nl_state_history := [quiet_state 40]\<rparr>) = ret (b, nl') \<and>
     nl_state nl' = quiet_state 50 \<and> nl_state_history nl' = [quiet_state 40]"
proof -
  let ?blk = "(example_block 41)\<lparr>blk_prev_id := 40, blk_hash := 5\<rparr>" and ?nl = "(quiet_list 50)\<lparr>nl_state_history := [quiet_state 40]\<rparr>"
  have h: "get_block_height ?blk = 41" "blk_major_version ?blk = 16" by (simp_all add: example_block_def get_block_height_def)
  have nl: "nl_state ?nl = quiet_state 50" "nl_state_history ?nl = [quiet_state 40]" "nl_alt_state ?nl = []"
    "nl_state_archive ?nl = []" "nl_db_long_term ?nl = None" "nl_db_short_term ?nl = None"
    by (simp_all add: quiet_list_def)
  have ok: "list_ok hf16 ?nl"
    by (simp add: list_ok_def nl heights_ascend_def all_states_def quiet_node_inv stored_ok_def um_wf_def keys_of_def)
  have start: "alt_starting_state ?blk ?nl = Some (quiet_state 40)"
    by (simp add: alt_starting_state_def h nl find_state_def)
  have fits: "\<forall>s. alt_starting_state ?blk ?nl = Some s \<longrightarrow> fits hf16 (st_height s) ?blk"
    unfolding start fits_def h by simp
  obtain p st where "update_from_block example_node_env (nl_rescanning ?nl) (nl_state_history ?nl) (nl_state_archive ?nl)
      (nl_alt_state ?nl) ?blk [] (nl_proofs ?nl, quiet_state 40) = ret (p, st)"
    using quiet_block_run [OF quiet_state_simps(2) h(2)] by blast
  then obtain b nl' where "alt_block_added example_node_env ?blk [] None ?nl = ret (b, nl')"
    using h(2) start nl(3) by (auto simp: alt_block_added_def Let_def const_defs)
  from alt_block_leaves_main_chain [OF ok this fits] this nl(1,2) show ?thesis by metis
qed

end
