(* ===== verification/Uptime.thy ===== *)
theory Uptime
  imports Node_List
begin

text \<open>
  Uptime proofs (\<^verbatim>\<open>src/src/cryptonote_core/service_node_list.cpp\<close>, lines 1918 to 2212): the message a
  service node sends about itself, its acceptance by the other nodes, the record of the checkpoint
  votes of a node, and the copy of a proof in the database (\<^verbatim>\<open>db_lmdb.cpp\<close>, from line 6580).

  The functions of libsodium are the record \<open>sodium_ops\<close>, an argument of the definitions that call
  them; a non-zero result code is \<open>False\<close> or \<open>None\<close>.  \<^verbatim>\<open>time(nullptr)\<close> is the field \<open>bc_time\<close>: all
  calls of one operation read the same second.  The proofs in the database are the field
  \<open>bc_service_node_proofs\<close>, each in the form in which it is read back; an operation that writes
  them returns the changed \<open>blockchain_info\<close>.
\<close>

unbundle bit_operations_syntax

section \<open>Addresses\<close>

text \<open>The first number of a dotted address is the lowest byte of the word.\<close>

definition is_ip_local :: "u32 \<Rightarrow> bool" where
  "is_ip_local ip \<longleftrightarrow>
     (if ip AND 0xff = 0x0a then True
      else if ip AND 0xf0ff = 0x10ac then True
      else if ip AND 0xffff = 0xa8c0 then True
      else if ip AND 0xc0ff = 0x4064 then True
      else if ip AND 0xffff = 0xfea9 then True
      else False)"

definition is_ip_loopback :: "u32 \<Rightarrow> bool" where
  "is_ip_loopback ip \<longleftrightarrow> (if ip AND 0xff = 0x7f then True else False)"

definition is_ip_public :: "u32 \<Rightarrow> bool" where
  "is_ip_public ip \<longleftrightarrow>
     \<not> (is_ip_local ip \<or> is_ip_loopback ip \<or> ip AND 0xff = 0x00 \<or> ip AND 0xe0 = 0xe0)"

section \<open>The message\<close>

type_synonym ed25519_signature = "512 word"

record sodium_ops =
  crypto_sign_detached :: "hash256 \<Rightarrow> ed25519_secret_key \<Rightarrow> ed25519_signature"
  crypto_sign_verify_detached :: "ed25519_signature \<Rightarrow> hash256 \<Rightarrow> ed25519_public_key \<Rightarrow> bool"
  crypto_sign_ed25519_pk_to_curve25519 :: "ed25519_public_key \<Rightarrow> x25519_public_key option"

record uptime_proof =
  up_snode_version :: "u16 list"
  up_timestamp :: u64
  up_pubkey :: public_key
  up_sig :: signature
  up_pubkey_ed25519 :: ed25519_public_key
  up_sig_ed25519 :: ed25519_signature
  up_public_ip :: u32
  up_storage_port :: u16
  up_storage_lmq_port :: u16
  up_qnet_port :: u16

definition hash_uptime_proof :: "crypto_ops \<Rightarrow> uptime_proof \<Rightarrow> u8 \<Rightarrow> hash256" where
  "hash_uptime_proof C proof hf_version =
     (let buf = be_bytes 32 (up_pubkey proof) @ le_bytes 8 (up_timestamp proof) @ le_bytes 4 (up_public_ip proof)
            @ le_bytes 2 (up_storage_port proof) @ be_bytes 32 (up_pubkey_ed25519 proof)
            @ le_bytes 2 (up_qnet_port proof) @ le_bytes 2 (up_storage_lmq_port proof);
          buf_size = length buf;
          buf_size = (if hf_version < network_version_15_lns then buf_size - 2 else buf_size)
      in cn_fast_hash C (take buf_size buf))"

definition generate_uptime_proof ::
    "crypto_ops \<Rightarrow> sodium_ops \<Rightarrow> u16 list \<Rightarrow> blockchain_info \<Rightarrow> service_node_keys \<Rightarrow> u32 \<Rightarrow> u16 \<Rightarrow> u16 \<Rightarrow> u16 \<Rightarrow>
      uptime_proof" where
  "generate_uptime_proof C S sispop_version B keys public_ip storage_port storage_lmq_port quorumnet_port =
     (let result = \<lparr>up_snode_version = sispop_version, up_timestamp = bc_time B, up_pubkey = sn_pub keys,
            up_sig = 0, up_pubkey_ed25519 = sn_pub_ed25519 keys, up_sig_ed25519 = 0, up_public_ip = public_ip,
            up_storage_port = storage_port, up_storage_lmq_port = storage_lmq_port,
            up_qnet_port = quorumnet_port\<rparr>;
          hash = hash_uptime_proof C result (bc_current_hard_fork_version B)
      in result\<lparr>up_sig := generate_signature C hash (sn_pub keys) (sn_key keys),
                up_sig_ed25519 := crypto_sign_detached S hash (sn_key_ed25519 keys)\<rparr>)"

section \<open>What is kept of a proof\<close>

text \<open>The two latest addresses of a node, each with the time it was last seen.\<close>

definition track_ip :: "u32 \<Rightarrow> u64 \<Rightarrow> (u32 \<times> u64) \<times> (u32 \<times> u64) \<Rightarrow> (u32 \<times> u64) \<times> (u32 \<times> u64)" where
  "track_ip ip now ips =
     (let (first, second) = ips
      in if fst first \<noteq> 0 \<and> fst first = ip then ((fst first, now), second)
         else if fst second \<noteq> 0 \<and> fst second = ip then (first, (fst second, now))
         else if snd first > snd second then (first, (ip, now))
         else ((ip, now), second))"

text \<open>The flag tells whether a stored field changed.\<close>

definition proof_info_update ::
    "u64 \<Rightarrow> u64 \<Rightarrow> u32 \<Rightarrow> u16 \<Rightarrow> u16 \<Rightarrow> u16 \<Rightarrow> u16 list \<Rightarrow> ed25519_public_key \<Rightarrow> x25519_public_key \<Rightarrow>
      proof_info \<Rightarrow> bool \<times> proof_info" where
  "proof_info_update now ts ip s_port s_lmq_port q_port ver pk_ed pk_x2 p =
     (let update_db = pi_timestamp p \<noteq> ts \<or> pi_public_ip p \<noteq> ip \<or> pi_storage_port p \<noteq> s_port
            \<or> pi_storage_lmq_port p \<noteq> s_lmq_port \<or> pi_quorumnet_port p \<noteq> q_port \<or> pi_version p \<noteq> ver
            \<or> pi_pubkey_ed25519 p \<noteq> pk_ed
      in (update_db,
          p\<lparr>pi_timestamp := ts, pi_public_ip := ip, pi_storage_port := s_port, pi_storage_lmq_port := s_lmq_port,
            pi_quorumnet_port := q_port, pi_version := ver, pi_pubkey_ed25519 := pk_ed,
            pi_effective_timestamp := ts, pi_pubkey_x25519 := pk_x2,
            pi_public_ips := track_ip ip now (pi_public_ips p)\<rparr>))"

definition update_pubkey :: "sodium_ops \<Rightarrow> ed25519_public_key \<Rightarrow> proof_info \<Rightarrow> proof_info" where
  "update_pubkey S pk p =
     (if pk = pi_pubkey_ed25519 p then p
      else
        case (if pk \<noteq> 0 then crypto_sign_ed25519_pk_to_curve25519 S pk else None) of
          Some x \<Rightarrow> p\<lparr>pi_pubkey_x25519 := x, pi_pubkey_ed25519 := pk\<rparr>
        | None \<Rightarrow> p\<lparr>pi_pubkey_x25519 := 0, pi_pubkey_ed25519 := 0\<rparr>)"

section \<open>Proofs in the database\<close>

record service_node_proof_serialized =
  sp_timestamp :: u64
  sp_ip :: u32
  sp_storage_port :: u16
  sp_quorumnet_port :: u16
  sp_version :: "u16 list"
  sp_storage_lmq_port :: u16
  sp_pubkey_ed25519 :: ed25519_public_key

definition serialize_proof :: "proof_info \<Rightarrow> service_node_proof_serialized" where
  "serialize_proof info =
     \<lparr>sp_timestamp = pi_timestamp info, sp_ip = pi_public_ip info, sp_storage_port = pi_storage_port info,
      sp_quorumnet_port = pi_quorumnet_port info,
      sp_version = [pi_version info ! 0, pi_version info ! 1, pi_version info ! 2],
      sp_storage_lmq_port = pi_storage_lmq_port info, sp_pubkey_ed25519 = pi_pubkey_ed25519 info\<rparr>"

definition update_from_serialized :: "sodium_ops \<Rightarrow> service_node_proof_serialized \<Rightarrow> proof_info \<Rightarrow> proof_info" where
  "update_from_serialized S data info =
     (let info = info\<lparr>pi_timestamp := sp_timestamp data\<rparr>;
          info = (if pi_timestamp info > pi_effective_timestamp info
                  then info\<lparr>pi_effective_timestamp := pi_timestamp info\<rparr> else info);
          info = info\<lparr>pi_public_ip := sp_ip data, pi_storage_port := sp_storage_port data,
                      pi_storage_lmq_port := sp_storage_lmq_port data,
                      pi_quorumnet_port := sp_quorumnet_port data, pi_version := sp_version data\<rparr>
      in update_pubkey S (sp_pubkey_ed25519 data) info)"

definition proof_of_serialized :: "sodium_ops \<Rightarrow> service_node_proof_serialized \<Rightarrow> proof_info" where
  "proof_of_serialized S data = update_from_serialized S data default_proof"

definition set_service_node_proof :: "sodium_ops \<Rightarrow> public_key \<Rightarrow> proof_info \<Rightarrow> blockchain_info \<Rightarrow> blockchain_info" where
  "set_service_node_proof S pubkey p B =
     B\<lparr>bc_service_node_proofs :=
         um_assign_key pubkey (proof_of_serialized S (serialize_proof p)) (bc_service_node_proofs B)\<rparr>"

definition remove_service_node_proof :: "public_key \<Rightarrow> blockchain_info \<Rightarrow> blockchain_info" where
  "remove_service_node_proof pubkey B =
     B\<lparr>bc_service_node_proofs := erase_key pubkey (bc_service_node_proofs B)\<rparr>"

section \<open>Receiving a proof\<close>

definition X25519_MAP_PRUNING_INTERVAL :: u64 where [const_defs]: "X25519_MAP_PRUNING_INTERVAL = 5 * 60"
definition X25519_MAP_PRUNING_LAG :: u64 where [const_defs]: "X25519_MAP_PRUNING_LAG = 24 * 60 * 60"

definition HF_VERSION_ED25519_KEY :: u8 where
  [const_defs]: "HF_VERSION_ED25519_KEY = network_version_13_enforce_checkpoints"

text \<open>The order of \<^verbatim>\<open>std::array\<close>.\<close>

fun version_less :: "u16 list \<Rightarrow> u16 list \<Rightarrow> bool" where
  "version_less (a # as) (b # bs) = (if a < b then True else if b < a then False else version_less as bs)"
| "version_less [] (b # bs) = True"
| "version_less as [] = False"

text \<open>
  The checks on the message itself, with the derived key on success: that key is null before the
  hard fork that requires one.
\<close>

definition validate_uptime_proof ::
    "crypto_ops \<Rightarrow> sodium_ops \<Rightarrow> blockchain_info \<Rightarrow> bool \<Rightarrow> uptime_proof \<Rightarrow> x25519_public_key option" where
  "validate_uptime_proof C S B allow_local_ips proof =
     (let hf_version = bc_current_hard_fork_version B; now = bc_time B
      in if up_timestamp proof < now - UPTIME_PROOF_BUFFER_IN_SECONDS
            \<or> up_timestamp proof > now + UPTIME_PROOF_BUFFER_IN_SECONDS then None
         else if \<exists>(hardfork, version) \<in> set MIN_UPTIME_PROOF_VERSIONS.
                   hf_version \<ge> hardfork \<and> version_less (up_snode_version proof) version then None
         else if \<not> allow_local_ips \<and> \<not> is_ip_public (up_public_ip proof) then None
         else
           let hash = hash_uptime_proof C proof hf_version
           in if \<not> check_signature C hash (up_pubkey proof) (up_sig proof) then None
              else if hf_version \<ge> HF_VERSION_ED25519_KEY \<and> up_pubkey_ed25519 proof = 0 then None
              else if hf_version \<ge> HF_VERSION_ED25519_KEY
                      \<and> \<not> crypto_sign_verify_detached S (up_sig_ed25519 proof) hash (up_pubkey_ed25519 proof) then None
              else
                case (if hf_version \<ge> HF_VERSION_ED25519_KEY
                      then (case crypto_sign_ed25519_pk_to_curve25519 S (up_pubkey_ed25519 proof) of
                              None \<Rightarrow> None
                            | Some x \<Rightarrow> if x = 0 then None else Some x)
                      else Some 0) of
                  None \<Rightarrow> None
                | Some derived \<Rightarrow>
                    if hf_version \<ge> network_version_14_blink \<and> up_qnet_port proof = 0 then None
                    else Some derived)"

definition prune_x25519_map :: "u64 \<Rightarrow> service_node_list \<Rightarrow> service_node_list" where
  "prune_x25519_map now nl =
     (if nl_x25519_map_last_pruned nl + X25519_MAP_PRUNING_INTERVAL \<le> now then
        let cutoff = now - X25519_MAP_PRUNING_LAG
        in nl\<lparr>nl_x25519_to_pub := filter (\<lambda>x. \<not> sint (snd (snd x)) < sint cutoff) (nl_x25519_to_pub nl),
              nl_x25519_map_last_pruned := now\<rparr>
      else nl)"

definition replace_x25519 ::
    "x25519_public_key \<Rightarrow> x25519_public_key \<Rightarrow> public_key \<Rightarrow> u64 \<Rightarrow> x25519_map \<Rightarrow> x25519_map" where
  "replace_x25519 old derived pubkey now m =
     (let m = (if old \<noteq> 0 \<and> old \<noteq> derived then erase_key old m else m)
      in if derived \<noteq> 0 then um_assign_key derived (pubkey, now) m else m)"

text \<open>
  The whole handler: whether the proof is accepted, the confirmation flag, and the changed list
  and database.  The map of proofs gets a default entry for the node before the last check.
\<close>

definition handle_uptime_proof ::
    "crypto_ops \<Rightarrow> sodium_ops \<Rightarrow> uptime_proof \<Rightarrow> bool \<Rightarrow> service_node_list \<Rightarrow> blockchain_info \<Rightarrow>
      bool \<times> bool \<times> service_node_list \<times> blockchain_info" where
  "handle_uptime_proof C S proof my_uptime_proof_confirmation nl B =
     (let now = bc_time B; key = up_pubkey proof
      in case validate_uptime_proof C S B (nl_debug_allow_local_ips nl) proof of
           None \<Rightarrow> (False, my_uptime_proof_confirmation, nl, B)
         | Some derived \<Rightarrow>
             if map_of (infos_of (nl_state nl)) key = None then (False, my_uptime_proof_confirmation, nl, B)
             else
               let nl = nl\<lparr>nl_proofs := update_proof key (\<lambda>p. p) (nl_proofs nl)\<rparr>;
                   iproof = proof_at (nl_proofs nl) key
               in if pi_timestamp iproof \<ge> now - UPTIME_PROOF_FREQUENCY_IN_SECONDS div 2
                  then (False, my_uptime_proof_confirmation, nl, B)
                  else
                    let confirmation = (case nl_service_node_keys nl of
                                          None \<Rightarrow> False
                                        | Some keys \<Rightarrow> key = sn_pub keys);
                        old_x25519 = pi_pubkey_x25519 iproof;
                        (changed, iproof) =
                          proof_info_update now now (up_public_ip proof) (up_storage_port proof)
                            (up_storage_lmq_port proof) (up_qnet_port proof) (up_snode_version proof)
                            (up_pubkey_ed25519 proof) derived iproof;
                        B = (if changed then set_service_node_proof S key iproof B else B);
                        nl = nl\<lparr>nl_proofs := um_assign_key key iproof (nl_proofs nl)\<rparr>;
                        nl = prune_x25519_map now nl;
                        nl = nl\<lparr>nl_x25519_to_pub := replace_x25519 old_x25519 derived key now (nl_x25519_to_pub nl)\<rparr>
                    in (True, confirmation, nl, B))"

section \<open>Keeping the proofs\<close>

definition proof_expired :: "service_node_list \<Rightarrow> u64 \<Rightarrow> public_key \<times> proof_info \<Rightarrow> bool" where
  "proof_expired nl now entry \<longleftrightarrow>
     map_of (infos_of (nl_state nl)) (fst entry) = None \<and> pi_timestamp (snd entry) + 6 * 60 * 60 < now"

definition cleanup_proofs :: "service_node_list \<Rightarrow> blockchain_info \<Rightarrow> service_node_list \<times> blockchain_info" where
  "cleanup_proofs nl B =
     (let expired = filter (proof_expired nl (bc_time B)) (nl_proofs nl)
      in (nl\<lparr>nl_proofs := filter (\<lambda>e. \<not> proof_expired nl (bc_time B) e) (nl_proofs nl)\<rparr>,
          fold (\<lambda>e. remove_service_node_proof (fst e)) expired B))"

definition record_vote :: "u64 \<Rightarrow> bool \<Rightarrow> proof_info \<Rightarrow> proof_info" where
  "record_vote height voted info =
     (let i = unat (pi_vote_index info); votes = pi_votes info
      in info\<lparr>pi_votes := votes[i := \<lparr>cvr_height = height, cvr_voted = voted\<rparr>],
              pi_vote_index := of_nat ((i + 1) mod length votes)\<rparr>)"

definition record_checkpoint_vote :: "public_key \<Rightarrow> u64 \<Rightarrow> bool \<Rightarrow> service_node_list \<Rightarrow> service_node_list" where
  "record_checkpoint_vote pubkey height voted nl =
     (if map_of (infos_of (nl_state nl)) pubkey = None then nl
      else nl\<lparr>nl_proofs := update_proof pubkey (record_vote height voted) (nl_proofs nl)\<rparr>)"

definition set_storage_server_peer_reachable ::
    "blockchain_info \<Rightarrow> public_key \<Rightarrow> bool \<Rightarrow> service_node_list \<Rightarrow> bool \<times> service_node_list" where
  "set_storage_server_peer_reachable B pubkey reachable nl =
     (if map_of (infos_of (nl_state nl)) pubkey = None then (False, nl)
      else (True, nl\<lparr>nl_proofs := update_proof pubkey
             (\<lambda>p. p\<lparr>pi_storage_server_reachable := reachable,
                    pi_storage_server_reachable_timestamp := bc_time B\<rparr>) (nl_proofs nl)\<rparr>))"

section \<open>The record of checkpoint votes\<close>

text \<open>
  A log that keeps as many entries as it has: a new one drives out the oldest.
\<close>

locale bounded_log =
  fixes ok :: "'s \<Rightarrow> bool" and view :: "'s \<Rightarrow> 'a list" and push :: "'a \<Rightarrow> 's \<Rightarrow> 's"
  assumes ok_push: "ok s \<Longrightarrow> ok (push x s)"
    and view_nonempty: "ok s \<Longrightarrow> view s \<noteq> []"
    and view_push: "ok s \<Longrightarrow> view (push x s) = tl (view s) @ [x]"
begin

lemma ok_run: "ok s \<Longrightarrow> ok (fold push xs s)"
  by (induction xs arbitrary: s) (auto simp: ok_push)

lemma view_run: "ok s \<Longrightarrow> view (fold push xs s) = drop (length xs) (view s @ xs)"
proof (induction xs arbitrary: s)
  case (Cons x xs)
  from view_nonempty [OF Cons.prems] obtain y ys where "view s = y # ys" by (cases "view s") auto
  then have "view (fold push (x # xs) s) = drop (length xs) ((ys @ [x]) @ xs)"
    using Cons.IH [OF ok_push [OF Cons.prems, of x]] view_push [OF Cons.prems, of x] by (simp del: drop_append)
  also have "\<dots> = drop (length (x # xs)) (view s @ x # xs)"
    by (simp add: \<open>view s = y # ys\<close> del: drop_append)
  finally show ?case .
qed simp

lemma length_run: "ok s \<Longrightarrow> length (view (fold push xs s)) = length (view s)"
  by (simp add: view_run)

end

definition proof_ok :: "proof_info \<Rightarrow> bool" where
  "proof_ok p \<longleftrightarrow> length (pi_votes p) = CHECKPOINT_NUM_QUORUMS_TO_PARTICIPATE_IN
     \<and> unat (pi_vote_index p) < CHECKPOINT_NUM_QUORUMS_TO_PARTICIPATE_IN"

text \<open>The votes of the ring, the oldest first.\<close>

definition recent_votes :: "proof_info \<Rightarrow> checkpoint_vote_record list" where
  "recent_votes p = rotate (unat (pi_vote_index p)) (pi_votes p)"

lemma rotate_update:
  assumes "i < length xs"
  shows "rotate (Suc i) (xs[i := x]) = tl (rotate i xs) @ [x]"
proof -
  have "rotate i (xs[i := x]) = x # tl (rotate i xs)"
    using assms Cons_nth_drop_Suc [OF assms, symmetric]
    by (simp add: rotate_drop_take upd_conv_take_nth_drop)
  then show ?thesis by (simp add: rotate1_hd_tl)
qed

lemma rotate_mod_length: "rotate (n mod length xs) xs = rotate n xs"
  by (metis rotate_conv_mod)

interpretation votes: bounded_log proof_ok recent_votes "\<lambda>v :: checkpoint_vote_record. record_vote (cvr_height v) (cvr_voted v)"
proof unfold_locales
  fix p and x :: checkpoint_vote_record
  assume p: "proof_ok p"
  have small: "(unat (pi_vote_index p) + 1) mod CHECKPOINT_NUM_QUORUMS_TO_PARTICIPATE_IN < 256"
    using mod_less_divisor [of CHECKPOINT_NUM_QUORUMS_TO_PARTICIPATE_IN "unat (pi_vote_index p) + 1"]
    by (simp add: const_defs)
  let ?i = "unat (pi_vote_index p)"
  have next_index: "unat (of_nat ((?i + 1) mod length (pi_votes p)) :: u8) = (?i + 1) mod length (pi_votes p)"
    using p small by (simp add: proof_ok_def unat_of_nat take_bit_eq_mod)
  show "proof_ok (record_vote (cvr_height x) (cvr_voted x) p)"
    using p next_index by (simp add: proof_ok_def record_vote_def Let_def const_defs)
  show "recent_votes p \<noteq> []"
    using p by (auto simp: proof_ok_def recent_votes_def const_defs)
  obtain h v where x: "x = \<lparr>cvr_height = h, cvr_voted = v\<rparr>" by (cases x)
  show "recent_votes (record_vote (cvr_height x) (cvr_voted x) p) = tl (recent_votes p) @ [x]"
    using p next_index rotate_update [of ?i "pi_votes p" x]
      rotate_mod_length [of "Suc ?i" "(pi_votes p)[?i := x]"]
    by (simp add: proof_ok_def recent_votes_def record_vote_def Let_def x del: rotate_Suc)
qed

lemma default_proof_ok: "proof_ok default_proof"
  by (simp add: proof_ok_def default_proof_def empty_votes_def const_defs)

lemma find_update_proof: "map_of (update_proof key f proofs) = (map_of proofs)(key \<mapsto> f (proof_at proofs key))"
  by (simp add: update_proof_def map_of_um_assign)

lemma proof_at_update_proof:
  "proof_at (update_proof key f proofs) k = (if k = key then f (proof_at proofs key) else proof_at proofs k)"
  by (simp add: proof_at_def find_update_proof)

lemma proof_at_assign:
  "proof_at (um_assign_key key p proofs) k = (if k = key then p else proof_at proofs k)"
  by (simp add: proof_at_def map_of_um_assign)

text \<open>A checkpoint vote to be recorded: the node, the height and whether it voted.\<close>

type_synonym vote_event = "public_key \<times> u64 \<times> bool"

definition record_votes :: "vote_event list \<Rightarrow> service_node_list \<Rightarrow> service_node_list" where
  "record_votes = fold (\<lambda>(key, height, voted). record_checkpoint_vote key height voted)"

definition votes_of :: "public_key \<Rightarrow> vote_event list \<Rightarrow> checkpoint_vote_record list" where
  "votes_of key events =
     map (\<lambda>(k, height, voted). \<lparr>cvr_height = height, cvr_voted = voted\<rparr>) (filter (\<lambda>e. fst e = key) events)"

lemma state_record_checkpoint_vote [simp]: "nl_state (record_checkpoint_vote key height voted nl) = nl_state nl"
  by (simp add: record_checkpoint_vote_def)

lemma proof_at_record_votes:
  assumes "map_of (infos_of (nl_state nl)) key \<noteq> None"
  shows "proof_at (nl_proofs (record_votes events nl)) key =
    fold (\<lambda>v. record_vote (cvr_height v) (cvr_voted v)) (votes_of key events) (proof_at (nl_proofs nl) key)"
  using assms
proof (induction events arbitrary: nl)
  case (Cons e events)
  obtain k h v where e: "e = (k, h, v)" by (cases e)
  have "proof_at (nl_proofs (record_checkpoint_vote k h v nl)) key =
      (if k = key then record_vote h v (proof_at (nl_proofs nl) key) else proof_at (nl_proofs nl) key)"
    using Cons.prems by (auto simp: record_checkpoint_vote_def proof_at_update_proof)
  with Cons.IH [of "record_checkpoint_vote k h v nl"] Cons.prems show ?case
    by (simp add: record_votes_def votes_of_def e)
qed (simp add: record_votes_def votes_of_def)

text \<open>
  C14: the ring of checkpoint votes of a registered node implements a queue of the last eight
  votes: after any sequence of recorded votes, for this node and for others, the ring read from
  its oldest entry is what it held before followed by the node's new votes, with as many entries
  dropped at the front as came in; its index stays in range.
\<close>

theorem vote_ring_refines_queue:
  assumes "map_of (infos_of (nl_state nl)) key \<noteq> None" and "proof_ok (proof_at (nl_proofs nl) key)"
  shows "proof_ok (proof_at (nl_proofs (record_votes events nl)) key) \<and>
         recent_votes (proof_at (nl_proofs (record_votes events nl)) key) =
           drop (length (votes_of key events)) (recent_votes (proof_at (nl_proofs nl) key) @ votes_of key events)"
  using assms by (simp add: proof_at_record_votes votes.ok_run votes.view_run del: drop_append)

section \<open>Acceptance\<close>

definition accepts :: "crypto_ops \<Rightarrow> sodium_ops \<Rightarrow> uptime_proof \<Rightarrow> service_node_list \<Rightarrow> blockchain_info \<Rightarrow> bool" where
  "accepts C S proof nl B \<longleftrightarrow>
     validate_uptime_proof C S B (nl_debug_allow_local_ips nl) proof \<noteq> None \<and>
     map_of (infos_of (nl_state nl)) (up_pubkey proof) \<noteq> None \<and>
     pi_timestamp (proof_at (nl_proofs nl) (up_pubkey proof)) < bc_time B - UPTIME_PROOF_FREQUENCY_IN_SECONDS div 2"

definition accepted_info :: "uptime_proof \<Rightarrow> u64 \<Rightarrow> x25519_public_key \<Rightarrow> proof_info \<Rightarrow> proof_info" where
  "accepted_info proof now derived p = snd (proof_info_update now now (up_public_ip proof) (up_storage_port proof)
     (up_storage_lmq_port proof) (up_qnet_port proof) (up_snode_version proof) (up_pubkey_ed25519 proof) derived p)"

lemma handle_uptime_proof_accepts: "fst (handle_uptime_proof C S proof flag nl B) \<longleftrightarrow> accepts C S proof nl B"
  by (auto simp: handle_uptime_proof_def accepts_def Let_def proof_at_update_proof not_le
      split: option.split prod.split)

lemma handle_uptime_proof_state [simp]:
  "nl_state (fst (snd (snd (handle_uptime_proof C S proof flag nl B)))) = nl_state nl"
  by (simp add: handle_uptime_proof_def prune_x25519_map_def Let_def split: option.split prod.split)

lemma handle_uptime_proof_info:
  "proof_at (nl_proofs (fst (snd (snd (handle_uptime_proof C S proof flag nl B))))) key =
     (if key = up_pubkey proof \<and> accepts C S proof nl B
      then accepted_info proof (bc_time B)
        (the (validate_uptime_proof C S B (nl_debug_allow_local_ips nl) proof)) (proof_at (nl_proofs nl) key)
      else proof_at (nl_proofs nl) key)"
  by (auto simp: handle_uptime_proof_def accepts_def accepted_info_def prune_x25519_map_def Let_def
      proof_at_update_proof proof_at_assign not_le not_less split: option.split prod.split)

section \<open>The time between proofs\<close>

text \<open>
  What happens to the proofs of a list between two blocks; each event carries the view of the
  blockchain, with the clock, at its time.
\<close>

datatype proof_event =
    receive_proof uptime_proof bool blockchain_info
  | checkpoint_vote public_key u64 bool
  | peer_reachable public_key bool blockchain_info
  | clean_proofs blockchain_info

fun run_event :: "crypto_ops \<Rightarrow> sodium_ops \<Rightarrow> proof_event \<Rightarrow> service_node_list \<Rightarrow> service_node_list" where
  "run_event C S (receive_proof proof flag B) nl = fst (snd (snd (handle_uptime_proof C S proof flag nl B)))"
| "run_event C S (checkpoint_vote key height voted) nl = record_checkpoint_vote key height voted nl"
| "run_event C S (peer_reachable key reachable B) nl = snd (set_storage_server_peer_reachable B key reachable nl)"
| "run_event C S (clean_proofs B) nl = fst (cleanup_proofs nl B)"

fun accepted_at :: "crypto_ops \<Rightarrow> sodium_ops \<Rightarrow> public_key \<Rightarrow> proof_event \<Rightarrow> service_node_list \<Rightarrow> u64 list" where
  "accepted_at C S key (receive_proof proof flag B) nl =
     (if up_pubkey proof = key \<and> fst (handle_uptime_proof C S proof flag nl B) then [bc_time B] else [])"
| "accepted_at C S key _ nl = []"

text \<open>The times at which proofs of a node are accepted.\<close>

fun accepted_times ::
    "crypto_ops \<Rightarrow> sodium_ops \<Rightarrow> public_key \<Rightarrow> proof_event list \<Rightarrow> service_node_list \<Rightarrow> u64 list" where
  "accepted_times C S key [] nl = []"
| "accepted_times C S key (e # es) nl = accepted_at C S key e nl @ accepted_times C S key es (run_event C S e nl)"

lemma run_event_state [simp]: "nl_state (run_event C S e nl) = nl_state nl"
  by (cases e) (simp_all add: set_storage_server_peer_reachable_def cleanup_proofs_def Let_def)

lemma accepted_at_cases:
  assumes "map_of (infos_of (nl_state nl)) key \<noteq> None"
  obtains (none) "accepted_at C S key e nl = []"
      "pi_timestamp (proof_at (nl_proofs (run_event C S e nl)) key) = pi_timestamp (proof_at (nl_proofs nl) key)"
    | (one) now where "accepted_at C S key e nl = [now]"
      "pi_timestamp (proof_at (nl_proofs (run_event C S e nl)) key) = now"
      "pi_timestamp (proof_at (nl_proofs nl) key) < now - UPTIME_PROOF_FREQUENCY_IN_SECONDS div 2"
proof (cases e)
  case (receive_proof msg flag B)
  have late: "accepts C S msg nl B \<Longrightarrow>
      pi_timestamp (proof_at (nl_proofs nl) (up_pubkey msg)) < bc_time B - UPTIME_PROOF_FREQUENCY_IN_SECONDS div 2"
    by (simp add: accepts_def)
  have stamp: "pi_timestamp (accepted_info msg now derived p) = now" for now derived p
    by (simp add: accepted_info_def proof_info_update_def Let_def)
  show ?thesis
  proof (cases "up_pubkey msg = key \<and> accepts C S msg nl B")
    case True
    then show ?thesis
      using that(2) [of "bc_time B"] late by (simp add: receive_proof handle_uptime_proof_accepts
          handle_uptime_proof_info stamp)
  next
    case False
    show ?thesis
      by (rule that(1)) (use False in \<open>auto simp: receive_proof handle_uptime_proof_accepts handle_uptime_proof_info\<close>)
  qed
next
  case (clean_proofs B)
  have "map_of (filter (\<lambda>e. \<not> proof_expired nl (bc_time B) e) proofs) key = map_of proofs key" for proofs
    using assms by (induction proofs) (auto simp: proof_expired_def)
  then show ?thesis using that(1) by (simp add: clean_proofs cleanup_proofs_def proof_at_def Let_def)
next
  case (checkpoint_vote k h v)
  then show ?thesis
    using that(1) by (simp add: record_checkpoint_vote_def proof_at_update_proof record_vote_def Let_def)
next
  case (peer_reachable k r B)
  then show ?thesis
    using that(1) by (simp add: set_storage_server_peer_reachable_def proof_at_update_proof)
qed

lemma no_proof_of_unknown_node:
  assumes "map_of (infos_of (nl_state nl)) key = None"
  shows "accepted_times C S key events nl = []"
  using assms
proof (induction events arbitrary: nl)
  case (Cons e events)
  from Cons.prems have "accepted_at C S key e nl = []"
    by (cases e) (auto simp: handle_uptime_proof_accepts accepts_def)
  with Cons show ?case by simp
qed simp

lemma accepted_times_spaced:
  assumes "map_of (infos_of (nl_state nl)) key \<noteq> None"
  shows "successively (\<lambda>t t'. t < t' - UPTIME_PROOF_FREQUENCY_IN_SECONDS div 2)
           (pi_timestamp (proof_at (nl_proofs nl) key) # accepted_times C S key events nl)"
  using assms
proof (induction events arbitrary: nl)
  case (Cons e events)
  have next_state: "map_of (infos_of (nl_state (run_event C S e nl))) key \<noteq> None" using Cons.prems by simp
  from Cons.prems show ?case
    by (cases rule: accepted_at_cases [where C = C and S = S and e = e]) (use Cons.IH [OF next_state] in auto)
qed simp

text \<open>
  C22: whatever messages, votes and clean-ups a node processes between two blocks, the proofs it
  accepts of one service node are spaced: half of the announcement interval (30 minutes) before
  the time of an accepted proof, in the unsigned arithmetic of the code, is after the time of the
  previous one, whatever time stamps the messages carry.
\<close>

theorem accepted_proofs_spaced:
  "successively (\<lambda>t t'. t < t' - UPTIME_PROOF_FREQUENCY_IN_SECONDS div 2) (accepted_times C S key events nl)"
proof (cases "map_of (infos_of (nl_state nl)) key = None")
  case True
  then show ?thesis by (simp add: no_proof_of_unknown_node)
next
  case False
  from accepted_times_spaced [OF this, of C S events] show ?thesis by (auto simp: successively_Cons)
qed

section \<open>Proofs a node makes itself\<close>

definition sodium_key_pair :: "sodium_ops \<Rightarrow> service_node_keys \<Rightarrow> bool" where
  "sodium_key_pair S keys \<longleftrightarrow>
     (\<forall>h. crypto_sign_verify_detached S (crypto_sign_detached S h (sn_key_ed25519 keys)) h (sn_pub_ed25519 keys))"

definition version_accepted :: "u8 \<Rightarrow> u16 list \<Rightarrow> bool" where
  "version_accepted hf_version version \<longleftrightarrow>
     (\<forall>(hardfork, least) \<in> set MIN_UPTIME_PROOF_VERSIONS. hf_version \<ge> hardfork \<longrightarrow> \<not> version_less version least)"

lemma generate_validates:
  assumes "signing_key_pair C keys" and "sodium_key_pair S keys" and "sn_pub_ed25519 keys \<noteq> 0"
    and "crypto_sign_ed25519_pk_to_curve25519 S (sn_pub_ed25519 keys) = Some x" and "x \<noteq> 0"
    and "UPTIME_PROOF_BUFFER_IN_SECONDS \<le> bc_time B" and "bc_time B \<le> UINT64_MAX - UPTIME_PROOF_BUFFER_IN_SECONDS"
    and "bc_current_hard_fork_version B \<ge> HF_VERSION_ED25519_KEY"
    and "version_accepted (bc_current_hard_fork_version B) version"
    and "allow \<or> is_ip_public ip" and "q_port \<noteq> 0"
  shows "validate_uptime_proof C S B allow (generate_uptime_proof C S version B keys ip s_port lmq_port q_port) = Some x"
proof -
  have time: "\<not> bc_time B < bc_time B - UPTIME_PROOF_BUFFER_IN_SECONDS"
      "\<not> bc_time B > bc_time B + UPTIME_PROOF_BUFFER_IN_SECONDS"
    using assms(6,7) by (simp_all add: const_defs word_less_nat_alt word_le_nat_alt unat_sub_if' unat_word_ariths)
  show ?thesis
    using assms(1-5) assms(8-11)
    by (auto simp: validate_uptime_proof_def generate_uptime_proof_def Let_def time signing_key_pair_def
        sodium_key_pair_def version_accepted_def hash_uptime_proof_def)
qed

lemma handle_uptime_proof_x25519:
  assumes "accepts C S msg nl B"
    and "validate_uptime_proof C S B (nl_debug_allow_local_ips nl) msg = Some x" and "x \<noteq> 0"
  shows "get_pubkey_from_x25519 (fst (snd (snd (handle_uptime_proof C S msg flag nl B)))) x = up_pubkey msg"
  using assms
  by (auto simp: handle_uptime_proof_def accepts_def Let_def proof_at_update_proof get_pubkey_from_x25519_def
      replace_x25519_def map_of_um_assign not_le split: prod.split)

lemma handle_uptime_proof_confirmation:
  assumes "accepts C S msg nl B"
  shows "fst (snd (handle_uptime_proof C S msg flag nl B)) =
           (case nl_service_node_keys nl of None \<Rightarrow> False | Some mine \<Rightarrow> up_pubkey msg = sn_pub mine)"
proof -
  from assms obtain x info where "validate_uptime_proof C S B (nl_debug_allow_local_ips nl) msg = Some x"
      and "map_of (infos_of (nl_state nl)) (up_pubkey msg) = Some info"
      and "\<not> pi_timestamp (proof_at (nl_proofs nl) (up_pubkey msg)) \<ge> bc_time B - UPTIME_PROOF_FREQUENCY_IN_SECONDS div 2"
    by (auto simp: accepts_def not_le)
  then show ?thesis
    by (simp add: handle_uptime_proof_def Let_def proof_at_update_proof split: prod.split)
qed

text \<open>
  C23: the uptime proof a registered node makes with working keys, a current version, a public
  address and a quorumnet port is accepted by a node with the same clock and hard fork (from the
  one that requires ed25519 keys on) that has not seen a proof of it for half an hour.  It is
  recorded with the current time and the data of the message, the key derived from the ed25519 key
  then leads to the node, the data of no other node changes, and the confirmation flag tells
  whether the proof is the receiver's own.
\<close>

theorem own_uptime_proof_accepted:
  assumes "signing_key_pair C keys" and "sodium_key_pair S keys" and "sn_pub_ed25519 keys \<noteq> 0"
    and "crypto_sign_ed25519_pk_to_curve25519 S (sn_pub_ed25519 keys) = Some x" and "x \<noteq> 0"
    and "UPTIME_PROOF_BUFFER_IN_SECONDS \<le> bc_time B" and "bc_time B \<le> UINT64_MAX - UPTIME_PROOF_BUFFER_IN_SECONDS"
    and "bc_current_hard_fork_version B \<ge> HF_VERSION_ED25519_KEY"
    and "version_accepted (bc_current_hard_fork_version B) version"
    and "nl_debug_allow_local_ips nl \<or> is_ip_public ip" and "q_port \<noteq> 0"
    and "map_of (infos_of (nl_state nl)) (sn_pub keys) \<noteq> None"
    and "pi_timestamp (proof_at (nl_proofs nl) (sn_pub keys)) < bc_time B - UPTIME_PROOF_FREQUENCY_IN_SECONDS div 2"
  shows "\<exists>nl' B'.
         handle_uptime_proof C S (generate_uptime_proof C S version B keys ip s_port lmq_port q_port) flag nl B =
           (True, (case nl_service_node_keys nl of None \<Rightarrow> False | Some mine \<Rightarrow> sn_pub keys = sn_pub mine), nl', B') \<and>
         pi_timestamp (proof_at (nl_proofs nl') (sn_pub keys)) = bc_time B \<and>
         pi_public_ip (proof_at (nl_proofs nl') (sn_pub keys)) = ip \<and>
         pi_quorumnet_port (proof_at (nl_proofs nl') (sn_pub keys)) = q_port \<and>
         get_pubkey_from_x25519 nl' x = sn_pub keys \<and>
         (\<forall>key. key \<noteq> sn_pub keys \<longrightarrow> proof_at (nl_proofs nl') key = proof_at (nl_proofs nl) key)"
proof -
  define msg where "msg = generate_uptime_proof C S version B keys ip s_port lmq_port q_port"
  have valid: "validate_uptime_proof C S B (nl_debug_allow_local_ips nl) msg = Some x"
    unfolding msg_def by (rule generate_validates) (use assms in auto)
  have msg: "up_pubkey msg = sn_pub keys" "up_public_ip msg = ip" "up_qnet_port msg = q_port"
    by (simp_all add: msg_def generate_uptime_proof_def Let_def)
  have ok: "accepts C S msg nl B" using assms valid msg by (simp add: accepts_def)
  obtain accepted conf nl' B' where run: "handle_uptime_proof C S msg flag nl B = (accepted, conf, nl', B')"
    by (cases "handle_uptime_proof C S msg flag nl B") auto
  have accepted: accepted using ok handle_uptime_proof_accepts [of C S msg flag nl B] run by simp
  have conf: "conf = (case nl_service_node_keys nl of None \<Rightarrow> False | Some mine \<Rightarrow> sn_pub keys = sn_pub mine)"
    using handle_uptime_proof_confirmation [OF ok, of flag] run by (simp add: msg split: option.split)
  have info: "proof_at (nl_proofs nl') key = (if key = sn_pub keys
      then accepted_info msg (bc_time B) x (proof_at (nl_proofs nl) key) else proof_at (nl_proofs nl) key)" for key
    using handle_uptime_proof_info [of C S msg flag nl B key] run ok valid msg by simp
  have "get_pubkey_from_x25519 nl' x = sn_pub keys"
    using handle_uptime_proof_x25519 [OF ok valid \<open>x \<noteq> 0\<close>, of flag] run msg by simp
  with run accepted conf info msg show ?thesis
    unfolding msg_def [symmetric] by (simp add: accepted_info_def proof_info_update_def Let_def)
qed

section \<open>Proofs across a restart\<close>

lemma proof_restored:
  assumes "length (pi_version p) = 3" and "pi_pubkey_ed25519 p \<noteq> 0"
    and "crypto_sign_ed25519_pk_to_curve25519 S (pi_pubkey_ed25519 p) = Some x"
  shows "proof_of_serialized S (serialize_proof p) =
    default_proof\<lparr>pi_timestamp := pi_timestamp p, pi_effective_timestamp := pi_timestamp p,
      pi_public_ip := pi_public_ip p, pi_storage_port := pi_storage_port p,
      pi_storage_lmq_port := pi_storage_lmq_port p, pi_quorumnet_port := pi_quorumnet_port p,
      pi_version := pi_version p, pi_pubkey_ed25519 := pi_pubkey_ed25519 p, pi_pubkey_x25519 := x\<rparr>"
proof -
  obtain a b c where "pi_version p = [a, b, c]"
    using assms(1) by (auto simp: length_Suc_conv numeral_3_eq_3)
  then show ?thesis
    using assms(2,3)
    by (auto simp: proof_of_serialized_def serialize_proof_def update_from_serialized_def update_pubkey_def
        default_proof_def Let_def word_gt_0)
qed

lemma validate_derives:
  assumes "validate_uptime_proof C S B allow msg = Some x"
    and "bc_current_hard_fork_version B \<ge> HF_VERSION_ED25519_KEY"
  shows "up_pubkey_ed25519 msg \<noteq> 0 \<and> x \<noteq> 0 \<and> crypto_sign_ed25519_pk_to_curve25519 S (up_pubkey_ed25519 msg) = Some x"
  using assms by (auto simp: validate_uptime_proof_def Let_def split: if_splits option.splits)

lemma handle_uptime_proof_stores:
  assumes "accepts C S msg nl B" and "validate_uptime_proof C S B (nl_debug_allow_local_ips nl) msg = Some x"
    and "UPTIME_PROOF_FREQUENCY_IN_SECONDS div 2 \<le> bc_time B"
  shows "snd (snd (snd (handle_uptime_proof C S msg flag nl B))) =
    set_service_node_proof S (up_pubkey msg)
      (accepted_info msg (bc_time B) x (proof_at (nl_proofs nl) (up_pubkey msg))) B"
proof -
  have "\<not> bc_time B < bc_time B - UPTIME_PROOF_FREQUENCY_IN_SECONDS div 2"
    using assms(3) by (simp add: not_less word_sub_le)
  then have "pi_timestamp (proof_at (nl_proofs nl) (up_pubkey msg)) \<noteq> bc_time B"
    using assms(1) by (auto simp: accepts_def)
  with assms(1,2) show ?thesis
    by (auto simp: handle_uptime_proof_def accepts_def accepted_info_def proof_info_update_def Let_def
        proof_at_update_proof not_le)
qed

text \<open>
  C24: from the hard fork that requires ed25519 keys on, an accepted uptime proof survives a
  restart: the database then holds it, and a list that loads its proofs from there has for the
  node the same time stamps, address, ports, version and keys, the derived x25519 key included,
  unless the node is the one that restarts.
\<close>

theorem accepted_proof_survives_restart:
  assumes "handle_uptime_proof C S msg flag nl B = (True, conf, nl', B')"
    and "bc_current_hard_fork_version B \<ge> HF_VERSION_ED25519_KEY"
    and "UPTIME_PROOF_FREQUENCY_IN_SECONDS div 2 \<le> bc_time B" and "length (up_snode_version msg) = 3"
    and "\<forall>mine. nl_service_node_keys restarted = Some mine \<longrightarrow> sn_pub mine \<noteq> up_pubkey msg"
    and "q = proof_at (nl_proofs nl') (up_pubkey msg)"
    and "p = proof_at (nl_proofs (load_proofs B' restarted)) (up_pubkey msg)"
  shows "pi_timestamp p = pi_timestamp q \<and> pi_effective_timestamp p = pi_effective_timestamp q \<and>
         pi_public_ip p = pi_public_ip q \<and> pi_storage_port p = pi_storage_port q \<and>
         pi_storage_lmq_port p = pi_storage_lmq_port q \<and> pi_quorumnet_port p = pi_quorumnet_port q \<and>
         pi_version p = pi_version q \<and> pi_pubkey_ed25519 p = pi_pubkey_ed25519 q \<and>
         pi_pubkey_x25519 p = pi_pubkey_x25519 q"
proof -
  have ok: "accepts C S msg nl B" using handle_uptime_proof_accepts [of C S msg flag nl B] assms(1) by simp
  then obtain x where x: "validate_uptime_proof C S B (nl_debug_allow_local_ips nl) msg = Some x"
    by (auto simp: accepts_def)
  note derived = validate_derives [OF x assms(2)]
  let ?i = "accepted_info msg (bc_time B) x (proof_at (nl_proofs nl) (up_pubkey msg))"
  have q: "q = ?i"
    using handle_uptime_proof_info [of C S msg flag nl B "up_pubkey msg"] assms(1,6) ok x by simp
  have B': "B' = set_service_node_proof S (up_pubkey msg) ?i B"
    using handle_uptime_proof_stores [OF ok x assms(3), of flag] assms(1) by simp
  have "p = proof_of_serialized S (serialize_proof ?i)"
    using assms(5) unfolding assms(7) B'
    by (auto simp: load_proofs_def set_service_node_proof_def proof_at_update_proof proof_at_assign split: option.split)
  also have "\<dots> = default_proof\<lparr>pi_timestamp := pi_timestamp ?i, pi_effective_timestamp := pi_timestamp ?i,
      pi_public_ip := pi_public_ip ?i, pi_storage_port := pi_storage_port ?i,
      pi_storage_lmq_port := pi_storage_lmq_port ?i, pi_quorumnet_port := pi_quorumnet_port ?i,
      pi_version := pi_version ?i, pi_pubkey_ed25519 := pi_pubkey_ed25519 ?i, pi_pubkey_x25519 := x\<rparr>"
    by (rule proof_restored) (use derived assms(4) in \<open>simp_all add: accepted_info_def proof_info_update_def Let_def\<close>)
  finally show ?thesis unfolding q by (simp add: accepted_info_def proof_info_update_def Let_def)
qed

section \<open>Public addresses\<close>

text \<open>The address with the four numbers of its dotted notation.\<close>

definition dotted :: "u8 \<Rightarrow> u8 \<Rightarrow> u8 \<Rightarrow> u8 \<Rightarrow> u32" where
  "dotted a b c d = ucast a OR push_bit 8 (ucast b) OR push_bit 16 (ucast c) OR push_bit 24 (ucast d)"

lemma bit_dotted:
  "bit (dotted a b c d) n \<longleftrightarrow>
     (if n < 8 then bit a n else if n < 16 then bit b (n - 8) else if n < 24 then bit c (n - 16)
      else n < 32 \<and> bit d (n - 24))"
  using bit_imp_le_length [of a n] bit_imp_le_length [of b "n - 8"] bit_imp_le_length [of c "n - 16"]
    bit_imp_le_length [of d "n - 24"]
  by (auto simp: dotted_def bit_or_iff bit_push_bit_iff bit_unsigned_iff)

lemma dotted_inject:
  "dotted a b c d = dotted a' b' c' d' \<longleftrightarrow> a = a' \<and> b = b' \<and> c = c' \<and> d = d'"
proof
  assume eq: "dotted a b c d = dotted a' b' c' d'"
  have "bit a n = bit a' n" "bit b n = bit b' n" "bit c n = bit c' n" "bit d n = bit d' n" if "n < 8" for n
    using that bit_dotted [of a b c d n] bit_dotted [of a b c d "n + 8"] bit_dotted [of a b c d "n + 16"]
      bit_dotted [of a b c d "n + 24"] bit_dotted [of a' b' c' d' n] bit_dotted [of a' b' c' d' "n + 8"]
      bit_dotted [of a' b' c' d' "n + 16"] bit_dotted [of a' b' c' d' "n + 24"] unfolding eq by auto
  then show "a = a' \<and> b = b' \<and> c = c' \<and> d = d'" by (auto intro!: bit_word_eqI)
qed simp

lemma dotted_and: "dotted a b c d AND dotted a' b' c' d' = dotted (a AND a') (b AND b') (c AND c') (d AND d')"
  by (rule bit_word_eqI) (simp add: bit_and_iff bit_dotted)

lemma byte_masks:
  "(0xff :: u32) = dotted 0xff 0 0 0" "(0xf0ff :: u32) = dotted 0xff 0xf0 0 0" "(0xffff :: u32) = dotted 0xff 0xff 0 0"
  "(0xc0ff :: u32) = dotted 0xff 0xc0 0 0" "(0xe0 :: u32) = dotted 0xe0 0 0 0" "(0x0a :: u32) = dotted 10 0 0 0"
  "(0x10ac :: u32) = dotted 172 16 0 0" "(0xa8c0 :: u32) = dotted 192 168 0 0" "(0x4064 :: u32) = dotted 100 64 0 0"
  "(0xfea9 :: u32) = dotted 169 254 0 0" "(0x7f :: u32) = dotted 127 0 0 0" "(0 :: u32) = dotted 0 0 0 0"
  by (simp_all add: dotted_def)

lemma div_eq_iff_range: "0 < k \<Longrightarrow> u div k = j \<longleftrightarrow> j * k \<le> u \<and> u < (j + 1) * k" for u k j :: nat
  using less_eq_div_iff_mult_less_eq [of k j u] div_less_iff_less_mult [of k u "j + 1"] by linarith

lemma unat_high_bits: "unat ((x :: u8) AND NOT (mask n)) = unat x div 2 ^ n * 2 ^ n"
proof -
  have eq: "x AND NOT (mask n) = push_bit n (drop_bit n x)"
    by (rule bit_word_eqI) (auto simp: bit_and_iff bit_not_iff bit_mask_iff bit_push_bit_iff bit_drop_bit_eq)
  have small: "unat x < 256" using unsigned_less [of x, where 'a = nat] by simp
  then have "unat x div 2 ^ n * 2 ^ n < 256" by (rule le_less_trans [OF div_times_less_eq_dividend])
  with small show ?thesis
    unfolding eq unsigned_push_bit_eq unsigned_drop_bit_eq
    by (simp add: take_bit_eq_mod push_bit_eq_mult drop_bit_eq_div)
qed

lemma byte_high_bits:
  fixes x :: u8
  shows "x AND 0xff = x" and "x AND 0xf0 = 16 \<longleftrightarrow> 16 \<le> x \<and> x < 32" and "x AND 0xc0 = 64 \<longleftrightarrow> 64 \<le> x \<and> x < 128"
    and "x AND 0xe0 = 224 \<longleftrightarrow> 224 \<le> x"
proof -
  have masks: "(0xff :: u8) = - 1" "(0xf0 :: u8) = NOT (mask 4)" "(0xc0 :: u8) = NOT (mask 6)"
    by (simp_all add: mask_eq_exp_minus_1)
  note nat_forms = word_unat_eq_iff word_le_nat_alt word_less_nat_alt
  show "x AND 0xff = x" unfolding masks by simp
  show "x AND 0xf0 = 16 \<longleftrightarrow> 16 \<le> x \<and> x < 32"
    unfolding masks using unat_high_bits [of x 4] div_eq_iff_range [of 16 "unat x" 1] by (simp add: nat_forms)
  show "x AND 0xc0 = 64 \<longleftrightarrow> 64 \<le> x \<and> x < 128"
    unfolding masks using unat_high_bits [of x 6] div_eq_iff_range [of 64 "unat x" 1] by (simp add: nat_forms)
  have "(0xe0 :: u8) = NOT (mask 5)" by (simp add: mask_eq_exp_minus_1)
  with unat_high_bits [of x 5] have "unat (x AND 0xe0) = unat x div 32 * 32" by simp
  moreover have "unat x < 256" using unsigned_less [of x, where 'a = nat] by simp
  ultimately show "x AND 0xe0 = 224 \<longleftrightarrow> 224 \<le> x"
    using div_eq_iff_range [of 32 "unat x" 7] by (simp add: nat_forms)
qed

text \<open>
  the address test on the byte-swapped word is the one on the dotted notation: an address is
  public unless it is in 0/8, 10/8, 100.64/10, 127/8, 169.254/16, 172.16/12, 192.168/16 or from
  224.0.0.0 on.
\<close>

theorem is_ip_public_dotted:
  "is_ip_public (dotted a b c d) \<longleftrightarrow>
     a \<noteq> 0 \<and> a \<noteq> 10 \<and> a \<noteq> 127 \<and> a < 224 \<and> \<not> (a = 100 \<and> 64 \<le> b \<and> b < 128) \<and>
     \<not> (a = 169 \<and> b = 254) \<and> \<not> (a = 172 \<and> 16 \<le> b \<and> b < 32) \<and> \<not> (a = 192 \<and> b = 168)"
  unfolding is_ip_public_def is_ip_local_def is_ip_loopback_def byte_masks dotted_and dotted_inject
  by (auto simp: byte_high_bits not_less)

section \<open>Witnesses\<close>

definition proof_sodium :: sodium_ops where
  "proof_sodium = \<lparr>crypto_sign_detached = \<lambda>h k. ucast h + k, crypto_sign_verify_detached = \<lambda>s h k. s = ucast h + ucast k,
     crypto_sign_ed25519_pk_to_curve25519 = \<lambda>k. Some (k + 1)\<rparr>"

definition proof_keys :: service_node_keys where
  "proof_keys = \<lparr>sn_key = 5, sn_pub = 13, sn_key_ed25519 = 21, sn_pub_ed25519 = 21\<rparr>"

definition proof_chain :: blockchain_info where
  "proof_chain = \<lparr>bc_has_db = True, bc_current_hard_fork_version = 16, bc_current_blockchain_height = 1000,
     bc_hardfork_9_from_height = 50, bc_hard_fork_version = \<lambda>_. 16, bc_block_id_by_height = ucast,
     bc_service_node_proofs = [], bc_time = 5000\<rparr>"

definition proof_list :: service_node_list where
  "proof_list = \<lparr>nl_state = initial_state\<lparr>st_service_nodes_infos := [(13, default_info)]\<rparr>,
     nl_service_node_keys = None, nl_store_quorum_history = 0, nl_rescanning = False, nl_debug_allow_local_ips = False,
     nl_x25519_to_pub = [], nl_x25519_map_last_pruned = 0, nl_proofs = [], nl_old_quorum_states = [],
     nl_state_history = [], nl_state_archive = [], nl_alt_state = [], nl_state_added_to_archive = False,
     nl_db_long_term = None, nl_db_short_term = None\<rparr>"

lemmas proof_example_defs = proof_sodium_def proof_keys_def proof_chain_def proof_list_def initial_state_def
  proof_at_def default_proof_def

definition proof_message :: uptime_proof where
  "proof_message = generate_uptime_proof example_crypto proof_sodium [7, 2, 0] proof_chain proof_keys
     (dotted 8 8 4 4) 22020 22021 22025"

lemma proof_example_valid:
  "signing_key_pair example_crypto proof_keys" "sodium_key_pair proof_sodium proof_keys"
  "version_accepted (bc_current_hard_fork_version proof_chain) [7, 2, 0]" "is_ip_public (dotted 8 8 4 4)"
proof -
  show "signing_key_pair example_crypto proof_keys"
    by (simp add: signing_key_pair_def example_crypto_def)
  show "sodium_key_pair proof_sodium proof_keys"
    by (simp add: sodium_key_pair_def proof_sodium_def proof_keys_def)
  show "version_accepted (bc_current_hard_fork_version proof_chain) [7, 2, 0]"
    by (simp add: version_accepted_def proof_chain_def const_defs)
  show "is_ip_public (dotted 8 8 4 4)"
    by (simp add: is_ip_public_def is_ip_local_def is_ip_loopback_def dotted_def)
qed

theorem vote_ring_refines_queue_witness:
  "map cvr_height (recent_votes (proof_at (nl_proofs
      (record_votes [(13, 100, True), (14, 100, True), (13, 104, False)] proof_list)) 13)) =
     [INVALID_HEIGHT, INVALID_HEIGHT, INVALID_HEIGHT, INVALID_HEIGHT, INVALID_HEIGHT, INVALID_HEIGHT, 100, 104]"
proof -
  have "map_of (infos_of (nl_state proof_list)) 13 \<noteq> None" by (simp add: proof_example_defs)
  moreover have start: "proof_at (nl_proofs proof_list) 13 = default_proof" by (simp add: proof_list_def proof_at_def)
  then have "proof_ok (proof_at (nl_proofs proof_list) 13)" by (simp add: default_proof_ok)
  ultimately show ?thesis
    using vote_ring_refines_queue [of proof_list 13 "[(13, 100, True), (14, 100, True), (13, 104, False)]"]
    by (simp add: start votes_of_def recent_votes_def default_proof_def empty_votes_def default_vote_record_def
        numeral_eq_Suc CHECKPOINT_NUM_QUORUMS_TO_PARTICIPATE_IN_def)
qed

theorem own_uptime_proof_accepted_witness:
  "\<exists>nl' B'. handle_uptime_proof example_crypto proof_sodium proof_message False proof_list proof_chain = (True, False, nl', B') \<and>
     pi_timestamp (proof_at (nl_proofs nl') 13) = 5000 \<and> get_pubkey_from_x25519 nl' 22 = 13"
proof -
  have "13 = sn_pub proof_keys" "bc_time proof_chain = 5000" "nl_service_node_keys proof_list = None"
    by (simp_all add: proof_example_defs)
  moreover have "\<exists>nl' B'. handle_uptime_proof example_crypto proof_sodium
        (generate_uptime_proof example_crypto proof_sodium [7, 2, 0] proof_chain proof_keys (dotted 8 8 4 4) 22020 22021 22025)
        False proof_list proof_chain =
      (True, (case nl_service_node_keys proof_list of None \<Rightarrow> False | Some mine \<Rightarrow> sn_pub proof_keys = sn_pub mine), nl', B') \<and>
      pi_timestamp (proof_at (nl_proofs nl') (sn_pub proof_keys)) = bc_time proof_chain \<and>
      pi_public_ip (proof_at (nl_proofs nl') (sn_pub proof_keys)) = dotted 8 8 4 4 \<and>
      pi_quorumnet_port (proof_at (nl_proofs nl') (sn_pub proof_keys)) = 22025 \<and>
      get_pubkey_from_x25519 nl' 22 = sn_pub proof_keys \<and>
      (\<forall>key. key \<noteq> sn_pub proof_keys \<longrightarrow> proof_at (nl_proofs nl') key = proof_at (nl_proofs proof_list) key)"
    by (rule own_uptime_proof_accepted)
      (use proof_example_valid in \<open>simp_all add: proof_example_defs const_defs\<close>)
  ultimately show ?thesis by (auto simp: proof_message_def)
qed

theorem accepted_proof_survives_restart_witness:
  "\<exists>conf nl' B'. handle_uptime_proof example_crypto proof_sodium proof_message False proof_list proof_chain =
       (True, conf, nl', B') \<and>
     pi_pubkey_x25519 (proof_at (nl_proofs (load_proofs B' proof_list)) 13) = pi_pubkey_x25519 (proof_at (nl_proofs nl') 13)"
proof -
  have valid: "validate_uptime_proof example_crypto proof_sodium proof_chain False proof_message = Some 22"
    unfolding proof_message_def
    by (rule generate_validates) (use proof_example_valid in \<open>simp_all add: proof_example_defs const_defs\<close>)
  have msg: "up_pubkey proof_message = 13" "up_snode_version proof_message = [7, 2, 0]"
    by (simp_all add: proof_message_def generate_uptime_proof_def Let_def proof_keys_def)
  have "accepts example_crypto proof_sodium proof_message proof_list proof_chain"
    unfolding accepts_def using valid by (simp add: msg) (simp add: proof_example_defs const_defs)
  then obtain conf nl' B' where run:
      "handle_uptime_proof example_crypto proof_sodium proof_message False proof_list proof_chain = (True, conf, nl', B')"
    using handle_uptime_proof_accepts [of example_crypto proof_sodium proof_message False proof_list proof_chain]
    by (cases "handle_uptime_proof example_crypto proof_sodium proof_message False proof_list proof_chain") auto
  have "bc_current_hard_fork_version proof_chain \<ge> HF_VERSION_ED25519_KEY"
    and "UPTIME_PROOF_FREQUENCY_IN_SECONDS div 2 \<le> bc_time proof_chain"
    by (simp_all add: proof_chain_def const_defs)
  moreover have "length (up_snode_version proof_message) = 3" by (simp add: msg)
  moreover have "\<forall>mine. nl_service_node_keys proof_list = Some mine \<longrightarrow> sn_pub mine \<noteq> up_pubkey proof_message"
    by (simp add: proof_list_def)
  ultimately have "pi_pubkey_x25519 (proof_at (nl_proofs (load_proofs B' proof_list)) (up_pubkey proof_message)) =
      pi_pubkey_x25519 (proof_at (nl_proofs nl') (up_pubkey proof_message))"
    by (intro accepted_proof_survives_restart [OF run _ _ _ _ refl refl, THEN conjunct2, THEN conjunct2, THEN conjunct2,
          THEN conjunct2, THEN conjunct2, THEN conjunct2, THEN conjunct2, THEN conjunct2])
  with run show ?thesis unfolding msg by blast
qed

end
