(* ===== verification/Checkpoints.thy ===== *)
theory Checkpoints
  imports Chain_Types Ordered_Map Outcome
begin

text \<open>
  Checkpoints (\<^verbatim>\<open>src/src/checkpoints/checkpoints.cpp\<close>) and their table in the database
  (\<^verbatim>\<open>src/src/blockchain_db\<close>: \<^verbatim>\<open>lmdb/db_lmdb.cpp\<close> from line 4163, \<^verbatim>\<open>blockchain_db.cpp\<close> from line 409).

  The LMDB table with integer keys is an ordered map from heights to stored checkpoints: a cursor
  set to a key finds its entry, the first and last entries are those of the lowest and highest key,
  and the next and previous entries are the neighbours in the order of the keys.  Failures of the
  database itself are not modelled.  A checkpoint with more signatures than the buffer holds is
  written from beyond the buffer; this is the error \<open>buffer_overread\<close>.
\<close>

unbundle bit_operations_syntax

section \<open>Hexadecimal strings\<close>

definition isx :: "char \<Rightarrow> u8" where
  "isx c =
     (let n = of_char c :: nat
      in if 48 \<le> n \<and> n \<le> 57 then of_nat (n - 48)
         else if 65 \<le> n \<and> n \<le> 70 then of_nat (n - 55)
         else if 97 \<le> n \<and> n \<le> 102 then of_nat (n - 87)
         else 0xff)"

fun parse_hexstr_to_binbuff :: "string \<Rightarrow> u8 list option" where
  "parse_hexstr_to_binbuff [] = Some []"
| "parse_hexstr_to_binbuff [c] = None"
| "parse_hexstr_to_binbuff (c # d # s) =
     (let tmp = isx c; t2 = isx d
      in if tmp = 0xff then None
         else if t2 = 0xff then None
         else map_option (Cons (push_bit 4 tmp OR t2)) (parse_hexstr_to_binbuff s))"

definition hex_to_hash :: "string \<Rightarrow> hash256 option" where
  "hex_to_hash hex_str =
     (if 2 * 32 \<noteq> length hex_str then None else map_option of_be_bytes (parse_hexstr_to_binbuff hex_str))"

section \<open>The table of checkpoints\<close>

datatype checkpoint_error = buffer_overread

record checkpoint_buffer =
  cb_height :: u64
  cb_block_hash :: hash256
  cb_num_signatures :: u64
  cb_signatures :: "voter_to_signature list"

type_synonym checkpoint_table = "(u64 \<times> checkpoint_buffer) list"

text \<open>The header takes 48 bytes, a signature 72 bytes; the buffer has room for a full quorum.\<close>

definition convert_checkpoint_into_buffer :: "checkpoint_t \<Rightarrow> checkpoint_buffer option" where
  "convert_checkpoint_into_buffer checkpoint =
     (let bytes_for_signatures = 72 * length (cp_signatures checkpoint);
          len = 48 + bytes_for_signatures
      in if len > 48 + 72 * CHECKPOINT_QUORUM_SIZE then None
         else Some \<lparr>cb_height = cp_height checkpoint, cb_block_hash = cp_block_hash checkpoint,
                cb_num_signatures = of_nat (length (cp_signatures checkpoint)),
                cb_signatures = cp_signatures checkpoint\<rparr>)"

definition update_block_checkpoint ::
    "checkpoint_t \<Rightarrow> checkpoint_table \<Rightarrow> (checkpoint_error, checkpoint_table) outcome" where
  "update_block_checkpoint checkpoint db =
     (case convert_checkpoint_into_buffer checkpoint of
        None \<Rightarrow> throw buffer_overread
      | Some buffer \<Rightarrow> ret (om_assign_key (cp_height checkpoint) buffer db))"

definition remove_block_checkpoint :: "u64 \<Rightarrow> checkpoint_table \<Rightarrow> checkpoint_table" where
  "remove_block_checkpoint height db = erase_key height db"

definition convert_mdb_val_to_checkpoint :: "checkpoint_buffer \<Rightarrow> checkpoint_t" where
  "convert_mdb_val_to_checkpoint buffer =
     (let num_sigs = cb_num_signatures buffer
      in \<lparr>cp_version = 0, cp_type = (if num_sigs > 0 then service_node else hardcoded),
          cp_height = cb_height buffer, cp_block_hash = cb_block_hash buffer,
          cp_signatures = take (unat num_sigs) (cb_signatures buffer), cp_prev_height = 0\<rparr>)"

definition get_block_checkpoint :: "checkpoint_table \<Rightarrow> u64 \<Rightarrow> checkpoint_t option" where
  "get_block_checkpoint db height = map_option convert_mdb_val_to_checkpoint (map_of db height)"

definition get_top_checkpoint :: "checkpoint_table \<Rightarrow> checkpoint_t option" where
  "get_top_checkpoint db = (if db = [] then None else Some (convert_mdb_val_to_checkpoint (snd (last db))))"

definition get_bottom_checkpoint :: "checkpoint_table \<Rightarrow> checkpoint_t option" where
  "get_bottom_checkpoint db = (if db = [] then None else Some (convert_mdb_val_to_checkpoint (snd (hd db))))"

definition clamp_u64 :: "u64 \<Rightarrow> u64 \<Rightarrow> u64 \<Rightarrow> u64" where
  "clamp_u64 val least most = (if val < least then least else if val > most then most else val)"

lemma unat_step_down: "x \<noteq> 0 \<Longrightarrow> unat (x - 1 :: u64) < unat x"
  by (metis diff_less unat_minus_one unat_gt_0 word_gt_0 zero_less_one)

text \<open>The heights from \<open>height\<close> up or down to, and without, \<open>last_height\<close>.\<close>

function find_checkpoint :: "checkpoint_table \<Rightarrow> bool \<Rightarrow> u64 \<Rightarrow> u64 \<Rightarrow> checkpoint_t option" where
  "find_checkpoint db up height last_height =
     (if height = last_height then None
      else
        case get_block_checkpoint db height of
          Some checkpoint \<Rightarrow> Some checkpoint
        | None \<Rightarrow> find_checkpoint db up (if up then height + 1 else height - 1) last_height)"
  by pat_completeness auto

termination
proof (relation "measure (\<lambda>(db, up, height, last_height).
    if up then unat (last_height - height) else unat (height - last_height))", simp)
  fix db :: checkpoint_table and up and height last_height :: u64
  assume "height \<noteq> last_height"
  then have "last_height - height \<noteq> 0" "height - last_height \<noteq> 0" by simp_all
  from this [THEN unat_step_down]
  show "((db, up, if up then height + 1 else height - 1, last_height), db, up, height, last_height)
    \<in> measure (\<lambda>(db, up, height, last_height).
      if up then unat (last_height - height) else unat (height - last_height))"
    by (simp add: algebra_simps)
qed

declare find_checkpoint.simps [simp del]

definition GET_ALL_CHECKPOINTS :: nat where [const_defs]: "GET_ALL_CHECKPOINTS = 0"

text \<open>The entries the cursor visits, as long as checkpoints are wanted.\<close>

fun collect_checkpoints ::
    "u64 \<Rightarrow> u64 \<Rightarrow> nat \<Rightarrow> checkpoint_table \<Rightarrow> checkpoint_t list \<Rightarrow> checkpoint_t list" where
  "collect_checkpoints least most num_desired [] result = result"
| "collect_checkpoints least most num_desired ((key, buffer) # entries) result =
     (if length result < num_desired then
        collect_checkpoints least most num_desired entries
          (if least \<le> cb_height buffer \<and> cb_height buffer \<le> most
           then result @ [convert_mdb_val_to_checkpoint buffer] else result)
      else result)"

definition get_checkpoints_range :: "checkpoint_table \<Rightarrow> u64 \<Rightarrow> u64 \<Rightarrow> nat \<Rightarrow> checkpoint_t list" where
  "get_checkpoints_range db start last_height num_desired =
     (case (get_top_checkpoint db, get_bottom_checkpoint db) of
        (Some highest, Some lowest) \<Rightarrow>
          let start = clamp_u64 start (cp_height lowest) (cp_height highest);
              last_height = clamp_u64 last_height (cp_height lowest) (cp_height highest)
          in if start > last_height \<and> start < cp_height lowest then []
             else if \<not> start > last_height \<and> start > cp_height highest then []
             else
               let num_desired = (if num_desired = GET_ALL_CHECKPOINTS then 2 ^ 64 - 1 else num_desired);
                   up = (last_height \<ge> start);
                   found = (case find_checkpoint db up start last_height of
                              Some checkpoint \<Rightarrow> Some checkpoint
                            | None \<Rightarrow> get_block_checkpoint db last_height)
               in (case found of
                     None \<Rightarrow> []
                   | Some first \<Rightarrow>
                       let least = min start last_height; most = max start last_height;
                           entries = (if up then filter (\<lambda>e. fst e > cp_height first) db
                                      else rev (filter (\<lambda>e. fst e < cp_height first) db))
                       in collect_checkpoints least most num_desired entries [first])
      | _ \<Rightarrow> [])"

definition get_immutable_checkpoint :: "checkpoint_table \<Rightarrow> u64 \<Rightarrow> checkpoint_t option" where
  "get_immutable_checkpoint db block_height =
     (let cps = get_checkpoints_range db block_height 0 (unat CHECKPOINT_NUM_CHECKPOINTS_FOR_CHAIN_FINALITY)
      in if cps = [] then None
         else if cp_type (cps ! 0) \<noteq> service_node then Some (cps ! 0)
         else if length cps = unat CHECKPOINT_NUM_CHECKPOINTS_FOR_CHAIN_FINALITY then Some (cps ! 1)
         else None)"

section \<open>The checkpoints of a node\<close>

record checkpoints =
  ck_nettype :: network_type
  ck_last_cull_height :: u64
  ck_immutable_height :: u64
  ck_db :: checkpoint_table

definition checkpoint_check :: "checkpoint_t \<Rightarrow> hash256 \<Rightarrow> bool" where
  "checkpoint_check checkpoint h \<longleftrightarrow> cp_block_hash checkpoint = h"

definition HARDCODED_MAINNET_CHECKPOINTS :: "(u64 \<times> string) list" where
  "HARDCODED_MAINNET_CHECKPOINTS =
     [(0, ''8cc33ab439f5fec5a384321b872c25686d2ab9d688e715ee3087b20094fccd47''),
      (121, ''443511445c6f5608401a03695e3622d27e16b304181723145fe67692991c449b''),
      (122, ''1e18dd27edb860c2513b85cf823203d85c646dbeb0f5fe6aa5ae6f6c26c61d44'')]"

definition get_newest_hardcoded_checkpoint :: "network_type \<Rightarrow> hash256 \<times> u64" where
  "get_newest_hardcoded_checkpoint nettype =
     (if nettype \<noteq> MAINNET \<and> nettype \<noteq> TESTNET then (null_hash, 0)
      else if nettype = MAINNET then
        let (height, hash) = last HARDCODED_MAINNET_CHECKPOINTS
        in case hex_to_hash hash of None \<Rightarrow> (null_hash, 0) | Some h \<Rightarrow> (h, height)
      else (null_hash, 0))"

definition get_checkpoint :: "checkpoints \<Rightarrow> u64 \<Rightarrow> checkpoint_t option" where
  "get_checkpoint ck height = get_block_checkpoint (ck_db ck) height"

definition update_checkpoint :: "checkpoint_t \<Rightarrow> checkpoints \<Rightarrow> (checkpoint_error, bool \<times> checkpoints) outcome" where
  "update_checkpoint checkpoint ck =
     rbind (update_block_checkpoint checkpoint (ck_db ck)) (\<lambda>db. ret (True, ck\<lparr>ck_db := db\<rparr>))"

definition add_checkpoint :: "u64 \<Rightarrow> string \<Rightarrow> checkpoints \<Rightarrow> (checkpoint_error, bool \<times> checkpoints) outcome" where
  "add_checkpoint height hash_str ck =
     (case hex_to_hash hash_str of
        None \<Rightarrow> ret (False, ck)
      | Some h \<Rightarrow>
          (case get_checkpoint ck height of
             Some checkpoint \<Rightarrow> ret (h = cp_block_hash checkpoint, ck)
           | None \<Rightarrow>
               update_checkpoint \<lparr>cp_version = 0, cp_type = hardcoded, cp_height = height, cp_block_hash = h,
                 cp_signatures = [], cp_prev_height = 0\<rparr> ck))"

text \<open>The heights from the last culled one up to the immutable checkpoint.\<close>

partial_function (option) cull_checkpoints ::
    "u64 \<Rightarrow> u64 \<Rightarrow> checkpoint_table \<Rightarrow> (u64 \<times> checkpoint_table) option" where
  "cull_checkpoints last_cull_height end_cull_height db =
     (if last_cull_height < end_cull_height then
        cull_checkpoints (last_cull_height + CHECKPOINT_INTERVAL) end_cull_height
          (if last_cull_height mod CHECKPOINT_STORE_PERSISTENTLY_INTERVAL = 0 then db
           else remove_block_checkpoint last_cull_height db)
      else Some (last_cull_height, db))"

definition start_cull_height :: "u64 \<Rightarrow> u64" where
  "start_cull_height end_cull_height =
     (let start = (if end_cull_height < CHECKPOINT_STORE_PERSISTENTLY_INTERVAL then 0
                   else end_cull_height - CHECKPOINT_STORE_PERSISTENTLY_INTERVAL)
      in if start mod CHECKPOINT_INTERVAL > 0
         then start + (CHECKPOINT_INTERVAL - start mod CHECKPOINT_INTERVAL) else start)"

definition checkpoints_block_added ::
    "block \<Rightarrow> checkpoint_t option \<Rightarrow> checkpoints \<Rightarrow> (checkpoint_error, bool \<times> checkpoints) outcome" where
  "checkpoints_block_added blk checkpoint ck =
     (let height = get_block_height blk
      in if height < CHECKPOINT_STORE_PERSISTENTLY_INTERVAL \<or> blk_major_version blk < network_version_12_checkpointing
         then ret (True, ck)
         else
           let end_cull_height = (case get_immutable_checkpoint (ck_db ck) (height + 1) of
                                    None \<Rightarrow> 0
                                  | Some immutable \<Rightarrow> cp_height immutable)
           in rbind (lift_opt (cull_checkpoints (max (ck_last_cull_height ck) (start_cull_height end_cull_height))
                                 end_cull_height (ck_db ck))) (\<lambda>(culled, db).
                let ck = ck\<lparr>ck_last_cull_height := culled, ck_db := db\<rparr>
                in case checkpoint of
                     None \<Rightarrow> ret (True, ck)
                   | Some c \<Rightarrow> rbind (update_checkpoint c ck) (\<lambda>(r, ck). ret (True, ck))))"

function remove_checkpoints_down :: "u64 \<Rightarrow> u64 \<Rightarrow> checkpoint_table \<Rightarrow> checkpoint_table" where
  "remove_checkpoints_down height delete_height db =
     (if delete_height \<ge> height \<and> delete_height \<ge> CHECKPOINT_INTERVAL
      then remove_checkpoints_down height (delete_height - CHECKPOINT_INTERVAL) (remove_block_checkpoint delete_height db)
      else db)"
  by pat_completeness auto

termination
  by (relation "measure (\<lambda>(height, delete_height, db). unat delete_height)")
    (auto simp: const_defs word_le_nat_alt unat_sub_if')

declare remove_checkpoints_down.simps [simp del]

definition checkpoints_detached :: "u64 \<Rightarrow> checkpoints \<Rightarrow> checkpoints" where
  "checkpoints_detached height ck =
     (let ck = ck\<lparr>ck_last_cull_height := min (ck_last_cull_height ck) height\<rparr>
      in case get_top_checkpoint (ck_db ck) of
           None \<Rightarrow> ck
         | Some highest \<Rightarrow> ck\<lparr>ck_db := remove_checkpoints_down height (cp_height highest) (ck_db ck)\<rparr>)"

definition get_max_height :: "checkpoints \<Rightarrow> u64" where
  "get_max_height ck = (case get_top_checkpoint (ck_db ck) of None \<Rightarrow> 0 | Some highest \<Rightarrow> cp_height highest)"

definition is_in_checkpoint_zone :: "checkpoints \<Rightarrow> u64 \<Rightarrow> bool" where
  "is_in_checkpoint_zone ck height \<longleftrightarrow>
     height \<le> (case get_top_checkpoint (ck_db ck) of None \<Rightarrow> 0 | Some highest \<Rightarrow> cp_height highest)"

text \<open>The verdict, whether there is a checkpoint, and whether it is one of the service nodes.\<close>

definition check_block :: "checkpoints \<Rightarrow> u64 \<Rightarrow> hash256 \<Rightarrow> bool \<times> bool \<times> bool" where
  "check_block ck height h =
     (case get_checkpoint ck height of
        None \<Rightarrow> (True, False, False)
      | Some checkpoint \<Rightarrow> (checkpoint_check checkpoint h, True, cp_type checkpoint = service_node))"

definition is_alternative_block_allowed :: "u64 \<Rightarrow> u64 \<Rightarrow> checkpoints \<Rightarrow> (bool \<times> bool) \<times> checkpoints" where
  "is_alternative_block_allowed blockchain_height block_height ck =
     (if block_height = 0 then ((False, False), ck)
      else
        let first_checkpoint = get_checkpoints_range (ck_db ck) 0 blockchain_height 1
        in if first_checkpoint = [] \<or> blockchain_height < cp_height (hd first_checkpoint) then ((True, False), ck)
           else
             let immutable = get_immutable_checkpoint (ck_db ck) blockchain_height;
                 immutable_height = (case immutable of None \<Rightarrow> 0 | Some c \<Rightarrow> cp_height c);
                 service_node_checkpoint = (case immutable of None \<Rightarrow> False | Some c \<Rightarrow> cp_type c = service_node);
                 ck = ck\<lparr>ck_immutable_height := max immutable_height (ck_immutable_height ck)\<rparr>
             in ((block_height > ck_immutable_height ck, service_node_checkpoint), ck))"

fun add_hardcoded :: "(u64 \<times> string) list \<Rightarrow> checkpoints \<Rightarrow> (checkpoint_error, bool \<times> checkpoints) outcome" where
  "add_hardcoded [] ck = ret (True, ck)"
| "add_hardcoded ((height, hash) # entries) ck =
     rbind (add_checkpoint height hash ck) (\<lambda>(ok, ck). if ok then add_hardcoded entries ck else ret (False, ck))"

definition checkpoints_init ::
    "network_type \<Rightarrow> bool \<Rightarrow> checkpoint_table \<Rightarrow> (checkpoint_error, bool \<times> checkpoints) outcome" where
  "checkpoints_init nettype is_read_only db =
     (let ck = \<lparr>ck_nettype = nettype, ck_last_cull_height = 0, ck_immutable_height = 0, ck_db = db\<rparr>
      in if is_read_only then ret (True, ck)
         else if nettype = MAINNET then add_hardcoded HARDCODED_MAINNET_CHECKPOINTS ck
         else ret (True, ck))"

section \<open>The table as a list\<close>

definition buffer_ok :: "u64 \<times> checkpoint_buffer \<Rightarrow> bool" where
  "buffer_ok e \<longleftrightarrow> cb_height (snd e) = fst e \<and> length (cb_signatures (snd e)) \<le> CHECKPOINT_QUORUM_SIZE \<and>
     cb_num_signatures (snd e) = of_nat (length (cb_signatures (snd e)))"

definition table_ok :: "checkpoint_table \<Rightarrow> bool" where
  "table_ok db \<longleftrightarrow> om_wf db \<and> (\<forall>e \<in> set db. buffer_ok e)"

abbreviation checkpoint_of :: "u64 \<times> checkpoint_buffer \<Rightarrow> checkpoint_t" where
  "checkpoint_of e \<equiv> convert_mdb_val_to_checkpoint (snd e)"

lemma cp_height_checkpoint_of: "buffer_ok e \<Longrightarrow> cp_height (checkpoint_of e) = fst e"
  by (simp add: convert_mdb_val_to_checkpoint_def buffer_ok_def Let_def)

lemma sorted_table: "table_ok db \<Longrightarrow> sorted_wrt (\<lambda>e e'. fst e < fst e') db"
  by (simp add: table_ok_def om_wf_def keys_of_def sorted_wrt_map)

lemma table_get: "table_ok db \<Longrightarrow> map_of db k = Some b \<longleftrightarrow> (k, b) \<in> set db"
  by (simp add: table_ok_def om.find_some_iff)

lemma find_eq_filter: "List.find P xs = (case filter P xs of [] \<Rightarrow> None | x # _ \<Rightarrow> Some x)"
  by (induction xs) auto

lemma find_at_key_up:
  assumes "sorted_wrt (\<lambda>e e'. fst e < fst e') db" and "(k, b) \<in> set db" and "P (k, b)"
  shows "List.find (\<lambda>e. (k :: u64) \<le> fst e \<and> P e) db = Some (k, b)"
  using assms by (induction db) auto

lemma find_at_key_down:
  assumes "sorted_wrt (\<lambda>e e'. fst e > fst e') xs" and "(k, b) \<in> set xs" and "P (k, b)"
  shows "List.find (\<lambda>e. fst e \<le> (k :: u64) \<and> P e) xs = Some (k, b)"
  using assms by (induction xs) auto

lemma next_checkpoint_height:
  assumes "(h :: u64) < l"
  shows "h + 1 \<le> x \<longleftrightarrow> h < x"
proof -
  have "unat h + 1 < 2 ^ 64" using assms unat_lt64 [of l] by (simp add: word_less_nat_alt)
  then show ?thesis using unat_add_no_wrap [of h 1] by (simp add: word_le_nat_alt word_less_nat_alt Suc_le_eq)
qed

lemma previous_height:
  assumes "(l :: u64) < h"
  shows "x \<le> h - 1 \<longleftrightarrow> x < h"
proof -
  have "1 \<le> unat h" using assms by (simp add: word_less_nat_alt)
  then show ?thesis using unat_sub_no_wrap [of 1 h] by (auto simp: word_le_nat_alt word_less_nat_alt)
qed

lemma find_checkpoint_up:
  assumes "table_ok db" and "h \<le> l"
  shows "find_checkpoint db True h l = map_option checkpoint_of (List.find (\<lambda>e. h \<le> fst e \<and> fst e < l) db)"
  using assms
proof (induction db True h l rule: find_checkpoint.induct)
  case (1 db h l)
  show ?case
  proof (cases "h = l")
    case True
    then have "List.find (\<lambda>e. h \<le> fst e \<and> fst e < l) db = None" by (auto simp: find_None_iff)
    with True show ?thesis by (simp add: find_checkpoint.simps [of db True l l])
  next
    case False
    with 1 have less: "h < l" by simp
    show ?thesis
    proof (cases "map_of db h")
      case None
      then have "(\<lambda>e. h \<le> fst e \<and> fst e < l) e = (h + 1 \<le> fst e \<and> fst e < l)" if "e \<in> set db" for e
        using that next_checkpoint_height [OF less, of "fst e"] by (cases "fst e = h") (auto simp: map_of_eq_None_iff)
      then have "filter (\<lambda>e. h \<le> fst e \<and> fst e < l) db = filter (\<lambda>e. h + 1 \<le> fst e \<and> fst e < l) db"
        by (intro filter_cong) auto
      moreover have "find_checkpoint db True (h + 1) l =
          map_option checkpoint_of (List.find (\<lambda>e. h + 1 \<le> fst e \<and> fst e < l) db)"
        using 1(1) [OF False] None 1(2) next_checkpoint_height [OF less] less by (simp add: get_block_checkpoint_def)
      ultimately show ?thesis
        using None False by (simp add: find_checkpoint.simps [of db True h l] get_block_checkpoint_def find_eq_filter)
    next
      case (Some b)
      then have "(h, b) \<in> set db" using 1 by (simp add: table_get)
      with 1 less have "List.find (\<lambda>e. h \<le> fst e \<and> fst e < l) db = Some (h, b)"
        using find_at_key_up [OF sorted_table, of db h b "\<lambda>e. fst e < l"] by simp
      with Some False show ?thesis
        by (simp add: find_checkpoint.simps [of db True h l] get_block_checkpoint_def)
    qed
  qed
qed

lemma find_checkpoint_down:
  assumes "table_ok db" and "l \<le> h"
  shows "find_checkpoint db False h l = map_option checkpoint_of (List.find (\<lambda>e. fst e \<le> h \<and> l < fst e) (rev db))"
  using assms
proof (induction db False h l rule: find_checkpoint.induct)
  case (1 db h l)
  show ?case
  proof (cases "h = l")
    case True
    then have "List.find (\<lambda>e. fst e \<le> h \<and> l < fst e) (rev db) = None" by (auto simp: find_None_iff)
    with True show ?thesis by (simp add: find_checkpoint.simps [of db False l l])
  next
    case False
    with 1 have less: "l < h" by simp
    show ?thesis
    proof (cases "map_of db h")
      case None
      then have "(\<lambda>e. fst e \<le> h \<and> l < fst e) e = (fst e \<le> h - 1 \<and> l < fst e)" if "e \<in> set db" for e
        using that previous_height [OF less, of "fst e"] by (cases "fst e = h") (auto simp: map_of_eq_None_iff)
      then have "filter (\<lambda>e. fst e \<le> h \<and> l < fst e) (rev db) = filter (\<lambda>e. fst e \<le> h - 1 \<and> l < fst e) (rev db)"
        by (intro filter_cong) auto
      moreover have "find_checkpoint db False (h - 1) l =
          map_option checkpoint_of (List.find (\<lambda>e. fst e \<le> h - 1 \<and> l < fst e) (rev db))"
        using 1(1) [OF False] None 1(2) previous_height [OF less] less by (simp add: get_block_checkpoint_def)
      ultimately show ?thesis
        using None False by (simp add: find_checkpoint.simps [of db False h l] get_block_checkpoint_def find_eq_filter)
    next
      case (Some b)
      have "sorted_wrt (\<lambda>e e'. fst e > fst e') (rev db)"
        using sorted_table [OF 1(2)] by (simp add: sorted_wrt_rev)
      moreover have "(h, b) \<in> set db" using 1 Some by (simp add: table_get)
      ultimately have "List.find (\<lambda>e. fst e \<le> h \<and> l < fst e) (rev db) = Some (h, b)"
        using find_at_key_down [of "rev db" h b "\<lambda>e. l < fst e"] less by simp
      with Some False show ?thesis
        by (simp add: find_checkpoint.simps [of db False h l] get_block_checkpoint_def)
    qed
  qed
qed

lemma collect_checkpoints_eq:
  assumes "\<forall>e \<in> set entries. buffer_ok e"
  shows "collect_checkpoints least most n entries result =
    result @ take (n - length result) (map checkpoint_of (filter (\<lambda>e. least \<le> fst e \<and> fst e \<le> most) entries))"
  using assms
proof (induction entries arbitrary: result)
  case (Cons e entries)
  show ?case
  proof (cases "length result < n")
    case True
    then have "n - length result = Suc (n - Suc (length result))" by simp
    with Cons True show ?thesis by (cases e) (auto simp: buffer_ok_def)
  qed (cases e, simp)
qed simp

section \<open>Ranges of checkpoints\<close>

text \<open>The checkpoints of a range of heights in the order in which they are asked for.\<close>

definition checkpoints_between :: "checkpoint_table \<Rightarrow> u64 \<Rightarrow> u64 \<Rightarrow> checkpoint_t list" where
  "checkpoints_between db start last_height =
     (if start \<le> last_height then map checkpoint_of (filter (\<lambda>e. start \<le> fst e \<and> fst e \<le> last_height) db)
      else rev (map checkpoint_of (filter (\<lambda>e. last_height \<le> fst e \<and> fst e \<le> start) db)))"

lemma find_or_last_up:
  assumes "sorted_wrt (\<lambda>e e'. fst e < fst e') db" and "(h :: u64) \<le> l"
  shows "List.find (\<lambda>e. h \<le> fst e \<and> fst e \<le> l) db =
    (case List.find (\<lambda>e. h \<le> fst e \<and> fst e < l) db of Some e \<Rightarrow> Some e | None \<Rightarrow> map_option (Pair l) (map_of db l))"
  using assms
proof (induction db)
  case (Cons e db)
  have "List.find (\<lambda>e. h \<le> fst e \<and> fst e < l) db = None" if "fst e = l"
    using Cons.prems that by (fastforce simp: find_None_iff)
  with Cons show ?case by (cases e) (auto simp: order.strict_iff_order cong: option.case_cong)
qed simp

lemma find_or_last_down:
  assumes "sorted_wrt (\<lambda>e e'. fst e > fst e') xs" and "l \<le> (h :: u64)"
  shows "List.find (\<lambda>e. l \<le> fst e \<and> fst e \<le> h) xs =
    (case List.find (\<lambda>e. fst e \<le> h \<and> l < fst e) xs of Some e \<Rightarrow> Some e | None \<Rightarrow> map_option (Pair l) (map_of xs l))"
  using assms
proof (induction xs)
  case (Cons e xs)
  have "List.find (\<lambda>e. fst e \<le> h \<and> l < fst e) xs = None" if "fst e = l"
    using Cons.prems that by (fastforce simp: find_None_iff)
  with Cons show ?case by (cases e) (auto simp: order.strict_iff_order cong: option.case_cong)
qed simp

lemma map_of_rev_table: "table_ok db \<Longrightarrow> map_of (rev db) = map_of db"
  using om.wf_distinct [of db] map_of_inject_set [of "rev db" db]
  by (simp add: table_ok_def keys_of_def rev_map [symmetric])

lemma range_start_up:
  assumes "table_ok db" and "h \<le> l"
  shows "(case find_checkpoint db True h l of Some c \<Rightarrow> Some c | None \<Rightarrow> get_block_checkpoint db l) =
    map_option checkpoint_of (List.find (\<lambda>e. h \<le> fst e \<and> fst e \<le> l) db)"
  using assms
  by (simp add: find_checkpoint_up find_or_last_up [OF sorted_table] get_block_checkpoint_def option.map_comp comp_def
      split: option.split)

lemma range_start_down:
  assumes "table_ok db" and "l \<le> h"
  shows "(case find_checkpoint db False h l of Some c \<Rightarrow> Some c | None \<Rightarrow> get_block_checkpoint db l) =
    map_option checkpoint_of (List.find (\<lambda>e. l \<le> fst e \<and> fst e \<le> h) (rev db))"
proof -
  have "sorted_wrt (\<lambda>e e'. fst e > fst e') (rev db)" using sorted_table [OF assms(1)] by (simp add: sorted_wrt_rev)
  with assms show ?thesis
    by (simp add: find_checkpoint_down find_or_last_down map_of_rev_table get_block_checkpoint_def option.map_comp comp_def
        split: option.split)
qed

lemma rest_up:
  assumes "sorted_wrt (\<lambda>e e'. fst e < fst e') db" and "filter P db = e # es"
  shows "filter P (filter (\<lambda>x. fst x > (fst e :: u64)) db) = es"
proof -
  have "filter P (filter (\<lambda>x. fst x > fst e) db) = filter (\<lambda>x. fst x > fst e) (e # es)"
    by (simp add: assms(2) [symmetric] conj_commute)
  moreover have "\<forall>x \<in> set es. fst e < fst x"
    using sorted_wrt_filter [OF assms(1), of P] by (simp add: assms(2))
  ultimately show ?thesis by simp
qed

lemma rest_down:
  assumes "sorted_wrt (\<lambda>e e'. fst e < fst e') db" and "rev (filter P db) = e # es"
  shows "filter P (rev (filter (\<lambda>x. fst x < (fst e :: u64)) db)) = es"
proof -
  have split: "filter P db = rev es @ [e]" using assms(2) by (simp add: rev_eq_Cons_iff)
  have "filter P (rev (filter (\<lambda>x. fst x < fst e) db)) = rev (filter (\<lambda>x. fst x < fst e) (filter P db))"
    by (simp add: rev_filter [symmetric] conj_commute)
  moreover have "\<forall>x \<in> set es. fst x < fst e"
    using sorted_wrt_filter [OF assms(1), of P] by (simp add: split sorted_wrt_append)
  ultimately show ?thesis by (simp add: split)
qed

lemma top_bottom:
  assumes "table_ok db" and "db \<noteq> []"
  shows "get_top_checkpoint db = Some (checkpoint_of (last db))" "cp_height (checkpoint_of (last db)) = fst (last db)"
    "get_bottom_checkpoint db = Some (checkpoint_of (hd db))" "cp_height (checkpoint_of (hd db)) = fst (hd db)"
    "\<forall>e \<in> set db. fst (hd db) \<le> fst e \<and> fst e \<le> fst (last db)"
proof -
  show "get_top_checkpoint db = Some (checkpoint_of (last db))" "get_bottom_checkpoint db = Some (checkpoint_of (hd db))"
    using assms(2) by (simp_all add: get_top_checkpoint_def get_bottom_checkpoint_def)
  show "cp_height (checkpoint_of (last db)) = fst (last db)" "cp_height (checkpoint_of (hd db)) = fst (hd db)"
    using assms by (simp_all add: cp_height_checkpoint_of table_ok_def)
  have "sorted (map fst db)" using assms(1) by (simp add: table_ok_def om_wf_def keys_of_def strict_sorted_iff)
  moreover from this have "\<forall>e \<in> set db. fst (hd db) \<le> fst e" using assms(2) by (cases db) auto
  ultimately show "\<forall>e \<in> set db. fst (hd db) \<le> fst e \<and> fst e \<le> fst (last db)"
    using assms(2) by (cases db rule: rev_cases) (auto simp: sorted_append)
qed

text \<open>With the ends clamped to the stored heights.\<close>

definition clamped :: "checkpoint_table \<Rightarrow> u64 \<Rightarrow> u64" where
  "clamped db h = clamp_u64 h (fst (hd db)) (fst (last db))"

lemma clamped_bounds: "table_ok db \<Longrightarrow> db \<noteq> [] \<Longrightarrow> fst (hd db) \<le> clamped db h \<and> clamped db h \<le> fst (last db)"
  using top_bottom(5) [of db] by (auto simp: clamped_def clamp_u64_def not_less)

definition wanted :: "nat \<Rightarrow> nat" where
  "wanted n = (if n = GET_ALL_CHECKPOINTS then 2 ^ 64 - 1 else n)"

lemma get_checkpoints_range_clamped:
  assumes "table_ok db" and "db \<noteq> []"
  shows "get_checkpoints_range db start last_height n =
    take (wanted n) (checkpoints_between db (clamped db start) (clamped db last_height))"
proof -
  let ?s = "clamped db start" and ?l = "clamped db last_height"
  note tb = top_bottom [OF assms]
  have bounds: "\<not> ?s < fst (hd db)" "\<not> ?s > fst (last db)" using clamped_bounds [OF assms, of start] by auto
  have "wanted n \<noteq> 0" by (simp add: wanted_def const_defs)
  then obtain m where m: "wanted n = Suc m" by (cases "wanted n") auto
  have ok: "\<forall>e \<in> set db. buffer_ok e" using assms(1) by (simp add: table_ok_def)
  show ?thesis
  proof (cases "?s \<le> ?l")
    case True
    let ?P = "\<lambda>e. ?s \<le> fst e \<and> fst e \<le> ?l"
    have "get_checkpoints_range db start last_height n =
        (case map_option checkpoint_of (List.find ?P db) of None \<Rightarrow> []
         | Some first \<Rightarrow> collect_checkpoints ?s ?l (wanted n) (filter (\<lambda>e. fst e > cp_height first) db) [first])"
      using True bounds
      by (simp add: get_checkpoints_range_def tb clamped_def [symmetric] range_start_up [OF assms(1) True] Let_def
          min_def max_def wanted_def [symmetric] split: option.split)
    also have "\<dots> = take (wanted n) (map checkpoint_of (filter ?P db))"
    proof (cases "filter ?P db")
      case (Cons e es)
      then have "e \<in> set (filter ?P db)" by simp
      then have "e \<in> set db" by simp
      then have "cp_height (checkpoint_of e) = fst e" using ok by (simp add: cp_height_checkpoint_of)
      then show ?thesis
        using Cons rest_up [OF sorted_table [OF assms(1)] Cons] ok m
        by (simp add: find_eq_filter collect_checkpoints_eq)
    qed (simp add: find_eq_filter)
    finally show ?thesis using True by (simp add: checkpoints_between_def)
  next
    case False
    let ?P = "\<lambda>e. ?l \<le> fst e \<and> fst e \<le> ?s"
    have le: "?l \<le> ?s" using False by simp
    have "get_checkpoints_range db start last_height n =
        (case map_option checkpoint_of (List.find ?P (rev db)) of None \<Rightarrow> []
         | Some first \<Rightarrow> collect_checkpoints ?l ?s (wanted n) (rev (filter (\<lambda>e. fst e < cp_height first) db)) [first])"
      using False bounds
      by (simp add: get_checkpoints_range_def tb clamped_def [symmetric] range_start_down [OF assms(1) le] Let_def
          min_def max_def wanted_def [symmetric] split: option.split)
    also have "\<dots> = take (wanted n) (rev (map checkpoint_of (filter ?P db)))"
    proof (cases "rev (filter ?P db)")
      case (Cons e es)
      then have "e \<in> set (rev (filter ?P db))" by simp
      then have "e \<in> set db" by simp
      then have "cp_height (checkpoint_of e) = fst e" using ok by (simp add: cp_height_checkpoint_of)
      then show ?thesis
        using Cons rest_down [OF sorted_table [OF assms(1)] Cons] ok m
        by (simp add: find_eq_filter collect_checkpoints_eq rev_filter rev_map)
    qed (simp add: find_eq_filter rev_filter [symmetric])
    finally show ?thesis using False by (simp add: checkpoints_between_def)
  qed
qed

lemma between_sym_single:
  assumes "table_ok db"
  shows "rev (map checkpoint_of (filter (\<lambda>e. h \<le> fst e \<and> fst e \<le> h) db)) =
    map checkpoint_of (filter (\<lambda>e. h \<le> fst e \<and> fst e \<le> h) db)"
proof -
  have "sorted_wrt (\<lambda>e e'. fst e < fst e') (filter (\<lambda>e. h \<le> fst e \<and> fst e \<le> h) db)"
    by (rule sorted_wrt_filter [OF sorted_table [OF assms]])
  moreover have "\<forall>e \<in> set (filter (\<lambda>e. h \<le> fst e \<and> fst e \<le> h) db). fst e = h" by auto
  moreover have "length xs \<le> 1" if "sorted_wrt (\<lambda>e e'. fst e < fst e') xs" "\<forall>e \<in> set xs. fst e = h"
    for xs :: checkpoint_table
    using that by (cases xs; cases "tl xs") auto
  ultimately have "length (filter (\<lambda>e. h \<le> fst e \<and> fst e \<le> h) db) \<le> 1" by blast
  then show ?thesis by (cases "filter (\<lambda>e. h \<le> fst e \<and> fst e \<le> h) db") auto
qed

lemma range_meets:
  assumes "table_ok db" and "db \<noteq> []"
    and "fst (hd db) \<le> max start last_height" and "min start last_height \<le> fst (last db)"
  shows "get_checkpoints_range db start last_height n = take (wanted n) (checkpoints_between db start last_height)"
proof -
  note all = top_bottom(5) [OF assms(1,2)]
  have low: "clamped db h \<le> fst e \<longleftrightarrow> h \<le> fst e" if "e \<in> set db" "h \<le> fst (last db)" for e h
    using all that by (auto simp: clamped_def clamp_u64_def)
  have high: "fst e \<le> clamped db h \<longleftrightarrow> fst e \<le> h" if "e \<in> set db" "fst (hd db) \<le> h" for e h
    using all that by (auto simp: clamped_def clamp_u64_def)
  have same: "filter (\<lambda>e. clamped db (min start last_height) \<le> fst e \<and> fst e \<le> clamped db (max start last_height)) db =
      filter (\<lambda>e. min start last_height \<le> fst e \<and> fst e \<le> max start last_height) db"
    by (rule filter_cong [OF refl]) (simp add: low [OF _ assms(4)] high [OF _ assms(3)])
  have mono: "h \<le> h' \<Longrightarrow> clamped db h \<le> clamped db h'" for h h'
    using all assms(2) by (auto simp: clamped_def clamp_u64_def not_less)
  have "checkpoints_between db (clamped db start) (clamped db last_height) = checkpoints_between db start last_height"
  proof (cases "start \<le> last_height")
    case True
    with same mono [OF this] show ?thesis by (simp add: checkpoints_between_def min_def max_def)
  next
    case False
    then have le: "clamped db last_height \<le> clamped db start" using mono by simp
    show ?thesis
      using same False le between_sym_single [OF assms(1), of "clamped db start"]
      by (cases "clamped db start = clamped db last_height")
        (auto simp: checkpoints_between_def min_def max_def)
  qed
  then show ?thesis by (simp add: get_checkpoints_range_clamped [OF assms(1,2)])
qed

lemma range_below:
  assumes "table_ok db" and "db \<noteq> []" and "max start last_height < fst (hd db)"
  shows "get_checkpoints_range db start last_height n = [checkpoint_of (hd db)]"
proof -
  have c: "clamped db start = fst (hd db)" "clamped db last_height = fst (hd db)"
    using assms(3) by (auto simp: clamped_def clamp_u64_def)
  obtain e es where db: "db = e # es" using assms(2) by (cases db) auto
  have "\<forall>x \<in> set es. fst e < fst x" using sorted_table [OF assms(1)] by (simp add: db)
  then have "filter (\<lambda>x. fst (hd db) \<le> fst x \<and> fst x \<le> fst (hd db)) db = [hd db]"
    by (auto simp: db filter_empty_conv)
  moreover have "wanted n \<noteq> 0" by (simp add: wanted_def const_defs)
  ultimately show ?thesis
    by (cases "wanted n") (simp_all add: get_checkpoints_range_clamped [OF assms(1,2)] c checkpoints_between_def)
qed


section \<open>The immutable checkpoint\<close>

definition immutable_of :: "checkpoint_t list \<Rightarrow> checkpoint_t option" where
  "immutable_of latest_first =
     (case latest_first of
        [] \<Rightarrow> None
      | c # rest \<Rightarrow> if cp_type c = hardcoded then Some c else (case rest of [] \<Rightarrow> None | d # _ \<Rightarrow> Some d))"

lemma get_immutable_checkpoint_eq:
  assumes "table_ok db" and "db \<noteq> []" and "fst (hd db) \<le> h"
  shows "get_immutable_checkpoint db h = immutable_of (rev (map checkpoint_of (filter (\<lambda>e. fst e \<le> h) db)))"
proof -
  let ?cs = "rev (map checkpoint_of (filter (\<lambda>e. fst e \<le> h) db))"
  have "checkpoints_between db h 0 = ?cs"
    using between_sym_single [OF assms(1), of 0] by (cases "h = 0") (auto simp: checkpoints_between_def)
  then have range: "get_checkpoints_range db h 0 2 = take 2 ?cs"
    using range_meets [OF assms(1,2), of h 0 2] assms(3) by (simp add: wanted_def const_defs)
  have two: "unat CHECKPOINT_NUM_CHECKPOINTS_FOR_CHAIN_FINALITY = 2" by (simp add: const_defs)
  have kinds: "cp_type c \<noteq> service_node \<longleftrightarrow> cp_type c = hardcoded" for c :: checkpoint_t by (cases "cp_type c") auto
  show ?thesis
    by (cases ?cs; cases "tl ?cs")
      (auto simp: get_immutable_checkpoint_def two range immutable_of_def kinds Let_def)
qed

section \<open>What the operations keep\<close>

definition has_genesis :: "checkpoints \<Rightarrow> bool" where
  "has_genesis ck \<longleftrightarrow> table_ok (ck_db ck) \<and> map_of (ck_db ck) 0 \<noteq> None"

text \<open>A step only drops entries that satisfy no given test.\<close>

lemma cull_checkpoints_filter:
  assumes "cull_checkpoints c e db = Some r"
  shows "\<exists>Q. snd r = filter Q db \<and> (\<forall>x. fst x mod CHECKPOINT_STORE_PERSISTENTLY_INTERVAL = 0 \<longrightarrow> Q x)"
proof (rule cull_checkpoints.raw_induct [OF _ assms, of "\<lambda>c e db r. \<exists>Q. snd r = filter Q db \<and>
    (\<forall>x. fst x mod CHECKPOINT_STORE_PERSISTENTLY_INTERVAL = 0 \<longrightarrow> Q x)"])
  fix loop :: "u64 \<Rightarrow> u64 \<Rightarrow> checkpoint_table \<Rightarrow> (u64 \<times> checkpoint_table) option" and c e db r
  assume IH: "\<And>c e db r. loop c e db = Some r \<Longrightarrow> \<exists>Q. snd r = filter Q db \<and>
      (\<forall>x. fst x mod CHECKPOINT_STORE_PERSISTENTLY_INTERVAL = 0 \<longrightarrow> Q x)"
    and run: "(if c < e then loop (c + CHECKPOINT_INTERVAL) e
        (if c mod CHECKPOINT_STORE_PERSISTENTLY_INTERVAL = 0 then db else remove_block_checkpoint c db)
      else Some (c, db)) = Some r"
  show "\<exists>Q. snd r = filter Q db \<and> (\<forall>x. fst x mod CHECKPOINT_STORE_PERSISTENTLY_INTERVAL = 0 \<longrightarrow> Q x)"
  proof (cases "c < e")
    case True
    let ?db = "if c mod CHECKPOINT_STORE_PERSISTENTLY_INTERVAL = 0 then db else remove_block_checkpoint c db"
    from IH [of "c + CHECKPOINT_INTERVAL" e ?db r] run True obtain Q where Q: "snd r = filter Q ?db"
        "\<forall>x. fst x mod CHECKPOINT_STORE_PERSISTENTLY_INTERVAL = 0 \<longrightarrow> Q x" by auto
    let ?Q = "\<lambda>x. Q x \<and> (c mod CHECKPOINT_STORE_PERSISTENTLY_INTERVAL = 0 \<or> fst x \<noteq> c)"
    have "snd r = filter ?Q db" by (simp add: Q(1) remove_block_checkpoint_def erase_key_def conj_commute)
    moreover have "\<forall>x. fst x mod CHECKPOINT_STORE_PERSISTENTLY_INTERVAL = 0 \<longrightarrow> ?Q x" using Q(2) by metis
    ultimately show ?thesis by blast
  next
    case False
    then have "snd r = filter (\<lambda>x. True) db" using run by auto
    then show ?thesis by blast
  qed
qed

lemma remove_checkpoints_down_filter:
  "\<exists>Q. remove_checkpoints_down height d db = filter Q db \<and> (\<forall>x. fst x < CHECKPOINT_INTERVAL \<longrightarrow> Q x)"
proof (induction height d db rule: remove_checkpoints_down.induct)
  case (1 height d db)
  show ?case
  proof (cases "d \<ge> height \<and> d \<ge> CHECKPOINT_INTERVAL")
    case True
    from 1 [OF this] obtain Q where
        Q: "remove_checkpoints_down height (d - CHECKPOINT_INTERVAL) (remove_block_checkpoint d db) =
              filter Q (remove_block_checkpoint d db)" "\<forall>x. fst x < CHECKPOINT_INTERVAL \<longrightarrow> Q x" by blast
    have "remove_checkpoints_down height d db = filter (\<lambda>x. fst x \<noteq> d \<and> Q x) db"
      using True Q(1) by (simp add: remove_checkpoints_down.simps [of height d db])
        (simp add: remove_block_checkpoint_def erase_key_def conj_commute)
    moreover have "\<forall>x. fst x < CHECKPOINT_INTERVAL \<longrightarrow> fst x \<noteq> d \<and> Q x" using Q(2) True by auto
    ultimately show ?thesis by blast
  next
    case False
    then have "remove_checkpoints_down height d db = filter (\<lambda>x. True) db"
      by (subst remove_checkpoints_down.simps) auto
    then show ?thesis by blast
  qed
qed

lemma has_genesis_filter:
  assumes "has_genesis ck" and "\<forall>b. Q (0, b)" and "ck_db ck' = filter Q (ck_db ck)"
  shows "has_genesis ck'"
proof -
  have ok: "table_ok (ck_db ck)" using assms(1) by (simp add: has_genesis_def)
  then have ok': "table_ok (ck_db ck')" using assms(3) by (auto simp: table_ok_def om.wf_filter)
  from assms(1) obtain b where "(0, b) \<in> set (ck_db ck)" using ok by (auto simp: has_genesis_def table_get)
  then have "(0, b) \<in> set (ck_db ck')" using assms(2,3) by simp
  then have "map_of (ck_db ck') 0 = Some b" using ok' by (simp add: table_get)
  with ok' show ?thesis by (simp add: has_genesis_def)
qed

lemma update_checkpoint_cases:
  assumes "update_checkpoint c ck = ret (r, ck')"
  obtains b where "buffer_ok (cp_height c, b)" "ck' = ck\<lparr>ck_db := om_assign_key (cp_height c) b (ck_db ck)\<rparr>"
proof -
  obtain b where b: "convert_checkpoint_into_buffer c = Some b" "ck' = ck\<lparr>ck_db := om_assign_key (cp_height c) b (ck_db ck)\<rparr>"
    using assms by (auto simp: update_checkpoint_def update_block_checkpoint_def rbind_eq_ret_iff split: option.splits)
  moreover from b(1) have "buffer_ok (cp_height c, b)"
    by (auto simp: convert_checkpoint_into_buffer_def Let_def buffer_ok_def split: if_splits)
  ultimately show ?thesis using that by blast
qed

lemma om_assign_elements: "set (om_assign_key k v m) \<subseteq> insert (k, v) (set m)"
  by (induction m rule: om_assign_key.induct) auto

lemma table_ok_assign: "table_ok db \<Longrightarrow> buffer_ok (k, b) \<Longrightarrow> table_ok (om_assign_key k b db)"
  using om_assign_elements [of k b db] by (auto simp: table_ok_def om.wf_put)

lemma has_genesis_update:
  assumes "has_genesis ck" and "update_checkpoint c ck = ret (r, ck')"
  shows "has_genesis ck' \<and> ck_immutable_height ck' = ck_immutable_height ck"
proof -
  obtain b where b: "buffer_ok (cp_height c, b)" "ck' = ck\<lparr>ck_db := om_assign_key (cp_height c) b (ck_db ck)\<rparr>"
    using update_checkpoint_cases [OF assms(2)] .
  have wf: "table_ok (ck_db ck)" "om_wf (ck_db ck)" using assms(1) by (simp_all add: has_genesis_def table_ok_def)
  from assms(1) table_ok_assign [OF wf(1) b(1)] show ?thesis
    by (simp add: b(2) has_genesis_def map_of_om_assign [OF wf(2)])
qed

lemma lift_opt_eq_ret_iff: "lift_opt m = ret x \<longleftrightarrow> m = Some x"
  by (cases m) (auto simp: lift_opt_def ret_def)

lemma has_genesis_added:
  assumes "has_genesis ck" and "checkpoints_block_added blk c ck = ret (r, ck')"
  shows "has_genesis ck' \<and> ck_immutable_height ck' = ck_immutable_height ck"
proof (cases "get_block_height blk < CHECKPOINT_STORE_PERSISTENTLY_INTERVAL \<or>
    blk_major_version blk < network_version_12_checkpointing")
  case True
  with assms show ?thesis by (simp add: checkpoints_block_added_def)
next
  case False
  let ?e = "case get_immutable_checkpoint (ck_db ck) (get_block_height blk + 1) of None \<Rightarrow> 0 | Some c \<Rightarrow> cp_height c"
  let ?m = "max (ck_last_cull_height ck) (start_cull_height ?e)"
  obtain culled db where cull: "cull_checkpoints ?m ?e (ck_db ck) = Some (culled, db)"
    and rest: "(case c of None \<Rightarrow> ret (True, ck\<lparr>ck_last_cull_height := culled, ck_db := db\<rparr>)
       | Some c \<Rightarrow> rbind (update_checkpoint c (ck\<lparr>ck_last_cull_height := culled, ck_db := db\<rparr>))
           (\<lambda>(r, ck). ret (True, ck))) = ret (r, ck')"
    using assms(2) False by (auto simp: checkpoints_block_added_def Let_def rbind_eq_ret_iff lift_opt_eq_ret_iff)
  from cull_checkpoints_filter [OF cull] obtain Q where Q: "db = filter Q (ck_db ck)"
    "\<forall>x. fst x mod CHECKPOINT_STORE_PERSISTENTLY_INTERVAL = 0 \<longrightarrow> Q x" by auto
  have start: "has_genesis (ck\<lparr>ck_last_cull_height := culled, ck_db := db\<rparr>)"
    by (rule has_genesis_filter [OF assms(1), of Q]) (use Q in \<open>simp_all add: const_defs\<close>)
  show ?thesis
  proof (cases c)
    case None
    with rest start show ?thesis by auto
  next
    case (Some c')
    then obtain r' where "update_checkpoint c' (ck\<lparr>ck_last_cull_height := culled, ck_db := db\<rparr>) = ret (r', ck')"
      using rest by (auto simp: rbind_eq_ret_iff)
    from has_genesis_update [OF start this] show ?thesis by simp
  qed
qed

section \<open>Finality\<close>

inductive ck_step :: "checkpoints \<Rightarrow> checkpoints \<Rightarrow> bool" where
  added: "checkpoints_block_added blk c ck = ret (r, ck') \<Longrightarrow> ck_step ck ck'"
| detached: "ck_step ck (checkpoints_detached height ck)"
| updated: "update_checkpoint c ck = ret (r, ck') \<Longrightarrow> ck_step ck ck'"
| asked: "ck_step ck (snd (is_alternative_block_allowed blockchain_height block_height ck))"

lemma ck_step_keeps:
  assumes "ck_step ck ck'" and "has_genesis ck"
  shows "has_genesis ck' \<and> ck_immutable_height ck \<le> ck_immutable_height ck'"
  using assms
proof cases
  case (detached height)
  obtain top_height Q where "ck_db ck' = ck_db ck \<or> ck_db ck' = filter Q (ck_db ck)"
      "\<forall>x. fst x < CHECKPOINT_INTERVAL \<longrightarrow> Q x"
  proof (cases "get_top_checkpoint (ck_db ck)")
    case None
    then show ?thesis using that [of "\<lambda>_. True"] by (simp add: detached checkpoints_detached_def)
  next
    case (Some c)
    obtain Q where "remove_checkpoints_down height (cp_height c) (ck_db ck) = filter Q (ck_db ck)"
        "\<forall>x. fst x < CHECKPOINT_INTERVAL \<longrightarrow> Q x"
      using remove_checkpoints_down_filter by blast
    then show ?thesis using that [of Q] Some by (simp add: detached checkpoints_detached_def)
  qed
  moreover have "ck_immutable_height ck' = ck_immutable_height ck"
    by (simp add: detached checkpoints_detached_def Let_def split: option.split)
  ultimately show ?thesis
    using has_genesis_filter [OF assms(2), of Q ck'] assms(2) by (auto simp: has_genesis_def const_defs)
next
  case (asked bh h)
  have "ck_db ck' = ck_db ck" by (simp add: asked is_alternative_block_allowed_def Let_def)
  moreover have "ck_immutable_height ck \<le> ck_immutable_height ck'"
    by (simp add: asked is_alternative_block_allowed_def Let_def)
  ultimately show ?thesis using assms(2) by (simp add: has_genesis_def)
next
  case (added blk c r)
  from has_genesis_added [OF assms(2) this] show ?thesis by simp
next
  case (updated c r)
  from has_genesis_update [OF assms(2) this] show ?thesis by simp
qed

lemma ck_steps_keep:
  assumes "ck_step\<^sup>*\<^sup>* ck ck'" and "has_genesis ck"
  shows "has_genesis ck' \<and> ck_immutable_height ck \<le> ck_immutable_height ck'"
  using assms
proof (induction rule: rtranclp_induct)
  case (step ck' ck'')
  with ck_step_keeps [of ck' ck''] show ?case by (auto intro: order_trans)
qed simp

lemma first_is_genesis:
  assumes "has_genesis ck"
  shows "\<exists>c. get_checkpoints_range (ck_db ck) 0 h 1 = [c] \<and> cp_height c = 0"
proof -
  have ok: "table_ok (ck_db ck)" and get: "map_of (ck_db ck) 0 \<noteq> None" using assms by (simp_all add: has_genesis_def)
  then obtain b where "(0, b) \<in> set (ck_db ck)" by (auto simp: table_get)
  then have ne: "ck_db ck \<noteq> []" by auto
  then obtain e es where db: "ck_db ck = e # es" by (cases "ck_db ck") auto
  have "fst e = 0"
    using top_bottom(5) [OF ok ne] \<open>(0, b) \<in> set (ck_db ck)\<close> by (force simp: db)
  moreover have "get_checkpoints_range (ck_db ck) 0 h 1 = take 1 (checkpoints_between (ck_db ck) 0 h)"
    using range_meets [OF ok ne, of 0 h 1] \<open>fst e = 0\<close> by (simp add: db wanted_def const_defs)
  ultimately show ?thesis
    using ok by (simp add: checkpoints_between_def db cp_height_checkpoint_of table_ok_def)
qed

text \<open>
  C13: once a block is at or below a height the node has found immutable, no alternative block
  is ever allowed there again, whatever blocks are added, detached or asked about and whatever
  checkpoints are stored in between, as long as the table has the checkpoint of the first block, which
  none of these operations removes.
\<close>

theorem immutable_height_is_final:
  assumes "ck_step\<^sup>*\<^sup>* ck ck'" and "has_genesis ck" and "block_height \<le> ck_immutable_height ck"
  shows "\<not> fst (fst (is_alternative_block_allowed blockchain_height block_height ck'))"
proof -
  have keep: "has_genesis ck'" "ck_immutable_height ck \<le> ck_immutable_height ck'"
    using ck_steps_keep [OF assms(1,2)] by simp_all
  have "block_height \<le> ck_immutable_height ck'" using assms(3) keep(2) by (rule order_trans)
  then have "\<not> block_height > max h (ck_immutable_height ck')" for h by (simp add: not_less le_max_iff_disj)
  moreover obtain c where "get_checkpoints_range (ck_db ck') 0 blockchain_height 1 = [c]" "cp_height c = 0"
    using first_is_genesis [OF keep(1)] by blast
  ultimately show ?thesis by (simp add: is_alternative_block_allowed_def Let_def)
qed

section \<open>Culling\<close>

definition culled :: "u64 \<Rightarrow> u64 \<Rightarrow> u64 \<Rightarrow> bool" where
  "culled c e h \<longleftrightarrow> c \<le> h \<and> h < e \<and> (unat h - unat c) mod 4 = 0 \<and> h mod CHECKPOINT_STORE_PERSISTENTLY_INTERVAL \<noteq> 0"

lemma next_cull:
  assumes "c < e" and "unat e \<le> 2 ^ 64 - 4"
  shows "unat (c + CHECKPOINT_INTERVAL) = unat c + 4"
  using assms unat_add_no_wrap [of c 4] by (simp add: word_less_nat_alt const_defs)

lemma multiple_of_four_step: "c \<le> (h :: nat) \<and> (h - c) mod 4 = 0 \<longleftrightarrow> h = c \<or> c + 4 \<le> h \<and> (h - (c + 4)) mod 4 = 0"
  by presburger

lemma culled_step:
  assumes "c < e" and "unat e \<le> 2 ^ 64 - 4"
  shows "culled c e h \<longleftrightarrow>
    h = c \<and> c mod CHECKPOINT_STORE_PERSISTENTLY_INTERVAL \<noteq> 0 \<or> culled (c + CHECKPOINT_INTERVAL) e h"
proof -
  have "c \<le> h \<and> (unat h - unat c) mod 4 = 0 \<longleftrightarrow>
      h = c \<or> c + CHECKPOINT_INTERVAL \<le> h \<and> (unat h - unat (c + CHECKPOINT_INTERVAL)) mod 4 = 0"
    using multiple_of_four_step [of "unat c" "unat h"] unfolding next_cull [OF assms]
    by (simp add: word_le_nat_alt word_unat_eq_iff next_cull [OF assms])
  with assms(1) show ?thesis unfolding culled_def by metis
qed

lemma cull_checkpoints_spec:
  assumes "unat e \<le> 2 ^ 64 - 4"
  shows "\<exists>c'. cull_checkpoints c e db = Some (c', filter (\<lambda>x. \<not> culled c e (fst x)) db) \<and>
    unat c' mod 4 = unat c mod 4"
proof (induction "unat e - unat c" arbitrary: c db rule: less_induct)
  case less
  show ?case
  proof (cases "c < e")
    case True
    let ?db = "if c mod CHECKPOINT_STORE_PERSISTENTLY_INTERVAL = 0 then db else remove_block_checkpoint c db"
    have "unat e - unat (c + CHECKPOINT_INTERVAL) < unat e - unat c"
      using True next_cull [OF True assms] by (simp add: word_less_nat_alt)
    from less [OF this, of ?db] obtain c' where
        c': "cull_checkpoints (c + CHECKPOINT_INTERVAL) e ?db =
               Some (c', filter (\<lambda>x. \<not> culled (c + CHECKPOINT_INTERVAL) e (fst x)) ?db)"
        "unat c' mod 4 = unat (c + CHECKPOINT_INTERVAL) mod 4" by blast
    have "filter (\<lambda>x. \<not> culled (c + CHECKPOINT_INTERVAL) e (fst x)) ?db = filter (\<lambda>x. \<not> culled c e (fst x)) db"
      by (auto simp: culled_step [OF True assms] remove_block_checkpoint_def erase_key_def intro: filter_cong)
    with c' True show ?thesis
      by (auto simp: cull_checkpoints.simps [of c e db] next_cull [OF True assms])
  next
    case False
    then have "\<not> culled c e h" for h by (auto simp: culled_def)
    then have "filter (\<lambda>x. \<not> culled c e (fst x)) db = db" by simp
    with False show ?thesis by (simp add: cull_checkpoints.simps [of c e db])
  qed
qed

lemma map_of_filter_key: "P h \<Longrightarrow> map_of (filter (\<lambda>x. P (fst x)) m) h = map_of m h"
  by (induction m) auto

lemma range_subset:
  assumes "table_ok db"
  shows "set (get_checkpoints_range db start last_height n) \<subseteq> checkpoint_of ` set db"
proof (cases "db = []")
  case False
  have "set (take k xs) \<subseteq> set xs" for k and xs :: "checkpoint_t list" by (rule set_take_subset)
  moreover have "set (checkpoints_between db h l) \<subseteq> checkpoint_of ` set db" for h l
    by (auto simp: checkpoints_between_def)
  ultimately show ?thesis unfolding get_checkpoints_range_clamped [OF assms False] by blast
qed (simp add: get_checkpoints_range_def get_top_checkpoint_def)

lemma immutable_in_table:
  assumes "table_ok db" and "get_immutable_checkpoint db h = Some c"
  shows "\<exists>e \<in> set db. c = checkpoint_of e \<and> cp_height c = fst e"
proof -
  let ?cps = "get_checkpoints_range db h 0 (unat CHECKPOINT_NUM_CHECKPOINTS_FOR_CHAIN_FINALITY)"
  have "c \<in> set ?cps"
    using assms(2) by (auto simp: get_immutable_checkpoint_def Let_def const_defs split: if_splits)
  with range_subset [OF assms(1), of h 0] obtain e where "e \<in> set db" "c = checkpoint_of e" by blast
  moreover from this have "cp_height c = fst e" using assms(1) by (simp add: table_ok_def cp_height_checkpoint_of)
  ultimately show ?thesis by blast
qed

definition immutable_height :: "checkpoint_table \<Rightarrow> u64 \<Rightarrow> u64" where
  "immutable_height db h = (case get_immutable_checkpoint db h of None \<Rightarrow> 0 | Some c \<Rightarrow> cp_height c)"

text \<open>
  C21: adding a block returns: the culling loop ends on every table whose heights are at least four
  below the largest 64-bit number, and the checkpoint of the block is stored when its
  signatures fit.  Apart from the height of that checkpoint, the entries at and above the
  immutable height and those at the multiples of 60 stay as they were.
\<close>

theorem block_added_returns:
  assumes "table_ok (ck_db ck)" and "\<forall>e \<in> set (ck_db ck). unat (fst e) \<le> 2 ^ 64 - 4"
    and "\<forall>d. c = Some d \<longrightarrow> length (cp_signatures d) \<le> CHECKPOINT_QUORUM_SIZE"
  shows "\<exists>ck'. checkpoints_block_added blk c ck = ret (True, ck') \<and>
    (\<forall>h. (\<forall>d. c = Some d \<longrightarrow> cp_height d \<noteq> h) \<and>
         (immutable_height (ck_db ck) (get_block_height blk + 1) \<le> h \<or> h mod CHECKPOINT_STORE_PERSISTENTLY_INTERVAL = 0) \<longrightarrow>
         map_of (ck_db ck') h = map_of (ck_db ck) h)"
proof (cases "get_block_height blk < CHECKPOINT_STORE_PERSISTENTLY_INTERVAL \<or>
    blk_major_version blk < network_version_12_checkpointing")
  case True
  then show ?thesis by (simp add: checkpoints_block_added_def)
next
  case False
  let ?e = "immutable_height (ck_db ck) (get_block_height blk + 1)"
  let ?m = "max (ck_last_cull_height ck) (start_cull_height ?e)"
  let ?db = "filter (\<lambda>x. \<not> culled ?m ?e (fst x)) (ck_db ck)"
  have "unat ?e \<le> 2 ^ 64 - 4"
    using immutable_in_table [OF assms(1)] assms(2) by (fastforce simp: immutable_height_def split: option.split)
  from cull_checkpoints_spec [OF this] obtain m where cull: "cull_checkpoints ?m ?e (ck_db ck) = Some (m, ?db)" by blast
  have keep: "map_of ?db h = map_of (ck_db ck) h"
    if "?e \<le> h \<or> h mod CHECKPOINT_STORE_PERSISTENTLY_INTERVAL = 0" for h
  proof -
    have "\<not> culled ?m ?e h" using that unfolding culled_def by auto
    then show ?thesis by (rule map_of_filter_key)
  qed
  have wf: "om_wf ?db" using assms(1) by (simp add: table_ok_def om.wf_filter)
  let ?ck = "ck\<lparr>ck_last_cull_height := m, ck_db := ?db\<rparr>"
  have run: "checkpoints_block_added blk c ck =
      (case c of None \<Rightarrow> ret (True, ?ck) | Some d \<Rightarrow> rbind (update_checkpoint d ?ck) (\<lambda>(r, ck). ret (True, ck)))"
    using False cull by (simp add: checkpoints_block_added_def Let_def immutable_height_def [symmetric])
  show ?thesis
  proof (cases c)
    case None
    with run keep show ?thesis by auto
  next
    case (Some d)
    then obtain b where "convert_checkpoint_into_buffer d = Some b"
      using assms(3) by (simp add: convert_checkpoint_into_buffer_def Let_def)
    then have "checkpoints_block_added blk c ck = ret (True, ?ck\<lparr>ck_db := om_assign_key (cp_height d) b ?db\<rparr>)"
      using run Some by (simp add: update_checkpoint_def update_block_checkpoint_def)
    with keep show ?thesis by (auto simp: Some map_of_om_assign [OF wf])
  qed
qed

lemma misaligned_cull_removes_nothing:
  assumes "unat e \<le> 2 ^ 64 - 4" and "unat c mod 4 \<noteq> 0" and "\<forall>x \<in> set db. unat (fst x) mod 4 = 0"
  shows "\<exists>c'. cull_checkpoints c e db = Some (c', db) \<and> unat c' mod 4 \<noteq> 0"
proof -
  have "\<not> culled c e (fst x)" if "x \<in> set db" for x
  proof
    assume "culled c e (fst x)"
    then have "unat c \<le> unat (fst x)" "(unat (fst x) - unat c) mod 4 = 0" by (simp_all add: culled_def word_le_nat_alt)
    moreover have "unat (fst x) mod 4 = 0" using assms(3) that by simp
    ultimately show False using assms(2) by presburger
  qed
  then have "filter (\<lambda>x. \<not> culled c e (fst x)) db = db" by simp
  with cull_checkpoints_spec [OF assms(1), of c db] assms(2) show ?thesis by auto
qed

section \<open>Stored checkpoints\<close>

lemma checkpoint_stored:
  assumes "om_wf (ck_db ck)" and "length (cp_signatures c) \<le> CHECKPOINT_QUORUM_SIZE"
  obtains b where "buffer_ok (cp_height c, b)"
    and "update_checkpoint c ck = ret (True, ck\<lparr>ck_db := om_assign_key (cp_height c) b (ck_db ck)\<rparr>)"
    and "get_checkpoint (ck\<lparr>ck_db := om_assign_key (cp_height c) b (ck_db ck)\<rparr>) (cp_height c) =
      Some (c\<lparr>cp_version := 0, cp_prev_height := 0, cp_type := (if cp_signatures c = [] then hardcoded else service_node)\<rparr>)"
proof -
  let ?b = "\<lparr>cb_height = cp_height c, cb_block_hash = cp_block_hash c,
    cb_num_signatures = of_nat (length (cp_signatures c)), cb_signatures = cp_signatures c\<rparr>"
  let ?ck = "ck\<lparr>ck_db := om_assign_key (cp_height c) ?b (ck_db ck)\<rparr>"
  have few: "length (cp_signatures c) \<le> 20" using assms(2) by (simp add: const_defs)
  then have n: "unat (of_nat (length (cp_signatures c)) :: u64) = length (cp_signatures c)"
    by (simp add: unat_of_nat take_bit_eq_mod)
  then have positive: "(of_nat (length (cp_signatures c)) :: u64) > 0 \<longleftrightarrow> cp_signatures c \<noteq> []"
    by (metis length_greater_0_conv unat_gt_0 word_gt_0)
  have "convert_checkpoint_into_buffer c = Some ?b"
    using assms(2) by (simp add: convert_checkpoint_into_buffer_def Let_def)
  then have run: "update_checkpoint c ck = ret (True, ?ck)"
    by (simp add: update_checkpoint_def update_block_checkpoint_def)
  have stored: "get_checkpoint ?ck (cp_height c) = Some (c\<lparr>cp_version := 0, cp_prev_height := 0,
      cp_type := (if cp_signatures c = [] then hardcoded else service_node)\<rparr>)"
    using n positive
    by (auto simp: get_checkpoint_def get_block_checkpoint_def map_of_om_assign [OF assms(1)]
        convert_mdb_val_to_checkpoint_def Let_def)
  show thesis using that [OF _ run stored] assms(2) by (simp add: buffer_ok_def)
qed

text \<open>
  C25: a checkpoint with at most a quorum of signatures is stored: afterwards the block of its
  height passes exactly with its hash, it is found with its hash and signatures (its kind is
  read off from whether it has signatures), and no other height is affected.
\<close>

theorem stored_checkpoint_enforced:
  assumes "om_wf (ck_db ck)" and "length (cp_signatures c) \<le> CHECKPOINT_QUORUM_SIZE"
  shows "\<exists>ck'. update_checkpoint c ck = ret (True, ck') \<and>
    get_checkpoint ck' (cp_height c) = Some (c\<lparr>cp_version := 0, cp_prev_height := 0,
      cp_type := (if cp_signatures c = [] then hardcoded else service_node)\<rparr>) \<and>
    (\<forall>h. check_block ck' (cp_height c) h = (h = cp_block_hash c, True, cp_signatures c \<noteq> [])) \<and>
    (\<forall>height. height \<noteq> cp_height c \<longrightarrow> get_checkpoint ck' height = get_checkpoint ck height)"
proof -
  obtain b where run: "update_checkpoint c ck = ret (True, ck\<lparr>ck_db := om_assign_key (cp_height c) b (ck_db ck)\<rparr>)"
    and stored: "get_checkpoint (ck\<lparr>ck_db := om_assign_key (cp_height c) b (ck_db ck)\<rparr>) (cp_height c) =
      Some (c\<lparr>cp_version := 0, cp_prev_height := 0, cp_type := (if cp_signatures c = [] then hardcoded else service_node)\<rparr>)"
    by (rule checkpoint_stored [OF assms])
  let ?ck = "ck\<lparr>ck_db := om_assign_key (cp_height c) b (ck_db ck)\<rparr>"
  from stored have "check_block ?ck (cp_height c) h = (h = cp_block_hash c, True, cp_signatures c \<noteq> [])" for h
    by (auto simp: check_block_def checkpoint_check_def)
  moreover have "get_checkpoint ?ck height = get_checkpoint ck height" if "height \<noteq> cp_height c" for height
    using that by (simp add: get_checkpoint_def get_block_checkpoint_def map_of_om_assign [OF assms(1)])
  ultimately show ?thesis using run stored by blast
qed

section \<open>Examples\<close>

definition hardcoded_buffer :: "u64 \<Rightarrow> hash256 \<Rightarrow> u64 \<times> checkpoint_buffer" where
  "hardcoded_buffer height h = (height, \<lparr>cb_height = height, cb_block_hash = h, cb_num_signatures = 0, cb_signatures = []\<rparr>)"

definition mainnet_table :: checkpoint_table where
  "mainnet_table =
     [hardcoded_buffer 0 0x8cc33ab439f5fec5a384321b872c25686d2ab9d688e715ee3087b20094fccd47,
      hardcoded_buffer 121 0x443511445c6f5608401a03695e3622d27e16b304181723145fe67692991c449b,
      hardcoded_buffer 122 0x1e18dd27edb860c2513b85cf823203d85c646dbeb0f5fe6aa5ae6f6c26c61d44]"

lemma hardcoded_hashes:
  "map (hex_to_hash \<circ> snd) HARDCODED_MAINNET_CHECKPOINTS = map (\<lambda>e. Some (cb_block_hash (snd e))) mainnet_table"
  by code_simp

definition mainnet_checkpoints :: checkpoints where
  "mainnet_checkpoints = \<lparr>ck_nettype = MAINNET, ck_last_cull_height = 0, ck_immutable_height = 0, ck_db = mainnet_table\<rparr>"

lemma mainnet_init: "checkpoints_init MAINNET False [] = ret (True, mainnet_checkpoints)"
proof -
  have hashes: "hex_to_hash ''8cc33ab439f5fec5a384321b872c25686d2ab9d688e715ee3087b20094fccd47'' =
        Some 0x8cc33ab439f5fec5a384321b872c25686d2ab9d688e715ee3087b20094fccd47"
      "hex_to_hash ''443511445c6f5608401a03695e3622d27e16b304181723145fe67692991c449b'' =
        Some 0x443511445c6f5608401a03695e3622d27e16b304181723145fe67692991c449b"
      "hex_to_hash ''1e18dd27edb860c2513b85cf823203d85c646dbeb0f5fe6aa5ae6f6c26c61d44'' =
        Some 0x1e18dd27edb860c2513b85cf823203d85c646dbeb0f5fe6aa5ae6f6c26c61d44"
    using hardcoded_hashes by (simp_all add: HARDCODED_MAINNET_CHECKPOINTS_def mainnet_table_def hardcoded_buffer_def)
  show ?thesis
    by (simp add: checkpoints_init_def HARDCODED_MAINNET_CHECKPOINTS_def add_checkpoint_def get_checkpoint_def
        get_block_checkpoint_def update_checkpoint_def update_block_checkpoint_def convert_checkpoint_into_buffer_def
        Let_def mainnet_checkpoints_def mainnet_table_def hardcoded_buffer_def hashes)
qed

lemma mainnet_table_ok: "table_ok mainnet_table"
  by (simp add: table_ok_def om_wf_def keys_of_def mainnet_table_def hardcoded_buffer_def buffer_ok_def)

lemma mainnet_genesis: "has_genesis mainnet_checkpoints"
  by (simp add: has_genesis_def mainnet_checkpoints_def mainnet_table_ok) (simp add: mainnet_table_def hardcoded_buffer_def)

lemma mainnet_detached: "ck_db (checkpoints_detached 100 mainnet_checkpoints) = take 2 mainnet_table"
proof -
  have top: "get_top_checkpoint mainnet_table = Some (checkpoint_of (last mainnet_table))"
    by (simp add: get_top_checkpoint_def mainnet_table_def)
  have height: "cp_height (checkpoint_of (last mainnet_table)) = 122"
    by (simp add: convert_mdb_val_to_checkpoint_def Let_def mainnet_table_def hardcoded_buffer_def)
  have "remove_checkpoints_down 100 122 mainnet_table = take 2 mainnet_table"
    by (simp add: remove_checkpoints_down.simps remove_block_checkpoint_def erase_key_def const_defs
        mainnet_table_def hardcoded_buffer_def)
  then show ?thesis
    by (simp add: checkpoints_detached_def mainnet_checkpoints_def top height)
qed

text \<open>
  detaching blocks deletes the checkpoint compiled into the program when it is the highest one:
  on the main network, after the chain is cut back to height 100 every block is accepted at
  height 122, although the program starts with a checkpoint there; the one at 121 remains.
\<close>

theorem detach_deletes_hardcoded_checkpoint:
  "\<exists>ck. checkpoints_init MAINNET False [] = ret (True, ck) \<and>
     \<not> fst (check_block ck 122 0) \<and>
     (\<forall>h. check_block (checkpoints_detached 100 ck) 122 h = (True, False, False)) \<and>
     \<not> fst (check_block (checkpoints_detached 100 ck) 121 0)"
proof -
  have "check_block (checkpoints_detached 100 mainnet_checkpoints) 122 h = (True, False, False)" for h
    by (simp add: check_block_def get_checkpoint_def get_block_checkpoint_def mainnet_detached)
      (simp add: mainnet_table_def hardcoded_buffer_def)
  moreover have "\<not> fst (check_block (checkpoints_detached 100 mainnet_checkpoints) 121 0)"
    by (simp add: check_block_def get_checkpoint_def get_block_checkpoint_def mainnet_detached)
      (simp add: mainnet_table_def hardcoded_buffer_def convert_mdb_val_to_checkpoint_def checkpoint_check_def Let_def)
  moreover have "\<not> fst (check_block mainnet_checkpoints 122 0)"
    by (simp add: check_block_def get_checkpoint_def get_block_checkpoint_def mainnet_checkpoints_def)
      (simp add: mainnet_table_def hardcoded_buffer_def convert_mdb_val_to_checkpoint_def checkpoint_check_def Let_def)
  ultimately show ?thesis using mainnet_init by blast
qed


theorem immutable_height_is_final_witness:
  "\<not> fst (fst (is_alternative_block_allowed 210 122 (checkpoints_detached 100
     (snd (is_alternative_block_allowed 200 150 mainnet_checkpoints)))))"
proof -
  let ?ck = "snd (is_alternative_block_allowed 200 150 mainnet_checkpoints)"
  have "mainnet_table \<noteq> []" by (simp add: mainnet_table_def)
  moreover have "fst (hd mainnet_table) \<le> 200" by (simp add: mainnet_table_def hardcoded_buffer_def)
  ultimately have "get_immutable_checkpoint mainnet_table 200 =
      immutable_of (rev (map checkpoint_of (filter (\<lambda>e. fst e \<le> 200) mainnet_table)))"
    by (rule get_immutable_checkpoint_eq [OF mainnet_table_ok])
  then have immutable: "\<exists>c. get_immutable_checkpoint mainnet_table 200 = Some c \<and> cp_height c = 122"
    by (simp add: immutable_of_def mainnet_table_def hardcoded_buffer_def convert_mdb_val_to_checkpoint_def Let_def)
  obtain c where "get_checkpoints_range mainnet_table 0 200 1 = [c]" "cp_height c = 0"
    using first_is_genesis [OF mainnet_genesis, of 200] by (auto simp: mainnet_checkpoints_def)
  with immutable have "122 \<le> ck_immutable_height ?ck"
    by (auto simp: is_alternative_block_allowed_def mainnet_checkpoints_def Let_def)
  moreover have "has_genesis ?ck" using ck_step_keeps [OF ck_step.asked mainnet_genesis] by blast
  ultimately show ?thesis
    using immutable_height_is_final [of ?ck "checkpoints_detached 100 ?ck" 122 210] ck_step.detached by blast
qed

definition checkpoint_block :: block where
  "checkpoint_block = \<lparr>blk_major_version = 16, blk_minor_version = 16, blk_timestamp = 1000, blk_prev_id = 0,
     blk_miner_tx = \<lparr>tx_version = 4, tx_type = tx_standard, tx_unlock_time = 0, tx_vin = [txin_gen 200],
       tx_vout = [], tx_extra = [], tx_output_unlock_times = [], tx_rct_signatures = \<lparr>rct_type = 0, rct_data = []\<rparr>\<rparr>,
     blk_tx_hashes = [], blk_hash = 0\<rparr>"

definition quorum_checkpoint :: checkpoint_t where
  "quorum_checkpoint = \<lparr>cp_version = 0, cp_type = service_node, cp_height = 196, cp_block_hash = 77,
     cp_signatures = replicate 13 \<lparr>vs_voter_index = 0, vs_signature = 1\<rparr>, cp_prev_height = 0\<rparr>"

theorem block_added_returns_witness:
  "\<exists>ck'. checkpoints_block_added checkpoint_block (Some quorum_checkpoint) mainnet_checkpoints = ret (True, ck') \<and>
     map_of (ck_db ck') 0 = map_of mainnet_table 0"
proof -
  have "table_ok (ck_db mainnet_checkpoints)" by (simp add: mainnet_checkpoints_def mainnet_table_ok)
  moreover have "\<forall>e \<in> set (ck_db mainnet_checkpoints). unat (fst e) \<le> 2 ^ 64 - 4"
    by (simp add: mainnet_checkpoints_def mainnet_table_def hardcoded_buffer_def)
  moreover have "\<forall>d. Some quorum_checkpoint = Some d \<longrightarrow> length (cp_signatures d) \<le> CHECKPOINT_QUORUM_SIZE"
    by (simp add: quorum_checkpoint_def const_defs)
  ultimately obtain ck' where run:
      "checkpoints_block_added checkpoint_block (Some quorum_checkpoint) mainnet_checkpoints = ret (True, ck')"
    and keep: "\<forall>h. (\<forall>d. Some quorum_checkpoint = Some d \<longrightarrow> cp_height d \<noteq> h) \<and>
        (immutable_height (ck_db mainnet_checkpoints) (get_block_height checkpoint_block + 1) \<le> h \<or>
          h mod CHECKPOINT_STORE_PERSISTENTLY_INTERVAL = 0) \<longrightarrow>
        map_of (ck_db ck') h = map_of (ck_db mainnet_checkpoints) h"
    using block_added_returns [of mainnet_checkpoints "Some quorum_checkpoint" checkpoint_block] by blast
  have "cp_height quorum_checkpoint \<noteq> 0" by (simp add: quorum_checkpoint_def)
  with keep have "map_of (ck_db ck') 0 = map_of (ck_db mainnet_checkpoints) 0" by simp
  with run show ?thesis by (auto simp: mainnet_checkpoints_def)
qed

theorem stored_checkpoint_enforced_witness:
  "\<exists>ck'. update_checkpoint quorum_checkpoint mainnet_checkpoints = ret (True, ck') \<and>
     check_block ck' 196 78 = (False, True, True)"
proof -
  have "om_wf (ck_db mainnet_checkpoints)" using mainnet_table_ok by (simp add: mainnet_checkpoints_def table_ok_def)
  moreover have "length (cp_signatures quorum_checkpoint) \<le> CHECKPOINT_QUORUM_SIZE"
    by (simp add: quorum_checkpoint_def const_defs)
  moreover have "cp_height quorum_checkpoint = 196" "cp_block_hash quorum_checkpoint = 77" "cp_signatures quorum_checkpoint \<noteq> []"
    by (simp_all add: quorum_checkpoint_def)
  ultimately show ?thesis
    using stored_checkpoint_enforced [of mainnet_checkpoints quorum_checkpoint] by auto
qed

end
