(* ===== verification/Quorum_Cop.thy ===== *)
theory Quorum_Cop
  imports Uptime Checkpoints
begin

text \<open>
  The quorum cop (\<^verbatim>\<open>src/src/cryptonote_core/service_node_quorum_cop.cpp\<close>): a service node tests the
  workers of the quorums it is a validator of, votes on their state, votes for checkpoints, and turns
  the votes it collects into state change transactions and checkpoints.

  What the cop asks of the core is the record \<open>core_view\<close>; \<open>cv_accepts_tx\<close> is the verdict of the
  transaction pool on a transaction.  What its operations change is the record \<open>cop_world\<close>: the cop
  itself, the service node list, the stored checkpoints and the transactions handed to the pool.
  An access to a worker past the end of the list is the error \<open>worker_past_end\<close>; \<open>None\<close> is a loop
  that does not end.  The branch of \<^verbatim>\<open>process_quorums\<close> that tests the node itself only writes to the
  log and is left out, as are the log messages.
\<close>

section \<open>Data\<close>

record quorum_cop =
  qc_vote_pool :: voting_pool
  qc_obligations_height :: u64
  qc_last_checkpointed_height :: u64

record core_view =
  cv_crypto :: crypto_ops
  cv_current_blockchain_height :: u64
  cv_target_blockchain_height :: u64
  cv_start_time :: i64
  cv_time :: u64
  cv_hard_fork_version :: "u64 \<Rightarrow> u8"
  cv_current_hard_fork_version :: u8
  cv_get_block :: "u64 \<Rightarrow> block option"
  cv_block_id_by_height :: "u64 \<Rightarrow> hash256"
  cv_service_node_keys :: "service_node_keys option"
  cv_accepts_tx :: "transaction \<Rightarrow> bool"

record cop_world =
  w_cop :: quorum_cop
  w_list :: service_node_list
  w_checkpoints :: checkpoints
  w_submitted :: "transaction list"

datatype cop_error = worker_past_end | checkpoint_failure checkpoint_error

definition of_checkpoint_error :: "(checkpoint_error, 'a) outcome \<Rightarrow> (cop_error, 'a) outcome" where
  "of_checkpoint_error m = map_option (map_sum checkpoint_failure id) m"

definition map_cop :: "(quorum_cop \<Rightarrow> quorum_cop) \<Rightarrow> cop_world \<Rightarrow> cop_world" where
  "map_cop f w = w\<lparr>w_cop := f (w_cop w)\<rparr>"

definition map_pool :: "(voting_pool \<Rightarrow> voting_pool) \<Rightarrow> quorum_cop \<Rightarrow> quorum_cop" where
  "map_pool f qc = qc\<lparr>qc_vote_pool := f (qc_vote_pool qc)\<rparr>"

definition quorum_cop_init :: "quorum_cop \<Rightarrow> quorum_cop" where
  "quorum_cop_init qc = qc\<lparr>qc_obligations_height := 0, qc_last_checkpointed_height := 0\<rparr>"

definition reorg_safety_buffer :: "u8 \<Rightarrow> u64" where
  "reorg_safety_buffer hf_version =
     (if hf_version \<ge> network_version_12_checkpointing then REORG_SAFETY_BUFFER_BLOCKS_POST_HF12
      else REORG_SAFETY_BUFFER_BLOCKS_PRE_HF12)"

section \<open>Testing a node\<close>

record service_node_test_results =
  tr_uptime_proved :: bool
  tr_single_ip :: bool
  tr_voted_in_checkpoints :: bool
  tr_storage_server_reachable :: bool

definition passed :: "service_node_test_results \<Rightarrow> bool" where
  "passed r \<longleftrightarrow> tr_uptime_proved r \<and> tr_voted_in_checkpoints r \<and> tr_storage_server_reachable r"

definition single_ip :: "core_view \<Rightarrow> (u32 \<times> u64) \<times> (u32 \<times> u64) \<Rightarrow> service_node_info \<Rightarrow> bool" where
  "single_ip V ips info =
     (if fst (fst ips) \<noteq> 0 \<and> fst (snd ips) \<noteq> 0 then
        (case cv_get_block V (last_ip_change_height info) of
           None \<Rightarrow> True
         | Some blk \<Rightarrow>
             let find_ips_used_since = max (cv_time V - IP_CHANGE_WINDOW_IN_SECONDS)
                                           (blk_timestamp blk + IP_CHANGE_BUFFER_IN_SECONDS)
             in \<not> (snd (fst ips) > find_ips_used_since \<and> snd (snd ips) > find_ips_used_since))
      else True)"

definition check_service_node ::
    "core_view \<Rightarrow> service_node_list \<Rightarrow> u8 \<Rightarrow> public_key \<Rightarrow> service_node_info \<Rightarrow> service_node_test_results" where
  "check_service_node V nl hf_version pubkey info =
     (let (ss_reachable, timestamp, ips, votes) =
            (case map_of (nl_proofs nl) pubkey of
               None \<Rightarrow> (True, 0, ((0, 0), (0, 0)), empty_votes)
             | Some p \<Rightarrow> (pi_storage_server_reachable p, max (pi_timestamp p) (pi_effective_timestamp p),
                         pi_public_ips p, pi_votes p));
          time_since_last_uptime_proof = cv_time V - timestamp;
          missed_votes = length (filter (\<lambda>r. \<not> cvr_voted r) votes)
      in \<lparr>tr_uptime_proved = \<not> time_since_last_uptime_proof > UPTIME_PROOF_MAX_TIME_IN_SECONDS,
          tr_single_ip = single_ip V ips info,
          tr_voted_in_checkpoints =
            \<not> (\<not> is_decommissioned info \<and> missed_votes > CHECKPOINT_MAX_MISSABLE_VOTES
               \<and> hf_version \<ge> network_version_13_enforce_checkpoints),
          tr_storage_server_reachable =
            \<not> (\<not> ss_reachable \<and> hf_version \<ge> network_version_13_enforce_checkpoints)\<rparr>)"

text \<open>The credit in blocks; 64-bit signed numbers are read as integers.\<close>

definition calculate_decommission_credit :: "service_node_info \<Rightarrow> u64 \<Rightarrow> int" where
  "calculate_decommission_credit info current_height =
     (let blocks_up = (if is_decommissioned info
                       then sint (last_decommission_height info) - (- sint (active_since_height info))
                       else sint current_height - sint (active_since_height info));
          credit = (if blocks_up \<ge> 0 then
                      let credit = blocks_up * DECOMMISSION_CREDIT_PER_DAY div uint (BLOCKS_EXPECTED_IN_HOURS 24);
                          credit = (if unat (decommission_count info) \<le> (if is_decommissioned info then 1 else 0)
                                    then credit + DECOMMISSION_INITIAL_CREDIT else credit)
                      in if credit > DECOMMISSION_MAX_CREDIT then DECOMMISSION_MAX_CREDIT else credit
                    else 0)
      in if is_decommissioned info
         then credit - (sint current_height - sint (last_decommission_height info)) else credit)"

section \<open>Collecting votes\<close>

definition get_max_version_for_hf :: "u8 \<Rightarrow> u16" where
  "get_max_version_for_hf hf_version =
     (if hf_version \<ge> network_version_7 \<and> hf_version \<le> network_version_8 then 2
      else if hf_version \<ge> network_version_9_service_nodes \<and> hf_version \<le> network_version_10_bulletproofs
      then v3_per_output_unlock_times
      else 4)"

definition add_service_node_state_change_to_tx_extra ::
    "tx_extra_field list \<Rightarrow> tx_extra_service_node_state_change \<Rightarrow> u8 \<Rightarrow> tx_extra_field list option" where
  "add_service_node_state_change_to_tx_extra extra sc hf_version =
     (if hf_version < network_version_12_checkpointing then
        if sc_state sc \<noteq> deregister then None
        else Some (extra @ [extra_service_node_deregister_old
               \<lparr>dereg_block_height = sc_block_height sc, dereg_service_node_index = sc_service_node_index sc,
                dereg_votes = sc_votes sc\<rparr>])
      else Some (extra @ [extra_service_node_state_change sc]))"

definition state_change_of_votes :: "quorum_vote_t \<Rightarrow> pool_vote_entry list \<Rightarrow> tx_extra_service_node_state_change" where
  "state_change_of_votes vote votes =
     \<lparr>sc_state = qv_state vote, sc_block_height = qv_block_height vote,
      sc_service_node_index = ucast (qv_worker_index vote),
      sc_votes = map (\<lambda>e. \<lparr>scv_signature = qv_signature (pv_vote e),
                           scv_validator_index = ucast (qv_index_in_group (pv_vote e))\<rparr>) votes\<rparr>"

definition handle_obligations_vote ::
    "core_view \<Rightarrow> quorum_vote_t \<Rightarrow> pool_vote_entry list \<Rightarrow> quorum \<Rightarrow> cop_world \<Rightarrow> bool \<times> cop_world" where
  "handle_obligations_vote V vote votes q w =
     (if length votes < STATE_CHANGE_MIN_VOTES_TO_CHANGE_STATE then (True, w)
      else
        let hf_version = cv_current_hard_fork_version V;
            service_node_pubkey = workers q ! unat (qv_worker_index vote)
        in case get_service_node_list_state (nl_state (w_list w)) [service_node_pubkey] of
             [] \<Rightarrow> (True, w)
           | entry # _ \<Rightarrow>
               if \<not> can_transition_to_state (snd entry) hf_version (qv_block_height vote) (qv_state vote) then (True, w)
               else
                 (case add_service_node_state_change_to_tx_extra [] (state_change_of_votes vote votes) hf_version of
                    None \<Rightarrow> (True, w)
                  | Some extra \<Rightarrow>
                      let state_change_tx = \<lparr>tx_version = get_max_version_for_hf hf_version, tx_type = tx_state_change,
                            tx_unlock_time = 0, tx_vin = [], tx_vout = [], tx_extra = extra,
                            tx_output_unlock_times = [], tx_rct_signatures = \<lparr>rct_type = RCTTypeNull, rct_data = []\<rparr>\<rparr>
                      in (cv_accepts_tx V state_change_tx, w\<lparr>w_submitted := w_submitted w @ [state_change_tx]\<rparr>)))"

definition signature_of_vote :: "quorum_vote_t \<Rightarrow> voter_to_signature" where
  "signature_of_vote vote = \<lparr>vs_voter_index = qv_index_in_group vote, vs_signature = qv_signature vote\<rparr>"

text \<open>Insertion of the signatures of the votes whose voter has none yet, with the flag of a change.\<close>

definition merge_signature :: "pool_vote_entry \<Rightarrow> bool \<times> voter_to_signature list \<Rightarrow> bool \<times> voter_to_signature list" where
  "merge_signature pool_vote state =
     (let (update_checkpoint, signatures) = state;
          index = qv_index_in_group (pv_vote pool_vote);
          smaller = (\<lambda>s. vs_voter_index s < index);
          before = takeWhile smaller signatures; after = dropWhile smaller signatures
      in if after = [] \<or> index \<noteq> vs_voter_index (hd after)
         then (True, before @ signature_of_vote (pv_vote pool_vote) # after)
         else (update_checkpoint, signatures))"

definition checkpoint_of_votes ::
    "quorum_vote_t \<Rightarrow> pool_vote_entry list \<Rightarrow> checkpoint_t option \<Rightarrow> bool \<times> checkpoint_t" where
  "checkpoint_of_votes vote votes stored =
     (let fresh = (make_empty_service_node_checkpoint (qv_block_hash vote) (qv_block_height vote))
            \<lparr>cp_signatures := map (\<lambda>e. signature_of_vote (pv_vote e)) votes\<rparr>
      in case stored of
           None \<Rightarrow> (True, fresh)
         | Some checkpoint \<Rightarrow>
             if cp_block_hash checkpoint = qv_block_hash vote then
               if length (cp_signatures checkpoint) \<noteq> CHECKPOINT_QUORUM_SIZE then
                 let (update_checkpoint, signatures) =
                       fold merge_signature votes (False, sort_key vs_voter_index (cp_signatures checkpoint))
                 in (update_checkpoint, checkpoint\<lparr>cp_signatures := signatures\<rparr>)
               else (False, checkpoint)
             else (True, fresh))"

definition handle_checkpoint_vote ::
    "quorum_vote_t \<Rightarrow> pool_vote_entry list \<Rightarrow> cop_world \<Rightarrow> (cop_error, bool \<times> cop_world) outcome" where
  "handle_checkpoint_vote vote votes w =
     (if length votes < CHECKPOINT_MIN_VOTES then ret (True, w)
      else
        let (changed, checkpoint) = checkpoint_of_votes vote votes (get_checkpoint (w_checkpoints w) (qv_block_height vote))
        in if changed
           then rbind (of_checkpoint_error (update_checkpoint checkpoint (w_checkpoints w))) (\<lambda>(ok, ck).
                  ret (True, w\<lparr>w_checkpoints := ck\<rparr>))
           else ret (True, w))"

definition handle_vote ::
    "core_view \<Rightarrow> quorum_vote_t \<Rightarrow> cop_world \<Rightarrow> (cop_error, bool \<times> vote_verification_context \<times> cop_world) outcome" where
  "handle_vote V vote w =
     (let (ok, vvc) = verify_vote_age vote (cv_current_blockchain_height V) clean_vvc
      in if \<not> ok then ret (False, vvc, w)
         else
           case fst (get_quorum (w_list w) (qv_type vote) (qv_block_height vote) False) of
             None \<Rightarrow> ret (False, vvc\<lparr>m_invalid_block_height := True\<rparr>, w)
           | Some q \<Rightarrow>
               let (ok, vvc) = verify_vote_signature (cv_crypto V) vote vvc q
               in if \<not> ok then ret (False, vvc, w)
                  else
                    let (votes, vvc, pool) = add_pool_vote_if_unique vote vvc (qc_vote_pool (w_cop w));
                        w = map_cop (map_pool (\<lambda>_. pool)) w
                    in if \<not> vote_verification_context.m_added_to_pool vvc then ret (True, vvc, w)
                       else
                         (case qv_type vote of
                            obligations \<Rightarrow>
                              (let (result, w) = handle_obligations_vote V vote votes q w in ret (result, vvc, w))
                          | checkpointing \<Rightarrow>
                              rbind (handle_checkpoint_vote vote votes w) (\<lambda>(result, w). ret (result, vvc, w))
                          | _ \<Rightarrow> ret (False, vvc, w)))"

section \<open>Voting on the workers of a quorum\<close>

text \<open>The state to vote for, or none.\<close>

definition state_to_vote_for ::
    "core_view \<Rightarrow> service_node_list \<Rightarrow> u8 \<Rightarrow> u8 \<Rightarrow> u64 \<Rightarrow> public_key \<Rightarrow> service_node_info \<Rightarrow> new_state option" where
  "state_to_vote_for V nl hf_version obligations_height_hf_version latest_height node_key info =
     (let test_results = check_service_node V nl obligations_height_hf_version node_key info
      in if passed test_results then
           if is_decommissioned info then Some recommission
           else if \<not> tr_single_ip test_results then Some ip_change_penalty
           else None
         else
           let credit = calculate_decommission_credit info latest_height
           in if is_decommissioned info then
                if credit \<ge> 0 then None
                else if hf_version < network_version_16 then Some deregister
                else Some recommission
              else if credit \<ge> DECOMMISSION_MINIMUM then Some decommission
              else if hf_version < network_version_16 then Some deregister
              else Some recommission)"

definition vote_on_worker ::
    "core_view \<Rightarrow> u8 \<Rightarrow> u8 \<Rightarrow> u64 \<Rightarrow> u64 \<Rightarrow> u16 \<Rightarrow> service_node_keys \<Rightarrow> public_key \<times> service_node_info \<Rightarrow> nat \<Rightarrow>
      cop_world \<Rightarrow> (cop_error, cop_world) outcome" where
  "vote_on_worker V hf_version obligations_hf latest_height obligations_height index_in_group my_keys entry node_index w =
     (if \<not> can_be_voted_on (snd entry) obligations_height then ret w
      else
        case state_to_vote_for V (w_list w) hf_version obligations_hf latest_height (fst entry) (snd entry) of
          None \<Rightarrow> ret w
        | Some vote_for_state \<Rightarrow>
            let vote = make_state_change_vote (cv_crypto V) obligations_height index_in_group (of_nat node_index)
                         vote_for_state my_keys
            in rbind (handle_vote V vote w) (\<lambda>(ok, vvc, w). ret w))"

text \<open>
  The inner loop that skips the workers that are gone: it reads the worker at the index before it
  compares the index with the size.
\<close>

function skip_workers :: "public_key list \<Rightarrow> public_key \<Rightarrow> nat \<Rightarrow> nat option" where
  "skip_workers workers_list key node_index =
     (if node_index < length workers_list then
        if key \<noteq> workers_list ! node_index then skip_workers workers_list key (node_index + 1) else Some node_index
      else None)"
  by pat_completeness auto

termination
  by (relation "measure (\<lambda>(workers_list, key, node_index). length workers_list - node_index)") auto

declare skip_workers.simps [simp del]

fun vote_on_workers ::
    "(public_key \<times> service_node_info \<Rightarrow> nat \<Rightarrow> cop_world \<Rightarrow> (cop_error, cop_world) outcome) \<Rightarrow> public_key list \<Rightarrow>
      (public_key \<times> service_node_info) list \<Rightarrow> nat \<Rightarrow> cop_world \<Rightarrow> (cop_error, cop_world) outcome" where
  "vote_on_workers vote_on workers_list [] node_index w =
     (if node_index < length workers_list then throw worker_past_end else ret w)"
| "vote_on_workers vote_on workers_list (entry # worker_states) node_index w =
     (if node_index < length workers_list then
        (case skip_workers workers_list (fst entry) node_index of
           None \<Rightarrow> throw worker_past_end
         | Some node_index \<Rightarrow>
             rbind (vote_on entry node_index w) (\<lambda>w.
               vote_on_workers vote_on workers_list worker_states (node_index + 1) w))
      else ret w)"

definition find_index_in_quorum_group :: "public_key list \<Rightarrow> public_key \<Rightarrow> int" where
  "find_index_in_quorum_group grp my_pubkey =
     (let i = length (takeWhile (\<lambda>k. k \<noteq> my_pubkey) grp) in if i = length grp then - 1 else int i)"

section \<open>Processing the quorums of a block\<close>

definition record_checkpoint_votes :: "core_view \<Rightarrow> u64 \<Rightarrow> cop_world \<Rightarrow> cop_world" where
  "record_checkpoint_votes V obligations_height w =
     (case fst (get_quorum (w_list w) checkpointing obligations_height False) of
        None \<Rightarrow> w
      | Some q \<Rightarrow>
          (case cv_get_block V obligations_height of
             None \<Rightarrow> w
           | Some blk \<Rightarrow>
               if sint (cv_start_time V) < sint (blk_timestamp blk) then
                 let quorum_height = offset_testing_quorum_height checkpointing obligations_height
                 in w\<lparr>w_list := fold (\<lambda>index_in_quorum. record_checkpoint_vote (validators q ! index_in_quorum) quorum_height
                        (received_checkpoint_vote obligations_height index_in_quorum (qc_vote_pool (w_cop w))))
                      [0 ..< length (validators q)] (w_list w)\<rparr>
               else w))"

definition live_time :: "core_view \<Rightarrow> int" where
  "live_time V = sint (ucast (cv_time V - cv_start_time V) :: u32)"

definition obligations_at ::
    "core_view \<Rightarrow> u8 \<Rightarrow> u64 \<Rightarrow> bool \<Rightarrow> u64 \<Rightarrow> cop_world \<Rightarrow> (cop_error, cop_world) outcome" where
  "obligations_at V hf_version latest_height voting_enabled obligations_height w =
     (let obligations_hf = cv_hard_fork_version V obligations_height
      in if obligations_hf < network_version_9_service_nodes then ret w
         else
           let w = (if obligations_hf \<ge> network_version_12_checkpointing
                    then record_checkpoint_votes V obligations_height w else w)
           in if \<not> live_time V \<ge> sint MIN_TIME_IN_S_BEFORE_VOTING then ret w
              else
                case cv_service_node_keys V of
                  None \<Rightarrow> ret w
                | Some my_keys \<Rightarrow>
                    (case fst (get_quorum (w_list w) obligations obligations_height False) of
                       None \<Rightarrow> ret w
                     | Some q \<Rightarrow>
                         if workers q = [] then ret w
                         else
                           let index_in_group = (if voting_enabled
                                 then find_index_in_quorum_group (validators q) (sn_pub my_keys) else - 1)
                           in if index_in_group \<ge> 0
                              then vote_on_workers
                                     (vote_on_worker V hf_version obligations_hf latest_height obligations_height
                                        (word_of_int index_in_group) my_keys)
                                     (workers q) (get_service_node_list_state (nl_state (w_list w)) (workers q)) 0 w
                              else ret w))"

function obligations_loop ::
    "(u64 \<Rightarrow> cop_world \<Rightarrow> (cop_error, cop_world) outcome) \<Rightarrow> u64 \<Rightarrow> u64 \<Rightarrow> cop_world \<Rightarrow> (cop_error, cop_world) outcome" where
  "obligations_loop body end_height obligations_height w =
     (if obligations_height < end_height
      then rbind (body obligations_height w) (\<lambda>w. obligations_loop body end_height (obligations_height + 1) w)
      else ret (map_cop (\<lambda>qc. qc\<lparr>qc_obligations_height := obligations_height\<rparr>) w))"
  by pat_completeness auto

termination
  by (relation "measure (\<lambda>(body, end_height, obligations_height, w). unat end_height - unat obligations_height)")
    (auto simp: next_obligations_height word_less_nat_alt)

declare obligations_loop.simps [simp del]

definition checkpoint_at :: "core_view \<Rightarrow> u64 \<Rightarrow> service_node_keys \<Rightarrow> u64 \<Rightarrow> cop_world \<Rightarrow> (cop_error, cop_world) outcome" where
  "checkpoint_at V buffer my_keys height w =
     (let hf_version = cv_hard_fork_version V height
      in if hf_version \<le> network_version_11_infinite_staking then ret w
         else if height < buffer then ret w
         else
           case fst (get_quorum (w_list w) checkpointing height False) of
             None \<Rightarrow> ret w
           | Some q \<Rightarrow>
               let index_in_group = find_index_in_quorum_group (validators q) (sn_pub my_keys)
               in if index_in_group \<le> - 1 then ret w
                  else
                    let vote = make_checkpointing_vote (cv_crypto V) (cv_block_id_by_height V height) height
                                 (word_of_int index_in_group) my_keys
                    in rbind (handle_vote V vote w) (\<lambda>(ok, vvc, w). ret w))"

partial_function (option) checkpoint_loop ::
    "(u64 \<Rightarrow> cop_world \<Rightarrow> (cop_error, cop_world) outcome) \<Rightarrow> u64 \<Rightarrow> u64 \<Rightarrow> cop_world \<Rightarrow> (cop_error, cop_world) outcome" where
  "checkpoint_loop body height last_checkpointed w =
     (if last_checkpointed \<le> height
      then rbind (body last_checkpointed w) (\<lambda>w. checkpoint_loop body height (last_checkpointed + CHECKPOINT_INTERVAL) w)
      else ret (map_cop (\<lambda>qc. qc\<lparr>qc_last_checkpointed_height := last_checkpointed\<rparr>) w))"

definition start_checkpointing_height :: "u64 \<Rightarrow> u64" where
  "start_checkpointing_height start_voting_from_height =
     (if start_voting_from_height mod CHECKPOINT_INTERVAL > 0
      then start_voting_from_height + (CHECKPOINT_INTERVAL - start_voting_from_height mod CHECKPOINT_INTERVAL)
      else start_voting_from_height)"

definition process_quorum_type ::
    "core_view \<Rightarrow> u8 \<Rightarrow> u64 \<Rightarrow> u64 \<Rightarrow> bool \<Rightarrow> quorum_type \<Rightarrow> cop_world \<Rightarrow> (cop_error, cop_world) outcome" where
  "process_quorum_type V hf_version height latest_height voting_enabled type w =
     (let start_voting_from_height = latest_height - VOTE_LIFETIME; buffer = reorg_safety_buffer hf_version
      in case type of
           obligations \<Rightarrow>
             obligations_loop (obligations_at V hf_version latest_height voting_enabled) (height - buffer)
               (max (qc_obligations_height (w_cop w)) start_voting_from_height) w
         | checkpointing \<Rightarrow>
             (case cv_service_node_keys V of
                None \<Rightarrow> ret w
              | Some my_keys \<Rightarrow>
                  if voting_enabled
                  then checkpoint_loop (checkpoint_at V buffer my_keys) height
                         (max (start_checkpointing_height start_voting_from_height) (qc_last_checkpointed_height (w_cop w))) w
                  else ret w)
         | _ \<Rightarrow> ret w)"

text \<open>The quorum types in the order of their values up to the highest of the hard fork.\<close>

definition quorum_types_upto :: "quorum_type \<Rightarrow> quorum_type list" where
  "quorum_types_upto most = filter (\<lambda>t. quorum_type_value t \<le> quorum_type_value most) [obligations, checkpointing, blink]"

fun process_quorum_types ::
    "(quorum_type \<Rightarrow> cop_world \<Rightarrow> (cop_error, cop_world) outcome) \<Rightarrow> quorum_type list \<Rightarrow> cop_world \<Rightarrow>
      (cop_error, cop_world) outcome" where
  "process_quorum_types process [] w = ret w"
| "process_quorum_types process (t # ts) w = rbind (process t w) (process_quorum_types process ts)"

definition process_quorums :: "core_view \<Rightarrow> block \<Rightarrow> cop_world \<Rightarrow> (cop_error, cop_world) outcome" where
  "process_quorums V blk w =
     (let hf_version = blk_major_version blk
      in if hf_version < network_version_9_service_nodes then ret w
         else
           let voting_enabled = (case cv_service_node_keys V of
                                   None \<Rightarrow> False
                                 | Some my_keys \<Rightarrow> is_service_node (nl_state (w_list w)) (sn_pub my_keys) True);
               height = get_block_height blk;
               latest_height = max (cv_current_blockchain_height V) (cv_target_blockchain_height V)
           in if latest_height < VOTE_LIFETIME then ret w
              else if height < latest_height - VOTE_LIFETIME then ret w
              else process_quorum_types (process_quorum_type V hf_version height latest_height voting_enabled)
                     (quorum_types_upto (max_quorum_type_for_hf hf_version)) w)"

definition quorum_cop_block_added ::
    "core_view \<Rightarrow> block \<Rightarrow> transaction list \<Rightarrow> cop_world \<Rightarrow> (cop_error, bool \<times> cop_world) outcome" where
  "quorum_cop_block_added V blk txs w =
     rbind (process_quorums V blk w) (\<lambda>w.
       ret (True, map_cop (map_pool (remove_used_votes txs (blk_major_version blk)
         \<circ> remove_expired_votes (get_block_height blk + 1))) w))"

definition quorum_cop_detached :: "core_view \<Rightarrow> u64 \<Rightarrow> quorum_cop \<Rightarrow> quorum_cop" where
  "quorum_cop_detached V height qc =
     (let buffer = reorg_safety_buffer (cv_hard_fork_version V height);
          qc = (if qc_obligations_height qc \<ge> height then qc\<lparr>qc_obligations_height := height\<rparr> else qc);
          qc = (if qc_last_checkpointed_height qc \<ge> height + buffer
                then qc\<lparr>qc_last_checkpointed_height := height - height mod CHECKPOINT_INTERVAL\<rparr> else qc)
      in map_pool (remove_expired_votes height) qc)"

definition set_votes_relayed :: "u64 \<Rightarrow> quorum_vote_t list \<Rightarrow> quorum_cop \<Rightarrow> quorum_cop" where
  "set_votes_relayed now relayed_votes qc = map_pool (set_relayed now relayed_votes) qc"

section \<open>Checksums of quorums\<close>

definition checksum_word :: "public_key \<Rightarrow> nat \<Rightarrow> u64" where
  "checksum_word pk offset =
     (let pkdata = be_bytes 32 pk
      in if offset \<le> 32 - 8 then of_le_bytes (take 8 (drop offset pkdata))
         else
           let prewrap = 32 - offset
           in of_le_bytes (take prewrap (drop offset pkdata) @ take (8 - prewrap) pkdata))"

fun checksum_loop :: "public_key list \<Rightarrow> nat \<Rightarrow> u64 \<Rightarrow> u64" where
  "checksum_loop [] offset acc = acc"
| "checksum_loop (pk # pubkeys) offset acc =
     (let offset = offset mod 32 in checksum_loop pubkeys (offset + 1) (acc + checksum_word pk offset))"

definition quorum_checksum :: "public_key list \<Rightarrow> nat \<Rightarrow> u64" where
  "quorum_checksum pubkeys offset = checksum_loop pubkeys offset 0"

section \<open>Decommission credit\<close>

lemmas credit_consts = DECOMMISSION_CREDIT_PER_DAY_def DECOMMISSION_INITIAL_CREDIT_def DECOMMISSION_MAX_CREDIT_def
  DECOMMISSION_MINIMUM_def BLOCKS_EXPECTED_IN_HOURS_def DIFFICULTY_TARGET_V2_def

definition earned_credit :: "service_node_info \<Rightarrow> int \<Rightarrow> int" where
  "earned_credit info blocks_up =
     (if blocks_up \<ge> 0 then
        min DECOMMISSION_MAX_CREDIT (blocks_up * DECOMMISSION_CREDIT_PER_DAY div uint (BLOCKS_EXPECTED_IN_HOURS 24)
          + (if unat (decommission_count info) \<le> (if is_decommissioned info then 1 else 0)
             then DECOMMISSION_INITIAL_CREDIT else 0))
      else 0)"

lemma earned_credit_bounds: "0 \<le> earned_credit info blocks_up \<and> earned_credit info blocks_up \<le> 1440"
  by (simp add: earned_credit_def credit_consts)

lemma calculate_decommission_credit_eq:
  "calculate_decommission_credit info height =
     (if is_decommissioned info
      then earned_credit info (sint (last_decommission_height info) + sint (active_since_height info))
        - (sint height - sint (last_decommission_height info))
      else earned_credit info (sint height - sint (active_since_height info)))"
  by (simp add: calculate_decommission_credit_def earned_credit_def Let_def min_def)

text \<open>
  C35: the decommission credit of an active node is between 0 and 1440 blocks (two days); a
  decommissioned node starts with the credit it had and loses one block of it with every block, so
  after more than 1440 blocks of downtime its credit is negative, whatever it had earned.
\<close>

theorem decommission_credit_runs_out:
  "(\<not> is_decommissioned info \<longrightarrow>
      0 \<le> calculate_decommission_credit info height \<and> calculate_decommission_credit info height \<le> 1440) \<and>
   (is_decommissioned info \<longrightarrow>
      calculate_decommission_credit info height' =
        calculate_decommission_credit info height - (sint height' - sint height) \<and>
      (sint height > sint (last_decommission_height info) + 1440 \<longrightarrow> calculate_decommission_credit info height < 0))"
proof -
  have "earned_credit info (sint (last_decommission_height info) + sint (active_since_height info)) \<le> 1440"
    and "0 \<le> earned_credit info (sint height - sint (active_since_height info))"
    and "earned_credit info (sint height - sint (active_since_height info)) \<le> 1440"
    using earned_credit_bounds by blast+
  then show ?thesis by (auto simp: calculate_decommission_credit_eq)
qed

theorem decommission_credit_runs_out_witness:
  "is_decommissioned (default_info\<lparr>active_since_height := - 100, last_decommission_height := 5000\<rparr>) \<and>
   calculate_decommission_credit (default_info\<lparr>active_since_height := - 100, last_decommission_height := 5000\<rparr>) 6441 < 0"
proof -
  let ?i = "default_info\<lparr>active_since_height := - 100, last_decommission_height := 5000\<rparr>"
  have d: "is_decommissioned ?i" by (simp add: is_decommissioned_def)
  moreover have "sint (6441 :: u64) > sint (last_decommission_height ?i) + 1440" by simp
  ultimately show ?thesis using decommission_credit_runs_out [of ?i 6441 6441] by blast
qed

text \<open>The first branch of the source has no effect: a node without its full stake earns credit as well.\<close>

lemma unfunded_node_earns_credit:
  assumes "\<not> is_fully_funded info" and "active_since_height info = 0" and "sint height \<ge> 43200"
  shows "calculate_decommission_credit info height = DECOMMISSION_MAX_CREDIT"
  using assms by (simp add: calculate_decommission_credit_eq earned_credit_def is_decommissioned_def credit_consts)

section \<open>Votes of hard fork 16\<close>

lemma state_to_vote_for_failing:
  assumes "is_active info" and "\<not> passed (check_service_node V nl obligations_hf key info)"
    and "calculate_decommission_credit info latest_height < DECOMMISSION_MINIMUM"
  shows "state_to_vote_for V nl hf obligations_hf latest_height key info =
    Some (if hf < network_version_16 then deregister else recommission)"
  using assms by (simp add: state_to_vote_for_def Let_def is_active_def)

text \<open>
  from hard fork 16 on, a validator votes to recommission an active node that fails its tests
  and has too little credit to be decommissioned.  Such votes never have an effect: however many
  are collected, no transaction is made of them, since an active node cannot be recommissioned.
  Before, the vote was to deregister the node.
\<close>

theorem failing_node_stays_active_from_hf16:
  assumes "is_active info" and "\<not> passed (check_service_node V nl obligations_hf key info)"
    and "calculate_decommission_credit info latest_height < DECOMMISSION_MINIMUM"
    and "map_of (infos_of (nl_state (w_list w))) key = Some info"
    and "workers q ! unat (qv_worker_index vote) = key" and "qv_state vote = recommission"
  shows "state_to_vote_for V nl hf obligations_hf latest_height key info =
           Some (if hf < network_version_16 then deregister else recommission) \<and>
         handle_obligations_vote V vote votes q w = (True, w)"
proof -
  have "get_service_node_list_state (nl_state (w_list w)) [key] = [(key, info)]"
    using assms(4) by (simp add: get_service_node_list_state_def map_filter_simps)
  moreover have "\<not> can_transition_to_state info hf' h recommission" for hf' h
    using assms(1) by (simp add: can_transition_to_state_def is_active_def)
  ultimately have "handle_obligations_vote V vote votes q w = (True, w)"
    using assms(5,6) by (simp add: handle_obligations_vote_def)
  with state_to_vote_for_failing [OF assms(1-3)] show ?thesis by simp
qed

section \<open>Workers that are gone\<close>

lemma skip_workers_index:
  "skip_workers ws key i = Some j \<Longrightarrow> i \<le> j \<and> j < length ws \<and> ws ! j = key"
proof (induction ws key i rule: skip_workers.induct)
  case (1 ws key i)
  then show ?case by (subst (asm) (2) skip_workers.simps) (auto split: if_splits)
qed

lemma vote_on_workers_gone:
  assumes "ws \<noteq> []" and "last ws \<notin> fst ` set states" and "i < length ws"
  shows "vote_on_workers vote_on ws states i w \<noteq> ret w'"
  using assms(2,3)
proof (induction states arbitrary: i w)
  case (Cons e states)
  show ?case
  proof (cases "skip_workers ws (fst e) i")
    case None
    then show ?thesis using Cons.prems by simp
  next
    case (Some j)
    note j = skip_workers_index [OF Some]
    have "j \<noteq> length ws - 1" using j Cons.prems assms(1) by (auto simp: last_conv_nth)
    then have "j + 1 < length ws" using j by linarith
    with Cons.IH Cons.prems Some show ?thesis by (simp add: rbind_eq_ret_iff)
  qed
qed simp

text \<open>
  the loop over the workers of an obligations quorum never completes when the last worker is no
  longer registered: after the states of the registered workers are used up it reads the
  worker past the end of the list, since it looks for the next match before it tests for the end.
\<close>

theorem unregistered_last_worker_not_handled:
  assumes "workers q \<noteq> []" and "map_of (infos_of st) (last (workers q)) = None"
  shows "vote_on_workers vote_on (workers q) (get_service_node_list_state st (workers q)) 0 w \<noteq> ret w'"
proof (rule vote_on_workers_gone [OF assms(1)])
  show "last (workers q) \<notin> fst ` set (get_service_node_list_state st (workers q))"
    using assms by (auto simp: get_service_node_list_state_def List.map_filter_def)
qed (use assms(1) in simp)

section \<open>Examples\<close>

definition cop_view :: core_view where
  "cop_view = \<lparr>cv_crypto = example_crypto, cv_current_blockchain_height = 1010, cv_target_blockchain_height = 0,
     cv_start_time = 0, cv_time = 1000000, cv_hard_fork_version = \<lambda>_. 16, cv_current_hard_fork_version = 16,
     cv_get_block = \<lambda>_. None, cv_block_id_by_height = \<lambda>_. 7, cv_service_node_keys = None, cv_accepts_tx = \<lambda>_. True\<rparr>"

definition new_node :: service_node_info where
  "new_node = default_info\<lparr>active_since_height := 1000, decommission_count := 1\<rparr>"

definition cop_list :: "(public_key \<times> service_node_info) list \<Rightarrow> service_node_list" where
  "cop_list infos = proof_list\<lparr>nl_state := initial_state\<lparr>st_service_nodes_infos := infos, st_height := 989,
     st_quorums := empty_quorums\<lparr>qm_obligations := Some \<lparr>validators = [11, 12, 13, 14, 15, 16, 17], workers = [21, 22]\<rparr>,
       qm_checkpointing := Some \<lparr>validators = map of_nat [100 ..< 120], workers = []\<rparr>\<rparr>\<rparr>\<rparr>"

definition cop_example_world :: "(public_key \<times> service_node_info) list \<Rightarrow> cop_world" where
  "cop_example_world infos = \<lparr>w_cop = \<lparr>qc_vote_pool = empty_voting_pool, qc_obligations_height = 0,
     qc_last_checkpointed_height = 0\<rparr>, w_list = cop_list infos, w_checkpoints = mainnet_checkpoints, w_submitted = []\<rparr>"

theorem failing_node_stays_active_from_hf16_witness:
  "state_to_vote_for cop_view (cop_list []) 16 16 1010 21 new_node = Some recommission \<and>
     handle_obligations_vote cop_view (empty_vote\<lparr>qv_state := recommission\<rparr>) [] \<lparr>validators = [], workers = [21]\<rparr>
       (cop_example_world [(21, new_node)]) = (True, cop_example_world [(21, new_node)])"
proof -
  let ?q = "\<lparr>validators = [], workers = [21]\<rparr>" and ?v = "empty_vote\<lparr>qv_state := recommission\<rparr>"
  have "is_active new_node"
    by (simp add: is_active_def is_fully_funded_def is_decommissioned_def new_node_def default_info_def)
  moreover have "\<not> passed (check_service_node cop_view (cop_list []) 16 21 new_node)"
    by (simp add: passed_def check_service_node_def cop_view_def cop_list_def proof_list_def const_defs)
  moreover have "calculate_decommission_credit new_node 1010 < DECOMMISSION_MINIMUM"
    by (simp add: calculate_decommission_credit_eq earned_credit_def is_decommissioned_def new_node_def default_info_def credit_consts)
  moreover have "map_of (infos_of (nl_state (w_list (cop_example_world [(21, new_node)])))) 21 = Some new_node"
    by (simp add: cop_example_world_def cop_list_def)
  moreover have "workers ?q ! unat (qv_worker_index ?v) = 21" "qv_state ?v = recommission" by (simp_all add: empty_vote_def)
  ultimately have "state_to_vote_for cop_view (cop_list []) 16 16 1010 21 new_node =
        Some (if (16 :: u8) < network_version_16 then deregister else recommission) \<and>
      handle_obligations_vote cop_view ?v [] ?q (cop_example_world [(21, new_node)]) = (True, cop_example_world [(21, new_node)])"
    by (rule failing_node_stays_active_from_hf16)
  then show ?thesis by (simp add: const_defs)
qed

theorem unregistered_last_worker_not_handled_witness:
  "\<forall>w'. vote_on_workers (\<lambda>_ _. ret) [21, 22]
     (get_service_node_list_state (initial_state\<lparr>st_service_nodes_infos := [(21, new_node)]\<rparr>) [21, 22]) 0
     (cop_example_world [(21, new_node)]) \<noteq> ret w'"
  using unregistered_last_worker_not_handled [of "\<lparr>validators = [], workers = [21, 22]\<rparr>"
      "initial_state\<lparr>st_service_nodes_infos := [(21, new_node)]\<rparr>"] by simp

section \<open>The loops end\<close>

definition ends :: "('e, 'a) outcome \<Rightarrow> bool" where
  "ends m \<longleftrightarrow> m \<noteq> None"

lemma ends_rbind: "ends m \<Longrightarrow> (\<And>x. ends (f x)) \<Longrightarrow> ends (rbind m f)"
  by (auto simp: ends_def rbind_def split: sum.split)

lemma ends_simple [simp]: "ends (ret x)" "ends (throw e)"
  by (simp_all add: ends_def ret_def throw_def)

lemma ends_update_checkpoint: "ends (update_checkpoint c ck)"
  by (auto simp: update_checkpoint_def update_block_checkpoint_def intro!: ends_rbind split: option.split)

lemma ends_of_checkpoint_error: "ends m \<Longrightarrow> ends (of_checkpoint_error m)"
  by (simp add: ends_def of_checkpoint_error_def)

lemma ends_handle_checkpoint_vote: "ends (handle_checkpoint_vote vote votes w)"
  by (auto simp: handle_checkpoint_vote_def Let_def ends_update_checkpoint
      intro!: ends_rbind ends_of_checkpoint_error split: prod.split)

lemma ends_handle_vote: "ends (handle_vote V vote w)"
  by (auto simp: handle_vote_def Let_def ends_handle_checkpoint_vote intro!: ends_rbind
      split: prod.split option.split quorum_type.split)

lemma ends_vote_on_worker: "ends (vote_on_worker V hf ohf latest h i keys e n w)"
  by (auto simp: vote_on_worker_def Let_def ends_handle_vote intro!: ends_rbind split: option.split)

lemma ends_vote_on_workers:
  "(\<And>e n w. ends (vote_on e n w)) \<Longrightarrow> ends (vote_on_workers vote_on ws states i w)"
  by (induction states arbitrary: i w) (auto intro!: ends_rbind split: option.split)

lemma ends_obligations_at: "ends (obligations_at V hf latest voting h w)"
  by (auto simp: obligations_at_def Let_def ends_vote_on_workers ends_vote_on_worker split: option.split)

lemma ends_checkpoint_at: "ends (checkpoint_at V buffer keys h w)"
  by (auto simp: checkpoint_at_def Let_def ends_handle_vote intro!: ends_rbind split: option.split)

text \<open>The heights that the obligations loop visits.\<close>

fun run_heights ::
    "(u64 \<Rightarrow> cop_world \<Rightarrow> (cop_error, cop_world) outcome) \<Rightarrow> u64 list \<Rightarrow> cop_world \<Rightarrow> (cop_error, cop_world) outcome" where
  "run_heights body [] w = ret w"
| "run_heights body (h # hs) w = rbind (body h w) (run_heights body hs)"

lemma obligations_loop_heights:
  "obligations_loop body e h w = rbind (run_heights body (heights_between h e) w)
     (\<lambda>w. ret (map_cop (\<lambda>qc. qc\<lparr>qc_obligations_height := max h e\<rparr>) w))"
proof (induction "unat e - unat h" arbitrary: h w)
  case 0
  then have "\<not> h < e" by (simp add: word_less_nat_alt)
  moreover from this have "max h e = h" by simp
  moreover have "heights_between h e = []" using 0 by (simp add: heights_between_def)
  ultimately show ?case by (simp add: obligations_loop.simps [of body e h w])
next
  case (Suc n)
  then have less: "h < e" by (simp add: word_less_nat_alt)
  have "n = unat e - unat (h + 1)" using Suc(2) next_obligations_height [OF less] by simp
  from Suc(1) [OF this] have IH: "obligations_loop body e (h + 1) = (\<lambda>w. rbind (run_heights body (heights_between (h + 1) e) w)
      (\<lambda>w. ret (map_cop (\<lambda>qc. qc\<lparr>qc_obligations_height := max (h + 1) e\<rparr>) w)))" by (rule ext)
  have "max (h + 1) e = max h e"
    using less next_obligations_height [OF less] by (auto simp: max_def word_le_nat_alt word_less_nat_alt word_unat_eq_iff)
  then show ?case
    using less by (subst obligations_loop.simps) (simp add: IH heights_between_step rbind_assoc)
qed

lemma ends_run_heights: "(\<And>h w. ends (body h w)) \<Longrightarrow> ends (run_heights body hs w)"
  by (induction hs arbitrary: w) (auto intro!: ends_rbind)

lemma ends_obligations_loop: "(\<And>h w. ends (body h w)) \<Longrightarrow> ends (obligations_loop body e h w)"
  by (auto simp: obligations_loop_heights ends_run_heights intro!: ends_rbind)

lemma ends_checkpoint_loop:
  assumes "\<And>h w. ends (body h w)" and "unat height \<le> 2 ^ 64 - 5"
  shows "ends (checkpoint_loop body height c w)"
proof (induction "Suc (unat height) - unat c" arbitrary: c w rule: less_induct)
  case less
  show ?case
  proof (cases "c \<le> height")
    case True
    then have "unat (c + CHECKPOINT_INTERVAL) = unat c + 4"
      using assms(2) unat_add_no_wrap [of c 4] by (simp add: word_le_nat_alt const_defs)
    then have "Suc (unat height) - unat (c + CHECKPOINT_INTERVAL) < Suc (unat height) - unat c"
      using True by (simp add: word_le_nat_alt)
    from less [OF this] True show ?thesis
      by (subst checkpoint_loop.simps) (auto intro!: ends_rbind assms(1))
  next
    case False
    then show ?thesis by (subst checkpoint_loop.simps) simp
  qed
qed

text \<open>
  C20: the work of the quorum cop for a new block ends, with a result or with an error, at every
  height at least five below the largest 64-bit number.
\<close>

theorem process_quorums_ends:
  assumes "unat (get_block_height blk) \<le> 2 ^ 64 - 5"
  shows "quorum_cop_block_added V blk txs w \<noteq> None"
proof -
  have "ends (process_quorum_type V hf (get_block_height blk) latest voting t w)" for hf latest voting t w
    by (cases t) (auto simp: process_quorum_type_def Let_def ends_obligations_loop ends_obligations_at
        ends_checkpoint_loop [OF ends_checkpoint_at assms] split: option.split)
  then have "ends (process_quorum_types (process_quorum_type V hf (get_block_height blk) latest voting) ts w)"
    for hf latest voting ts w by (induction ts arbitrary: w) (auto intro!: ends_rbind)
  then have "ends (process_quorums V blk w)" by (simp add: process_quorums_def Let_def)
  then have "ends (quorum_cop_block_added V blk txs w)"
    unfolding quorum_cop_block_added_def by (rule ends_rbind) simp
  then show ?thesis by (simp add: ends_def)
qed

theorem process_quorums_ends_witness:
  "quorum_cop_block_added cop_view checkpoint_block [] (cop_example_world [(21, new_node)]) \<noteq> None"
  by (rule process_quorums_ends) (simp add: checkpoint_block_def get_block_height_def)

text \<open>
  for a block at or below the chain height and at least the safety buffer (11 blocks, 20 before
  hard fork 12) above the first block, the obligations loop visits at most 60 heights.  Below the
  buffer the subtraction wraps around, and the loop would visit more than \<open>2 ^ 63\<close> heights.
\<close>

theorem obligations_loop_length:
  assumes "VOTE_LIFETIME \<le> latest" and "latest - VOTE_LIFETIME \<le> height" and "height \<le> latest"
    and "hs = heights_between (max (qc_obligations_height (w_cop w)) (latest - VOTE_LIFETIME)) (height - reorg_safety_buffer hf)"
  shows "process_quorum_type V hf height latest voting obligations w =
           rbind (run_heights (obligations_at V hf latest voting) hs w) (\<lambda>w'. ret (map_cop (\<lambda>qc. qc\<lparr>qc_obligations_height :=
             max (max (qc_obligations_height (w_cop w)) (latest - VOTE_LIFETIME)) (height - reorg_safety_buffer hf)\<rparr>) w')) \<and>
         (reorg_safety_buffer hf \<le> height \<longrightarrow> length hs \<le> 60) \<and>
         (height < reorg_safety_buffer hf \<and> qc_obligations_height (w_cop w) \<le> height \<longrightarrow> length hs > 2 ^ 63)"
proof -
  let ?m = "qc_obligations_height (w_cop w)" and ?b = "reorg_safety_buffer hf"
  have VL: "unat (latest - VOTE_LIFETIME) = unat latest - 60" "60 \<le> unat latest"
    using assms(1) by (simp_all add: const_defs word_le_nat_alt unat_sub_if')
  have max_ge: "unat latest - 60 \<le> unat (max ?m (latest - VOTE_LIFETIME))"
    using VL(1) by (simp add: max_def word_le_nat_alt)
  have hl: "unat height \<le> unat latest" using assms(3) by (simp add: word_le_nat_alt)
  have "length hs \<le> 60" if "?b \<le> height"
    using that VL max_ge hl unat_sub_no_wrap [of ?b height]
    by (simp add: assms(4) length_heights_between word_le_nat_alt)
  moreover have "length hs > 2 ^ 63" if "height < ?b" "?m \<le> height"
  proof -
    have b: "unat ?b \<le> 20" by (simp add: reorg_safety_buffer_def const_defs)
    have "unat (height - ?b) = 2 ^ 64 + unat height - unat ?b"
      using that(1) by (simp add: unat_sub_if' word_less_nat_alt)
    moreover have "unat (max ?m (latest - VOTE_LIFETIME)) \<le> unat height"
      using that(2) assms(2) by (simp add: max_def word_le_nat_alt)
    moreover have "unat height < 20" using that(1) b by (simp add: word_less_nat_alt)
    ultimately show ?thesis using b by (simp add: assms(4) length_heights_between)
  qed
  ultimately show ?thesis
    unfolding process_quorum_type_def Let_def assms(4) by (simp add: obligations_loop_heights)
qed

theorem obligations_loop_length_witness:
  "length (heights_between (max 0 (1000 - VOTE_LIFETIME)) (995 - reorg_safety_buffer 16)) \<le> 60"
proof -
  let ?w = "cop_example_world []"
  have "VOTE_LIFETIME \<le> 1000" "1000 - VOTE_LIFETIME \<le> 995" "(995 :: u64) \<le> 1000" "reorg_safety_buffer 16 \<le> 995"
    by (simp_all add: reorg_safety_buffer_def const_defs)
  moreover have "qc_obligations_height (w_cop ?w) = 0" by (simp add: cop_example_world_def)
  ultimately show ?thesis
    using obligations_loop_length [of 1000 995 _ ?w 16 cop_view True, OF _ _ _ refl] by simp
qed

section \<open>Checksums\<close>

lemma checksum_loop_add: "checksum_loop pks offset acc = acc + checksum_loop pks offset 0"
proof (induction pks arbitrary: offset acc)
  case (Cons pk pks)
  show ?case
    by (simp add: Let_def Cons [of _ "acc + _"] Cons [of _ "checksum_word pk (offset mod 32)"])
qed simp

lemma checksum_loop_mod: "checksum_loop pks (offset mod 32) acc = checksum_loop pks offset acc"
  by (cases pks) simp_all

lemma quorum_checksum_Cons:
  "quorum_checksum (pk # pks) offset = checksum_word pk (offset mod 32) + quorum_checksum pks (offset + 1)"
proof -
  have "checksum_loop pks (offset mod 32 + 1) acc = checksum_loop pks (offset + 1) acc" for acc
    using checksum_loop_mod [of pks "offset mod 32 + 1" acc] checksum_loop_mod [of pks "offset + 1" acc]
    by (simp add: mod_Suc_eq)
  then show ?thesis
    by (simp add: quorum_checksum_def Let_def checksum_loop_add [of _ _ "checksum_word pk (offset mod 32)"])
qed

lemma checksum_null_key: "offset < 32 \<Longrightarrow> checksum_word 0 offset = 0"
proof -
  have "le_bytes n (0 :: 256 word) = replicate n 0" for n
    by (rule nth_equalityI) (simp_all add: le_bytes_def)
  then have "be_bytes 32 (0 :: 256 word) = replicate 32 0" by (simp add: be_bytes_def)
  moreover have "of_le_bytes (replicate k 0) = (0 :: u64)" for k
    by (induction k) (simp_all add: of_le_bytes_def)
  ultimately show "offset < 32 \<Longrightarrow> ?thesis"
    by (simp add: checksum_word_def Let_def replicate_add [symmetric])
qed

text \<open>
  the checksum of two lists of keys joined together is the sum of the checksum of the first and
  the one of the second with an offset of the length of the first, and null keys at the end do not
  change it.
\<close>

theorem quorum_checksum_append:
  "quorum_checksum (pks @ pks') offset = quorum_checksum pks offset + quorum_checksum pks' (offset + length pks) \<and>
   quorum_checksum (pks @ replicate n null_pkey) offset = quorum_checksum pks offset"
proof -
  have append: "quorum_checksum (pks @ pks') offset = quorum_checksum pks offset + quorum_checksum pks' (offset + length pks)"
    for pks pks' offset
    by (induction pks arbitrary: offset) (simp_all add: quorum_checksum_Cons, simp add: quorum_checksum_def)
  have "quorum_checksum (replicate n null_pkey) offset = 0" for offset
    by (induction n arbitrary: offset) (simp_all add: quorum_checksum_Cons checksum_null_key, simp add: quorum_checksum_def)
  with append show ?thesis by simp
qed

end
