(* ===== verification/Cop_Votes.thy ===== *)
theory Cop_Votes
  imports Quorum_Cop
begin

text \<open>
  What becomes of the votes a quorum cop collects.  Every state change transaction it submits is
  backed by seven valid votes of the quorum, and seven valid votes of any validators in any order
  make it submit a transaction that passes \<^verbatim>\<open>verify_tx_state_change\<close>; thirteen valid checkpoint votes
  make it store a checkpoint that passes \<^verbatim>\<open>verify_checkpoint\<close>.

  The cop runs in the relation \<open>cop_step\<close>: it handles a vote, processes a block, is detached from
  blocks or marks votes as relayed, and the rest of the daemon changes the service node list and the
  stored checkpoints.  The quorums by type and height are a function \<open>Q\<close>, which a detachment changes
  above its height; a list agrees with \<open>Q\<close> when each quorum it finds is the one of \<open>Q\<close>.  The locale
  \<open>cop_invariant\<close> has the lemma that what handling a vote keeps, the work on a whole block keeps.
\<close>

section \<open>Valid votes\<close>

definition verified :: "crypto_ops \<Rightarrow> quorum \<Rightarrow> quorum_vote_t \<Rightarrow> bool" where
  "verified C q vote \<longleftrightarrow> fst (verify_vote_signature C vote clean_vvc q)"

type_synonym quorum_table = "quorum_type \<Rightarrow> u64 \<Rightarrow> quorum"

definition all_votes :: "(quorum_vote_t \<Rightarrow> bool) \<Rightarrow> 'k pool_entry list \<Rightarrow> bool" where
  "all_votes P pool \<longleftrightarrow> (\<forall>e \<in> set pool. \<forall>v \<in> set (pe_votes e). P (pv_vote v))"

definition valid_for :: "crypto_ops \<Rightarrow> quorum_table \<Rightarrow> quorum_type \<Rightarrow> quorum_vote_t \<Rightarrow> bool" where
  "valid_for C Q type v \<longleftrightarrow> qv_type v = type \<and> verified C (Q type (qv_block_height v)) v"

definition pool_ok :: "crypto_ops \<Rightarrow> quorum_table \<Rightarrow> voting_pool \<Rightarrow> bool" where
  "pool_ok C Q pool \<longleftrightarrow> voting_pool_wf pool \<and>
     all_votes (valid_for C Q obligations) (m_obligations_pool pool) \<and>
     all_votes (valid_for C Q checkpointing) (m_checkpoint_pool pool)"

definition agrees :: "quorum_table \<Rightarrow> service_node_list \<Rightarrow> bool" where
  "agrees Q nl \<longleftrightarrow> (\<forall>type height q. fst (get_quorum nl type height False) = Some q \<longrightarrow> Q type height = q)"

text \<open>A state change with enough votes of pairwise different validators, each with a valid signature.\<close>

definition backed :: "crypto_ops \<Rightarrow> quorum_table \<Rightarrow> tx_extra_service_node_state_change \<Rightarrow> bool" where
  "backed C Q sc \<longleftrightarrow> STATE_CHANGE_MIN_VOTES_TO_CHANGE_STATE \<le> length (sc_votes sc) \<and>
     distinct (map scv_validator_index (sc_votes sc)) \<and>
     unat (sc_service_node_index sc) < length (workers (Q obligations (sc_block_height sc))) \<and>
     (\<forall>v \<in> set (sc_votes sc). valid_tx_vote C (Q obligations (sc_block_height sc))
        (make_state_change_vote_hash C (sc_block_height sc) (sc_service_node_index sc) (sc_state sc)) v)"

text \<open>The state change of a transaction, whichever of the two extra fields it is in.\<close>

fun state_change_of_field :: "tx_extra_field \<Rightarrow> tx_extra_service_node_state_change option" where
  "state_change_of_field (extra_service_node_state_change sc) = Some sc"
| "state_change_of_field (extra_service_node_deregister_old d) =
     Some \<lparr>sc_state = deregister, sc_block_height = dereg_block_height d,
           sc_service_node_index = dereg_service_node_index d, sc_votes = dereg_votes d\<rparr>"
| "state_change_of_field _ = None"

definition tx_backed :: "crypto_ops \<Rightarrow> quorum_table \<Rightarrow> transaction \<Rightarrow> bool" where
  "tx_backed C Q tx \<longleftrightarrow> tx_type tx = tx_state_change \<and>
     (\<exists>f sc. tx_extra tx = [f] \<and> state_change_of_field f = Some sc \<and> backed C Q sc)"

definition cop_ok :: "crypto_ops \<Rightarrow> quorum_table \<Rightarrow> transaction list \<Rightarrow> cop_world \<Rightarrow> bool" where
  "cop_ok C Q base w \<longleftrightarrow> pool_ok C Q (qc_vote_pool (w_cop w)) \<and> agrees Q (w_list w) \<and>
     (\<exists>new. w_submitted w = base @ new \<and> (\<forall>tx \<in> set new. tx_backed C Q tx))"

lemma verify_vote_signature_context:
  "fst (verify_vote_signature C vote vvc q) = verified C q vote"
  unfolding verified_def verify_vote_signature_def Let_def
  by (cases "qv_type vote")
    (simp_all add: bounds_check_validator_index_def bounds_check_worker_index_def)

lemma verified_obligations:
  assumes "verified C q vote" and "qv_type vote = obligations"
  shows "unat (qv_index_in_group vote) < length (validators q) \<and> unat (qv_worker_index vote) < length (workers q) \<and>
    check_signature C (make_state_change_vote_hash C (qv_block_height vote) (ucast (qv_worker_index vote)) (qv_state vote))
      (validators q ! unat (qv_index_in_group vote)) (qv_signature vote)"
  using assms
  by (auto simp: verified_def verify_vote_signature_def Let_def bounds_check_validator_index_def
      bounds_check_worker_index_def split: if_splits)

lemma verified_checkpointing:
  assumes "verified C q vote" and "qv_type vote = checkpointing"
  shows "unat (qv_index_in_group vote) < length (validators q) \<and>
    check_signature C (qv_block_hash vote) (validators q ! unat (qv_index_in_group vote)) (qv_signature vote)"
  using assms
  by (auto simp: verified_def verify_vote_signature_def Let_def bounds_check_validator_index_def
      bounds_check_worker_index_def split: if_splits)

lemma verified_types: "verified C q vote \<Longrightarrow> qv_type vote = obligations \<or> qv_type vote = checkpointing"
  by (cases "qv_type vote") (auto simp: verified_def verify_vote_signature_def Let_def split: if_splits prod.splits)

section \<open>The votes of an entry\<close>

abbreviation new_pool_vote :: "quorum_vote_t \<Rightarrow> pool_vote_entry" where
  "new_pool_vote vote \<equiv> \<lparr>pv_vote = vote, pv_time_last_sent_p2p = 0\<rparr>"

definition entry_votes :: "'k pool_entry list \<Rightarrow> 'k pool_entry \<Rightarrow> pool_vote_entry set" where
  "entry_votes pool x = {v. \<exists>e \<in> set pool. same_entry e x \<and> v \<in> set (pe_votes e)}"

lemma set_update_entry_votes:
  "e \<in> set (update_entry_votes i f pool) \<Longrightarrow> e \<in> set pool \<or> e = (pool ! i)\<lparr>pe_votes := f (pe_votes (pool ! i))\<rparr>"
  unfolding update_entry_votes_def by (meson in_mono insertE set_update_subset_insert)

lemma same_entry_votes [simp]: "same_entry (e\<lparr>pe_votes := vs\<rparr>) x = same_entry e x"
  by (simp add: same_entry_def)

lemma all_votes_filter: "all_votes P pool \<Longrightarrow> all_votes P (filter R pool)"
  by (auto simp: all_votes_def)

lemma all_votes_remove: "all_votes P pool \<Longrightarrow> all_votes P (take i pool @ drop j pool)"
  by (auto simp: all_votes_def dest: in_set_takeD in_set_dropD)

lemma all_votes_mono: "all_votes P pool \<Longrightarrow> (\<And>v. P v \<Longrightarrow> R v) \<Longrightarrow> all_votes R pool"
  by (auto simp: all_votes_def)

lemma all_votes_relayed:
  assumes "all_votes P pool"
  shows "all_votes P (set_relayed_in now index pool x)"
proof (cases "find_entry pool x")
  case None
  with assms show ?thesis by (simp add: set_relayed_in_def find_vote_in_pool_def)
next
  case (Some i)
  have mem: "pv_vote v \<in> pv_vote ` set vs" if "v \<in> set (mark_relayed index now vs)" for v vs
    using that by (induction vs) (auto split: if_splits)
  have "pool ! i \<in> set pool" using find_entry_Some [OF Some] by simp
  with assms have old: "\<forall>v \<in> set (pe_votes (pool ! i)). P (pv_vote v)" by (simp add: all_votes_def)
  have "P (pv_vote v)" if e: "e \<in> set (update_entry_votes i (mark_relayed index now) pool)" and v: "v \<in> set (pe_votes e)" for e v
    using set_update_entry_votes [OF e] v old assms mem [of v "pe_votes (pool ! i)"] by (auto simp: all_votes_def)
  with Some show ?thesis by (simp add: set_relayed_in_def find_vote_in_pool_def all_votes_def)
qed

context typed_pool
begin

lemma entry_unique:
  assumes "pool_wf entry_of pool" and "a \<in> set pool" and "b \<in> set pool" and "same_entry a x" and "same_entry b x"
  shows "a = b"
proof -
  have "inj_on (\<lambda>e. (pe_height e, pe_key e)) (set pool)" using assms(1) by (simp add: pool_wf_def distinct_map)
  then show ?thesis using assms(2-5) by (auto simp: same_entry_def inj_on_def)
qed

lemma entry_votes_member:
  assumes "pool_wf entry_of pool" and "e \<in> set pool" and "same_entry e x"
  shows "entry_votes pool x = set (pe_votes e)"
  using assms entry_unique [OF assms(1)] by (fastforce simp: entry_votes_def)

text \<open>Adding a vote gives the votes of its entry, now with the new one, and changes no other entry.\<close>

lemma add_vote_votes:
  assumes wf: "pool_wf entry_of pool" and add: "add_vote_in v pool (entry_of v) = (added, votes, pool')"
  shows "set votes = entry_votes pool (entry_of v) \<union> (if added then {new_pool_vote v} else {})"
    and "entry_votes pool' (entry_of v) = set votes"
    and "e \<in> set pool' \<Longrightarrow> w \<in> set (pe_votes e) \<Longrightarrow> w \<in> set votes \<or> (\<exists>e \<in> set pool. w \<in> set (pe_votes e))"
proof -
  obtain j p where fp: "find_vote_in_pool pool (entry_of v) True = (j, p)" by fastforce
  from find_create [OF wf fp] obtain i where i: "j = Some i" "i < length p" "same_entry (p ! i) (entry_of v)"
    "pool_wf entry_of p" and
    mem: "\<And>w. w \<in> set (pe_votes (p ! i)) \<longleftrightarrow> (\<exists>e \<in> set pool. same_entry e (entry_of v) \<and> w \<in> set (pe_votes e))" by blast
  obtain a vs where av: "add_vote_to_pool_if_unique (pe_votes (p ! i)) v = (a, vs)" by fastforce
  have res: "added = a" "votes = vs" "pool' = update_entry_votes i (\<lambda>_. vs) p"
    using add by (auto simp: add_vote_in_def fp i(1) av)
  have srt: "votes_sorted (pe_votes (p ! i))" using i(2,4) by (auto simp: pool_wf_def)
  have "set (pe_votes (p ! i)) = entry_votes pool (entry_of v)" using mem by (auto simp: entry_votes_def)
  then show "set votes = entry_votes pool (entry_of v) \<union> (if added then {new_pool_vote v} else {})"
    using add_vote_unique(3) [OF srt av] by (simp add: res)
  have new: "(p ! i)\<lparr>pe_votes := vs\<rparr> \<in> set pool'"
    using i(2) by (simp add: res update_entry_votes_def set_update_memI)
  have "pool_wf entry_of pool'" using add_vote [OF wf add] by simp
  from entry_votes_member [OF this new] show "entry_votes pool' (entry_of v) = set votes"
    using i(3) by (simp add: res)
  have p: "e \<in> set p \<Longrightarrow> w \<in> set (pe_votes e) \<Longrightarrow> (\<exists>e \<in> set pool. w \<in> set (pe_votes e))" for e w
    using fp by (auto simp: find_vote_in_pool_def entry_empty split: option.splits)
  show "w \<in> set votes \<or> (\<exists>e \<in> set pool. w \<in> set (pe_votes e))" if "e \<in> set pool'" "w \<in> set (pe_votes e)"
    using set_update_entry_votes [of e i "\<lambda>_. vs" p] that p [of e w] by (auto simp: res)
qed

lemma add_vote_all:
  assumes "pool_wf entry_of pool" and "all_votes P pool" and "P v" and "add_vote_in v pool (entry_of v) = (added, votes, pool')"
  shows "all_votes P pool'" and "\<forall>w \<in> set votes. P (pv_vote w)"
proof -
  show votes: "\<forall>w \<in> set votes. P (pv_vote w)"
    using add_vote_votes(1) [OF assms(1,4)] assms(2,3) by (auto simp: entry_votes_def all_votes_def split: if_splits)
  then show "all_votes P pool'"
    using add_vote_votes(3) [OF assms(1,4)] assms(2) unfolding all_votes_def by blast
qed

end

section \<open>What the operations keep\<close>

lemma valid_forI: "verified C (Q (qv_type v) (qv_block_height v)) v \<Longrightarrow> valid_for C Q (qv_type v) v"
  by (simp add: valid_for_def)

lemma add_pool_vote_obligations:
  assumes "pool_ok C Q pool" and "valid_for C Q obligations vote"
    and "add_pool_vote_if_unique vote vvc pool = (votes, vvc', pool')"
  shows "pool_ok C Q pool'" and "votes_sorted votes" and "\<forall>v \<in> set votes. valid_for C Q obligations (pv_vote v)"
    and "\<forall>v \<in> set votes. same_entry (obligations_entry_of (pv_vote v)) (obligations_entry_of vote)"
    and "set votes = entry_votes (m_obligations_pool pool) (obligations_entry_of vote) \<union>
      (if vote_verification_context.m_added_to_pool vvc' then {new_pool_vote vote} else {})"
    and "entry_votes (m_obligations_pool pool') (obligations_entry_of vote) = set votes"
    and "vote_verification_context.m_added_to_pool vvc' \<longleftrightarrow>
      qv_index_in_group vote \<notin> vote_index ` entry_votes (m_obligations_pool pool) (obligations_entry_of vote)"
proof -
  obtain a vs p where add: "add_vote_in vote (m_obligations_pool pool) (obligations_entry_of vote) = (a, vs, p)"
    by (metis prod_cases3)
  have res: "votes = vs" "vote_verification_context.m_added_to_pool vvc' = a" "pool' = pool\<lparr>m_obligations_pool := p\<rparr>"
    using assms(2,3) by (auto simp: add_pool_vote_if_unique_def valid_for_def add)
  have wf: "pool_wf obligations_entry_of (m_obligations_pool pool)"
    and all: "all_votes (valid_for C Q obligations) (m_obligations_pool pool)"
    using assms(1) by (simp_all add: pool_ok_def voting_pool_wf_def)
  note added = obl.add_vote [OF wf add] and votes = obl.add_vote_votes [OF wf add]
    and valid = obl.add_vote_all [OF wf all assms(2) add]
  show "pool_ok C Q pool'" using assms(1) added valid by (simp add: pool_ok_def voting_pool_wf_def res)
  show "votes_sorted votes" "\<forall>v \<in> set votes. valid_for C Q obligations (pv_vote v)"
    "\<forall>v \<in> set votes. same_entry (obligations_entry_of (pv_vote v)) (obligations_entry_of vote)"
    "set votes = entry_votes (m_obligations_pool pool) (obligations_entry_of vote) \<union>
      (if vote_verification_context.m_added_to_pool vvc' then {new_pool_vote vote} else {})"
    "entry_votes (m_obligations_pool pool') (obligations_entry_of vote) = set votes"
    using added valid votes(1,2) by (simp_all add: res)
  show "vote_verification_context.m_added_to_pool vvc' \<longleftrightarrow>
      qv_index_in_group vote \<notin> vote_index ` entry_votes (m_obligations_pool pool) (obligations_entry_of vote)"
    using added by (auto simp: res entry_votes_def)
qed

lemma add_pool_vote_checkpointing:
  assumes "pool_ok C Q pool" and "valid_for C Q checkpointing vote"
    and "add_pool_vote_if_unique vote vvc pool = (votes, vvc', pool')"
  shows "pool_ok C Q pool'" and "votes_sorted votes" and "\<forall>v \<in> set votes. valid_for C Q checkpointing (pv_vote v)"
    and "\<forall>v \<in> set votes. same_entry (checkpoint_entry_of (pv_vote v)) (checkpoint_entry_of vote)"
    and "set votes = entry_votes (m_checkpoint_pool pool) (checkpoint_entry_of vote) \<union>
      (if vote_verification_context.m_added_to_pool vvc' then {new_pool_vote vote} else {})"
    and "entry_votes (m_checkpoint_pool pool') (checkpoint_entry_of vote) = set votes"
    and "vote_verification_context.m_added_to_pool vvc' \<longleftrightarrow>
      qv_index_in_group vote \<notin> vote_index ` entry_votes (m_checkpoint_pool pool) (checkpoint_entry_of vote)"
proof -
  obtain a vs p where add: "add_vote_in vote (m_checkpoint_pool pool) (checkpoint_entry_of vote) = (a, vs, p)"
    by (metis prod_cases3)
  have res: "votes = vs" "vote_verification_context.m_added_to_pool vvc' = a" "pool' = pool\<lparr>m_checkpoint_pool := p\<rparr>"
    using assms(2,3) by (auto simp: add_pool_vote_if_unique_def valid_for_def add)
  have wf: "pool_wf checkpoint_entry_of (m_checkpoint_pool pool)"
    and all: "all_votes (valid_for C Q checkpointing) (m_checkpoint_pool pool)"
    using assms(1) by (simp_all add: pool_ok_def voting_pool_wf_def)
  note added = chk.add_vote [OF wf add] and votes = chk.add_vote_votes [OF wf add]
    and valid = chk.add_vote_all [OF wf all assms(2) add]
  show "pool_ok C Q pool'" using assms(1) added valid by (simp add: pool_ok_def voting_pool_wf_def res)
  show "votes_sorted votes" "\<forall>v \<in> set votes. valid_for C Q checkpointing (pv_vote v)"
    "\<forall>v \<in> set votes. same_entry (checkpoint_entry_of (pv_vote v)) (checkpoint_entry_of vote)"
    "set votes = entry_votes (m_checkpoint_pool pool) (checkpoint_entry_of vote) \<union>
      (if vote_verification_context.m_added_to_pool vvc' then {new_pool_vote vote} else {})"
    "entry_votes (m_checkpoint_pool pool') (checkpoint_entry_of vote) = set votes"
    using added valid votes(1,2) by (simp_all add: res)
  show "vote_verification_context.m_added_to_pool vvc' \<longleftrightarrow>
      qv_index_in_group vote \<notin> vote_index ` entry_votes (m_checkpoint_pool pool) (checkpoint_entry_of vote)"
    using added by (auto simp: res entry_votes_def)
qed

lemma all_votes_set_relayed:
  assumes "all_votes P (m_obligations_pool pool)" and "all_votes R (m_checkpoint_pool pool)"
  shows "all_votes P (m_obligations_pool (set_relayed now votes pool)) \<and>
    all_votes R (m_checkpoint_pool (set_relayed now votes pool))"
  using assms unfolding set_relayed_def
proof (induction votes arbitrary: pool)
  case (Cons v votes)
  have "all_votes P (m_obligations_pool (set_relayed_vote now v pool)) \<and>
      all_votes R (m_checkpoint_pool (set_relayed_vote now v pool))"
    using Cons.prems by (cases "qv_type v") (simp_all add: set_relayed_vote_def all_votes_relayed)
  with Cons.IH show ?case by simp
qed simp

lemma pool_ok_relayed: "pool_ok C Q pool \<Longrightarrow> pool_ok C Q (set_relayed now votes pool)"
  unfolding pool_ok_def using wf_set_relayed all_votes_set_relayed by blast

lemma pool_ok_used: "pool_ok C Q pool \<Longrightarrow> pool_ok C Q (remove_used_votes txs hf pool)"
proof -
  have "all_votes P p \<Longrightarrow> all_votes P (fold (remove_used_votes_tx hf) txs p)" for P p
  proof (induction txs arbitrary: p)
    case (Cons tx txs)
    have "all_votes P (remove_used_votes_tx hf tx p)"
      using Cons.prems by (auto simp: remove_used_votes_tx_def all_votes_remove split: option.split)
    with Cons.IH show ?case by simp
  qed simp
  then show "pool_ok C Q pool \<Longrightarrow> ?thesis"
    by (simp add: pool_ok_def wf_remove_used) (simp add: remove_used_votes_def)
qed

text \<open>Culling drops votes on both sides, so what is left does not see a change above the height.\<close>

context typed_pool
begin

lemma cull_valid:
  assumes "pool_wf entry_of p" and "all_votes (valid_for C Q type) p" and "\<forall>type h. h \<le> height \<longrightarrow> Q' type h = Q type h"
  shows "all_votes (valid_for C Q' type) (cull_votes p m height)"
  unfolding all_votes_def
proof (intro ballI)
  fix e v assume "e \<in> set (cull_votes p m height)" and v: "v \<in> set (pe_votes e)"
  then have e: "e \<in> set p" "pe_height e \<le> height" by (auto simp: cull_votes_def)
  then have "qv_block_height (pv_vote v) \<le> height"
    using assms(1) v entry_height by (fastforce simp: pool_wf_def same_entry_def)
  then show "valid_for C Q' type (pv_vote v)"
    using assms(2,3) e(1) v by (auto simp: all_votes_def valid_for_def)
qed

end

lemma pool_ok_expired:
  assumes "pool_ok C Q pool" and "\<forall>type h. h \<le> height \<longrightarrow> Q' type h = Q type h"
  shows "pool_ok C Q' (remove_expired_votes height pool)"
proof -
  have "pool_wf obligations_entry_of (m_obligations_pool pool)" "pool_wf checkpoint_entry_of (m_checkpoint_pool pool)"
    "all_votes (valid_for C Q obligations) (m_obligations_pool pool)"
    "all_votes (valid_for C Q checkpointing) (m_checkpoint_pool pool)"
    using assms(1) by (simp_all add: pool_ok_def voting_pool_wf_def)
  note obl.cull_valid [OF this(1,3) assms(2)] chk.cull_valid [OF this(2,4) assms(2)]
  then show ?thesis
    using assms(1) by (simp add: pool_ok_def wf_remove_expired) (simp add: remove_expired_votes_def Let_def)
qed

section \<open>Handling a vote\<close>

abbreviation with_pool :: "voting_pool \<Rightarrow> cop_world \<Rightarrow> cop_world" where
  "with_pool pool w \<equiv> map_cop (map_pool (\<lambda>_. pool)) w"

text \<open>A vote of the right age and with a valid signature reaches the pool.\<close>

lemma handle_vote_pooled:
  assumes "fst (verify_vote_age vote (cv_current_blockchain_height V) clean_vvc)"
    and "fst (get_quorum (w_list w) (qv_type vote) (qv_block_height vote) False) = Some q"
    and "verified (cv_crypto V) q vote"
  obtains vvc0 votes vvc pool where
    "add_pool_vote_if_unique vote vvc0 (qc_vote_pool (w_cop w)) = (votes, vvc, pool)"
    "handle_vote V vote w =
       (if \<not> vote_verification_context.m_added_to_pool vvc then ret (True, vvc, with_pool pool w)
        else if qv_type vote = obligations
        then (let (result, w) = handle_obligations_vote V vote votes q (with_pool pool w) in ret (result, vvc, w))
        else rbind (handle_checkpoint_vote vote votes (with_pool pool w)) (\<lambda>(result, w). ret (result, vvc, w)))"
proof -
  obtain vvc1 where age: "verify_vote_age vote (cv_current_blockchain_height V) clean_vvc = (True, vvc1)"
    using assms(1) by (metis prod.collapse)
  obtain vvc0 where sig: "verify_vote_signature (cv_crypto V) vote vvc1 q = (True, vvc0)"
    using assms(3) verify_vote_signature_context by (metis (full_types) prod.collapse)
  obtain votes vvc pool where add: "add_pool_vote_if_unique vote vvc0 (qc_vote_pool (w_cop w)) = (votes, vvc, pool)"
    by (metis prod_cases3)
  show thesis
    by (rule that [OF add])
      (use verified_types [OF assms(3)] in \<open>auto simp: handle_vote_def age assms(2) sig add\<close>)
qed

lemma handle_voteE:
  assumes "handle_vote V vote w = ret (r, vvc, w')"
  obtains (rejected) "w' = w"
  | (pooled) q vvc0 votes pool where
      "fst (get_quorum (w_list w) (qv_type vote) (qv_block_height vote) False) = Some q"
      "verified (cv_crypto V) q vote"
      "add_pool_vote_if_unique vote vvc0 (qc_vote_pool (w_cop w)) = (votes, vvc, pool)"
      "w' = with_pool pool w \<or>
       qv_type vote = obligations \<and> handle_obligations_vote V vote votes q (with_pool pool w) = (r, w') \<or>
       qv_type vote = checkpointing \<and> handle_checkpoint_vote vote votes (with_pool pool w) = ret (r, w')"
proof (cases "fst (verify_vote_age vote (cv_current_blockchain_height V) clean_vvc)")
  case False
  then show thesis using assms that(1) by (auto simp: handle_vote_def split: prod.splits)
next
  case age: True
  show thesis
  proof (cases "fst (get_quorum (w_list w) (qv_type vote) (qv_block_height vote) False)")
    case None
    then show thesis using assms that(1) by (auto simp: handle_vote_def split: prod.splits if_splits)
  next
    case (Some q)
    show thesis
    proof (cases "verified (cv_crypto V) q vote")
      case False
      obtain vvc1 where age: "verify_vote_age vote (cv_current_blockchain_height V) clean_vvc = (True, vvc1)"
        using age by (metis prod.collapse)
      obtain vvc0 where "verify_vote_signature (cv_crypto V) vote vvc1 q = (False, vvc0)"
        using False verify_vote_signature_context by (metis (full_types) prod.collapse)
      then show thesis using assms that(1) Some age by (auto simp: handle_vote_def)
    next
      case True
      from handle_vote_pooled [OF age Some True] obtain vvc0 votes vvc' pool where
        add: "add_pool_vote_if_unique vote vvc0 (qc_vote_pool (w_cop w)) = (votes, vvc', pool)" and
        run: "handle_vote V vote w =
          (if \<not> vote_verification_context.m_added_to_pool vvc' then ret (True, vvc', with_pool pool w)
           else if qv_type vote = obligations
           then (let (result, w) = handle_obligations_vote V vote votes q (with_pool pool w) in ret (result, vvc', w))
           else rbind (handle_checkpoint_vote vote votes (with_pool pool w)) (\<lambda>(result, w). ret (result, vvc', w)))"
        by blast
      have "vvc' = vvc" and "w' = with_pool pool w \<or>
          qv_type vote = obligations \<and> handle_obligations_vote V vote votes q (with_pool pool w) = (r, w') \<or>
          qv_type vote = checkpointing \<and> handle_checkpoint_vote vote votes (with_pool pool w) = ret (r, w')"
        using assms [unfolded run] verified_types [OF True]
        by (auto simp: rbind_eq_ret_iff split: if_splits prod.splits)
      with that(2) [OF Some True] add show thesis by blast
    qed
  qed
qed

lemma handle_obligations_vote_result:
  assumes "handle_obligations_vote V vote votes q w = (r, w')"
  shows "w' = w \<or> (\<exists>tx f. w' = w\<lparr>w_submitted := w_submitted w @ [tx]\<rparr> \<and>
    STATE_CHANGE_MIN_VOTES_TO_CHANGE_STATE \<le> length votes \<and> tx_type tx = tx_state_change \<and> tx_extra tx = [f] \<and>
    state_change_of_field f = Some (state_change_of_votes vote votes))"
  using assms
  by (auto simp: handle_obligations_vote_def Let_def add_service_node_state_change_to_tx_extra_def
      state_change_of_votes_def split: if_splits list.splits)

lemma handle_checkpoint_vote_result:
  assumes "handle_checkpoint_vote vote votes w = ret (r, w')"
  shows "w_cop w' = w_cop w \<and> w_list w' = w_list w \<and> w_submitted w' = w_submitted w"
  using assms by (auto simp: handle_checkpoint_vote_def rbind_eq_ret_iff split: if_splits prod.splits)

lemma inj_ucast_u16_u32: "inj (ucast :: u16 \<Rightarrow> u32)"
  by (metis injI unat_ucast_u16_u32 word_unat_eq_iff)

lemma votes_backed:
  assumes "votes_sorted votes" and "\<forall>v \<in> set votes. valid_for C Q obligations (pv_vote v)"
    and "\<forall>v \<in> set votes. same_entry (obligations_entry_of (pv_vote v)) (obligations_entry_of vote)"
    and "valid_for C Q obligations vote" and "STATE_CHANGE_MIN_VOTES_TO_CHANGE_STATE \<le> length votes"
  shows "backed C Q (state_change_of_votes vote votes)"
proof -
  let ?sc = "state_change_of_votes vote votes" and ?q = "Q obligations (qv_block_height vote)"
  have "distinct (map vote_index votes)"
    using assms(1) by (simp add: votes_sorted_def strict_sorted_iff)
  then have dist: "distinct (map scv_validator_index (sc_votes ?sc))"
    using inj_ucast_u16_u32 by (simp add: state_change_of_votes_def comp_def distinct_map inj_on_def)
  have "unat (qv_worker_index vote) < length (workers ?q)"
    using assms(4) verified_obligations by (auto simp: valid_for_def)
  moreover have "valid_tx_vote C ?q (make_state_change_vote_hash C (qv_block_height vote) (ucast (qv_worker_index vote)) (qv_state vote))
      \<lparr>scv_signature = qv_signature (pv_vote v), scv_validator_index = ucast (vote_index v)\<rparr>" if "v \<in> set votes" for v
  proof -
    have same: "qv_block_height (pv_vote v) = qv_block_height vote" "qv_state (pv_vote v) = qv_state vote"
      "(ucast (qv_worker_index (pv_vote v)) :: u32) = ucast (qv_worker_index vote)"
      using assms(3) that by (auto simp: same_entry_def obligations_entry_of_def)
    have "verified C ?q (pv_vote v)" "qv_type (pv_vote v) = obligations"
      using assms(2) that same(1) by (auto simp: valid_for_def)
    from verified_obligations [OF this] show ?thesis by (simp add: valid_tx_vote_def same)
  qed
  ultimately show ?thesis
    using dist assms(5) by (auto simp: backed_def state_change_of_votes_def)
qed

lemma map_cop_fields [simp]:
  "w_cop (map_cop f w) = f (w_cop w)" "w_list (map_cop f w) = w_list w" "w_submitted (map_cop f w) = w_submitted w"
  "w_checkpoints (map_cop f w) = w_checkpoints w" "qc_vote_pool (map_pool g qc) = g (qc_vote_pool qc)"
  by (simp_all add: map_cop_def map_pool_def)

lemma cop_ok_handle_vote:
  assumes ok: "cop_ok C Q base w" and "cv_crypto V = C" and run: "handle_vote V vote w = ret (r, vvc, w')"
  shows "cop_ok C Q base w'"
  using run
proof (cases rule: handle_voteE)
  case rejected
  with ok show ?thesis by simp
next
  case (pooled q vvc0 votes pool)
  have "Q (qv_type vote) (qv_block_height vote) = q"
    using ok pooled(1) by (auto simp: cop_ok_def agrees_def)
  then have valid: "valid_for C Q (qv_type vote) vote" using pooled(2) assms(2) by (simp add: valid_for_def)
  have pool: "pool_ok C Q (qc_vote_pool (w_cop w))" using ok by (simp add: cop_ok_def)
  have kept: "cop_ok C Q base (with_pool pool w)"
    if "pool_ok C Q pool" using ok that by (simp add: cop_ok_def)
  show ?thesis
  proof (cases "qv_type vote = obligations")
    case True
    note added = add_pool_vote_obligations [OF pool valid [unfolded True] pooled(3)]
    from pooled(4) True have "w' = with_pool pool w \<or> handle_obligations_vote V vote votes q (with_pool pool w) = (r, w')" by auto
    then have "w' = with_pool pool w \<or> (\<exists>tx. w' = (with_pool pool w)\<lparr>w_submitted := w_submitted w @ [tx]\<rparr> \<and> tx_backed C Q tx)"
      using handle_obligations_vote_result [of V vote votes q "with_pool pool w" r w']
        votes_backed [OF added(2-4) valid [unfolded True]]
      by (auto simp: tx_backed_def)
    with kept [OF added(1)] show ?thesis by (auto simp: cop_ok_def)
  next
    case False
    then have chk: "qv_type vote = checkpointing" using verified_types [OF pooled(2)] by simp
    note added = add_pool_vote_checkpointing [OF pool valid [unfolded chk] pooled(3)]
    from pooled(4) chk have "w' = with_pool pool w \<or> handle_checkpoint_vote vote votes (with_pool pool w) = ret (r, w')" by auto
    with kept [OF added(1)] handle_checkpoint_vote_result [of vote votes "with_pool pool w" r w'] show ?thesis
      by (auto simp: cop_ok_def)
  qed
qed

lemma get_quorum_record_votes:
  "get_quorum (w_list (record_checkpoint_votes V h w)) = get_quorum (w_list w)"
proof -
  have find: "find_quorums (nl\<lparr>nl_proofs := p\<rparr>) = find_quorums nl" for nl :: service_node_list and p
    by (intro ext) (simp add: find_quorums_def cong: option.case_cong if_cong)
  have "get_quorum (nl\<lparr>nl_proofs := p\<rparr>) = get_quorum nl" for nl :: service_node_list and p
    by (intro ext) (simp add: get_quorum_def find cong: option.case_cong)
  then have rec: "get_quorum (record_checkpoint_vote k h' b nl) = get_quorum nl" for k h' b nl
    by (simp add: record_checkpoint_vote_def)
  have "get_quorum (fold (\<lambda>i. record_checkpoint_vote (f i) h' (b i)) is nl) = get_quorum nl" for f h' b "is" nl
    by (induction "is" arbitrary: nl) (simp_all add: rec)
  then show ?thesis by (auto simp: record_checkpoint_votes_def Let_def split: option.split)
qed

section \<open>The work on a block\<close>

text \<open>
  An invariant of the cop's world: handling a vote, recording checkpoint votes and moving the heights
  keep it.
\<close>

locale cop_invariant =
  fixes V :: core_view and I :: "cop_world \<Rightarrow> bool"
  assumes keeps_vote: "I w \<Longrightarrow> handle_vote V vote w = ret (r, vvc, w') \<Longrightarrow> I w'"
    and keeps_record: "I w \<Longrightarrow> I (record_checkpoint_votes V h w)"
    and keeps_obligations_height: "I w \<Longrightarrow> I (map_cop (\<lambda>qc. qc\<lparr>qc_obligations_height := h\<rparr>) w)"
    and keeps_checkpointed_height: "I w \<Longrightarrow> I (map_cop (\<lambda>qc. qc\<lparr>qc_last_checkpointed_height := h\<rparr>) w)"
begin

lemma vote_on_worker_keeps:
  assumes "I w" and "vote_on_worker V hf ohf latest h i keys e n w = ret w'"
  shows "I w'"
  using assms keeps_vote [OF assms(1)]
  by (auto simp: vote_on_worker_def Let_def rbind_eq_ret_iff split: if_splits option.splits)

lemma vote_on_workers_keeps:
  assumes "\<And>e n w w'. I w \<Longrightarrow> f e n w = ret w' \<Longrightarrow> I w'" and "I w" and "vote_on_workers f ks es n w = ret w'"
  shows "I w'"
  using assms(2,3)
proof (induction es arbitrary: n w)
  case Nil
  then show ?case by (auto split: if_splits)
next
  case (Cons e es)
  show ?case
  proof (cases "n < length ks")
    case False
    with Cons.prems show ?thesis by simp
  next
    case True
    with Cons.prems(2) obtain m w1 where "f e m w = ret w1" "vote_on_workers f ks es (m + 1) w1 = ret w'"
      by (auto simp: rbind_eq_ret_iff split: option.splits)
    with Cons.IH assms(1) Cons.prems(1) show ?thesis by blast
  qed
qed

lemma obligations_at_keeps:
  assumes "I w" and "obligations_at V hf latest voting h w = ret w'"
  shows "I w'"
proof -
  define w1 where "w1 = (if cv_hard_fork_version V h \<ge> network_version_12_checkpointing
    then record_checkpoint_votes V h w else w)"
  have "I w1" using assms(1) keeps_record by (simp add: w1_def)
  moreover have "w' = w \<or> w' = w1 \<or> (\<exists>ohf i keys ks es.
      vote_on_workers (vote_on_worker V hf ohf latest h i keys) ks es 0 w1 = ret w')"
    using assms(2) unfolding obligations_at_def Let_def w1_def [symmetric]
    by (auto split: if_splits option.splits)
  moreover have "I w'" if "vote_on_workers (vote_on_worker V hf ohf latest h i keys) ks es 0 w1 = ret w'" for ohf i keys ks es
    using that by (rule vote_on_workers_keeps [rotated 2]) (fact vote_on_worker_keeps, fact)
  ultimately show ?thesis using assms(1) by blast
qed

lemma obligations_loop_keeps:
  assumes "\<And>h w w'. I w \<Longrightarrow> body h w = ret w' \<Longrightarrow> I w'" and "I w" and "obligations_loop body e h w = ret w'"
  shows "I w'"
proof -
  have "run_heights body hs w = ret w'' \<Longrightarrow> I w \<Longrightarrow> I w''" for hs w w''
  proof (induction hs arbitrary: w)
    case (Cons h hs)
    then show ?case using assms(1) by (auto simp: rbind_eq_ret_iff)
  qed simp
  then show ?thesis
    using assms(2,3) keeps_obligations_height by (auto simp: obligations_loop_heights rbind_eq_ret_iff)
qed

lemma checkpoint_at_keeps:
  assumes "I w" and "checkpoint_at V buffer keys h w = ret w'"
  shows "I w'"
  using assms keeps_vote [OF assms(1)]
  by (auto simp: checkpoint_at_def Let_def rbind_eq_ret_iff split: if_splits option.splits)

lemma checkpoint_loop_keeps:
  assumes body: "\<And>h w w'. I w \<Longrightarrow> body h w = ret w' \<Longrightarrow> I w'" and "I w" and run: "checkpoint_loop body height c w = ret w'"
  shows "I w'"
proof -
  let ?keeps = "\<lambda>f. \<forall>h w w'. I w \<longrightarrow> f h w = ret w' \<longrightarrow> I w'"
  from run have "checkpoint_loop body height c w = Some (Inr w')" by (simp add: ret_def)
  then have "?keeps body \<longrightarrow> I w \<longrightarrow> (\<forall>w''. Inr w' = (Inr w'' :: cop_error + cop_world) \<longrightarrow> I w'')"
  proof (rule checkpoint_loop.raw_induct [rotated, of body height c w "Inr w'"
        "\<lambda>f height c w r. ?keeps f \<longrightarrow> I w \<longrightarrow> (\<forall>w''. r = Inr w'' \<longrightarrow> I w'')"])
    fix loop f and height c :: u64 and w and r :: "cop_error + cop_world"
    assume IH: "\<And>f height c w r. loop f height c w = Some r \<Longrightarrow> ?keeps f \<longrightarrow> I w \<longrightarrow> (\<forall>w''. r = Inr w'' \<longrightarrow> I w'')"
      and step: "(if c \<le> height then rbind (f c w) (loop f height (c + CHECKPOINT_INTERVAL))
        else ret (map_cop (qc_last_checkpointed_height_update (\<lambda>_. c)) w)) = Some r"
    show "?keeps f \<longrightarrow> I w \<longrightarrow> (\<forall>w''. r = Inr w'' \<longrightarrow> I w'')"
    proof (intro impI allI)
      fix w'' assume f: "?keeps f" and w: "I w" and r: "r = Inr w''"
      show "I w''"
      proof (cases "c \<le> height")
        case True
        with step r have "rbind (f c w) (loop f height (c + CHECKPOINT_INTERVAL)) = ret w''" by (simp add: ret_def)
        then obtain x where "f c w = ret x" "loop f height (c + CHECKPOINT_INTERVAL) x = ret w''"
          by (auto simp: rbind_eq_ret_iff)
        with IH [of f height "c + CHECKPOINT_INTERVAL" x "Inr w''"] f w show ?thesis by (simp add: ret_def)
      next
        case False
        with step r have "w'' = map_cop (\<lambda>qc. qc\<lparr>qc_last_checkpointed_height := c\<rparr>) w" by (simp add: ret_def)
        then show ?thesis using keeps_checkpointed_height [OF w, of c] by simp
      qed
    qed
  qed
  with body assms(2) show ?thesis by blast
qed

lemma process_quorums_keeps:
  assumes "I w" and "process_quorums V blk w = ret w'"
  shows "I w'"
proof -
  have type: "I w'" if w: "I w" and run: "process_quorum_type V hf height latest voting t w = ret w'"
    for hf height latest voting t w w'
  proof (cases t)
    case obligations
    then obtain e h where "obligations_loop (obligations_at V hf latest voting) e h w = ret w'"
      using run by (simp add: process_quorum_type_def)
    then show ?thesis by (rule obligations_loop_keeps [rotated 2]) (fact obligations_at_keeps, fact w)
  next
    case checkpointing
    then have "w' = w \<or> (\<exists>buffer keys h c. checkpoint_loop (checkpoint_at V buffer keys) h c w = ret w')"
      using run by (auto simp: process_quorum_type_def Let_def split: option.splits if_splits)
    moreover have "I w'" if "checkpoint_loop (checkpoint_at V buffer keys) h c w = ret w'" for buffer keys h c
      using that by (rule checkpoint_loop_keeps [rotated 2]) (fact checkpoint_at_keeps, fact w)
    ultimately show ?thesis using w by blast
  qed (use run w in \<open>simp_all add: process_quorum_type_def\<close>)
  have types: "I w'" if "I w" "process_quorum_types (process_quorum_type V hf height latest voting) ts w = ret w'"
    for hf height latest voting ts w w'
    using that
  proof (induction ts arbitrary: w)
    case (Cons t ts)
    then obtain w1 where "process_quorum_type V hf height latest voting t w = ret w1"
      "process_quorum_types (process_quorum_type V hf height latest voting) ts w1 = ret w'"
      by (auto simp: rbind_eq_ret_iff)
    with Cons.IH type [OF Cons.prems(1)] show ?case by blast
  qed simp
  have "w' = w \<or> (\<exists>hf height latest voting ts.
      process_quorum_types (process_quorum_type V hf height latest voting) ts w = ret w')"
    using assms(2) by (auto simp: process_quorums_def Let_def split: if_splits)
  then show ?thesis using assms(1) types by blast
qed

end

lemma cop_ok_pool_only:
  assumes "cop_ok C Q base w" and "pool_ok C Q (qc_vote_pool (f (w_cop w)))"
  shows "cop_ok C Q base (map_cop f w)"
  using assms by (simp add: cop_ok_def)

interpretation cop: cop_invariant V "cop_ok (cv_crypto V) Q base" for V Q base
proof unfold_locales
  fix w vote r vvc w'
  show "cop_ok (cv_crypto V) Q base w \<Longrightarrow> handle_vote V vote w = ret (r, vvc, w') \<Longrightarrow> cop_ok (cv_crypto V) Q base w'"
    using cop_ok_handle_vote by blast
next
  fix w h
  have "w_cop (record_checkpoint_votes V h w) = w_cop w" "w_submitted (record_checkpoint_votes V h w) = w_submitted w"
    by (simp_all add: record_checkpoint_votes_def Let_def split: option.split)
  then show "cop_ok (cv_crypto V) Q base w \<Longrightarrow> cop_ok (cv_crypto V) Q base (record_checkpoint_votes V h w)"
    by (simp add: cop_ok_def agrees_def get_quorum_record_votes)
qed (simp_all add: cop_ok_def)

section \<open>Runs of a cop\<close>

inductive cop_step :: "crypto_ops \<Rightarrow> quorum_table \<times> cop_world \<Rightarrow> quorum_table \<times> cop_world \<Rightarrow> bool" for C where
  cop_vote: "cv_crypto V = C \<Longrightarrow> agrees Q (w_list w) \<Longrightarrow> handle_vote V vote w = ret (r, vvc, w') \<Longrightarrow> cop_step C (Q, w) (Q, w')"
| cop_block: "cv_crypto V = C \<Longrightarrow> agrees Q (w_list w) \<Longrightarrow> quorum_cop_block_added V blk txs w = ret (r, w') \<Longrightarrow>
    cop_step C (Q, w) (Q, w')"
| cop_detached: "\<forall>type h. h \<le> height \<longrightarrow> Q' type h = Q type h \<Longrightarrow>
    cop_step C (Q, w) (Q', map_cop (quorum_cop_detached V height) w)"
| cop_relayed: "cop_step C (Q, w) (Q, map_cop (set_votes_relayed now votes) w)"
| cop_daemon: "cop_step C (Q, w) (Q, w\<lparr>w_list := nl, w_checkpoints := ck\<rparr>)"

inductive_cases cop_stepE: "cop_step C s s'"

inductive cop_reachable :: "crypto_ops \<Rightarrow> quorum_table \<times> cop_world \<Rightarrow> bool" for C where
  cop_start: "qc_vote_pool (w_cop w) = empty_voting_pool \<Longrightarrow> cop_reachable C (Q, w)"
| cop_next: "cop_reachable C s \<Longrightarrow> cop_step C s s' \<Longrightarrow> cop_reachable C s'"

lemma block_added_keeps:
  assumes "cop_ok C Q base w" and "cv_crypto V = C" and "quorum_cop_block_added V blk txs w = ret (r, w')"
  shows "cop_ok C Q base w'"
proof -
  obtain w1 where run: "process_quorums V blk w = ret w1"
    and w': "w' = map_cop (map_pool (remove_used_votes txs (blk_major_version blk)
      \<circ> remove_expired_votes (get_block_height blk + 1))) w1"
    using assms(3) by (auto simp: quorum_cop_block_added_def rbind_eq_ret_iff)
  from cop.process_quorums_keeps [OF _ run] assms(1,2) have ok: "cop_ok C Q base w1" by simp
  then have "pool_ok C Q (remove_expired_votes (get_block_height blk + 1) (qc_vote_pool (w_cop w1)))"
    by (intro pool_ok_expired [of C Q]) (simp_all add: cop_ok_def)
  then show ?thesis unfolding w' by (intro cop_ok_pool_only [OF ok]) (simp add: pool_ok_used)
qed

lemma cop_ok_start: "pool_ok C Q (qc_vote_pool (w_cop w)) \<Longrightarrow> agrees Q (w_list w) \<Longrightarrow> cop_ok C Q (w_submitted w) w"
  by (simp add: cop_ok_def)

lemma pool_ok_detached:
  assumes "pool_ok C Q (qc_vote_pool qc)" and "\<forall>type h. h \<le> height \<longrightarrow> Q' type h = Q type h"
  shows "pool_ok C Q' (qc_vote_pool (quorum_cop_detached V height qc))"
  using pool_ok_expired [OF assms] by (simp add: quorum_cop_detached_def Let_def map_pool_def)

lemma cop_step_result:
  assumes "cop_step C (Q, w) (Q', w')" and "pool_ok C Q (qc_vote_pool (w_cop w))"
  shows "pool_ok C Q' (qc_vote_pool (w_cop w')) \<and>
    (\<exists>new. w_submitted w' = w_submitted w @ new \<and> (\<forall>tx \<in> set new. tx_backed C Q tx))"
  using assms(1)
proof (cases rule: cop_step.cases)
  case (cop_vote V vote r vvc)
  from cop_ok_handle_vote [OF cop_ok_start [OF assms(2) cop_vote(3)] cop_vote(2,4)] cop_vote(1)
  show ?thesis by (simp add: cop_ok_def)
next
  case (cop_block V blk txs r)
  from block_added_keeps [OF cop_ok_start [OF assms(2) cop_block(3)] cop_block(2,4)] cop_block(1)
  show ?thesis by (simp add: cop_ok_def)
next
  case (cop_detached height V)
  with pool_ok_detached [OF assms(2)] show ?thesis by simp
next
  case (cop_relayed now votes)
  with pool_ok_relayed [OF assms(2)] show ?thesis by (simp add: set_votes_relayed_def)
next
  case (cop_daemon nl ck)
  with assms(2) show ?thesis by simp
qed

lemma cop_reachable_pool_ok: "cop_reachable C (Q, w) \<Longrightarrow> pool_ok C Q (qc_vote_pool (w_cop w))"
proof (induction "(Q, w)" arbitrary: Q w rule: cop_reachable.induct)
  case (cop_start w)
  then show ?case
    by (simp add: pool_ok_def voting_pool_wf_def obl.wf_empty chk.wf_empty all_votes_def empty_voting_pool_def)
next
  case (cop_next s)
  obtain Q0 w0 where s: "s = (Q0, w0)" by fastforce
  with cop_next show ?case using cop_step_result by blast
qed


section \<open>Enough votes change the state of a node\<close>

fun handle_votes :: "core_view \<Rightarrow> quorum_vote_t list \<Rightarrow> cop_world \<Rightarrow> (cop_error, cop_world) outcome" where
  "handle_votes V [] w = ret w"
| "handle_votes V (vote # votes) w = rbind (handle_vote V vote w) (\<lambda>(ok, vvc, w). handle_votes V votes w)"

lemma handle_votes_append: "handle_votes V (vs @ ws) w = rbind (handle_votes V vs w) (handle_votes V ws)"
  by (induction vs arbitrary: w) (auto simp: rbind_assoc intro!: arg_cong [where f = "rbind _"])

abbreviation cop_pool :: "cop_world \<Rightarrow> voting_pool" where
  "cop_pool w \<equiv> qc_vote_pool (w_cop w)"

text \<open>The voters whose votes for the same change, or the same block, are in the pool.\<close>

definition state_change_voters :: "cop_world \<Rightarrow> quorum_vote_t \<Rightarrow> u16 set" where
  "state_change_voters w vote = vote_index ` entry_votes (m_obligations_pool (cop_pool w)) (obligations_entry_of vote)"

definition checkpoint_voters :: "cop_world \<Rightarrow> quorum_vote_t \<Rightarrow> u16 set" where
  "checkpoint_voters w vote = vote_index ` entry_votes (m_checkpoint_pool (cop_pool w)) (checkpoint_entry_of vote)"

text \<open>Votes of different validators of a quorum for the same change of the same worker.\<close>

definition ballots :: "crypto_ops \<Rightarrow> quorum \<Rightarrow> quorum_vote_t \<Rightarrow> quorum_vote_t list \<Rightarrow> bool" where
  "ballots C q vote vs \<longleftrightarrow> distinct (map qv_index_in_group vs) \<and>
     (\<forall>v \<in> set vs. qv_type v = obligations \<and> obligations_entry_of v = obligations_entry_of vote \<and> verified C q v)"

lemma same_key_voters: "obligations_entry_of v = obligations_entry_of v' \<Longrightarrow> state_change_voters w v = state_change_voters w v'"
  by (simp add: state_change_voters_def)

lemma votes_length:
  assumes "votes_sorted votes" and "\<forall>v \<in> set votes. unat (vote_index v) < n"
  shows "length votes = card (vote_index ` set votes)" and "length votes \<le> n"
proof -
  have dist: "distinct (map vote_index votes)" using assms(1) by (simp add: votes_sorted_def strict_sorted_iff)
  from distinct_card [OF this] show "length votes = card (vote_index ` set votes)" by simp
  have "card (unat ` vote_index ` set votes) \<le> card {..< n}" using assms(2) by (intro card_mono) auto
  moreover have "card (unat ` vote_index ` set votes) = card (vote_index ` set votes)"
    by (intro card_image) (simp add: inj_on_def word_unat_eq_iff)
  ultimately show "length votes \<le> n" using distinct_card [OF dist] by simp
qed

text \<open>A valid vote in time is pooled; the list of nodes stays, and a first vote of its voter is acted on.\<close>

lemma handle_state_change_vote:
  assumes ok: "pool_ok (cv_crypto V) Q (cop_pool w)" and agr: "agrees Q (w_list w)"
    and age: "fst (verify_vote_age vote (cv_current_blockchain_height V) clean_vvc)"
    and quorum: "fst (get_quorum (w_list w) obligations (qv_block_height vote) False) = Some q"
    and vote: "qv_type vote = obligations" "verified (cv_crypto V) q vote"
  obtains r vvc w' where "handle_vote V vote w = ret (r, vvc, w')"
    "pool_ok (cv_crypto V) Q (cop_pool w')" "w_list w' = w_list w"
    "state_change_voters w' vote = insert (qv_index_in_group vote) (state_change_voters w vote)"
    "qv_index_in_group vote \<notin> state_change_voters w vote \<Longrightarrow>
      \<exists>votes pool. votes_sorted votes \<and> vote_index ` set votes = state_change_voters w' vote \<and>
        (\<forall>v \<in> set votes. valid_for (cv_crypto V) Q obligations (pv_vote v)) \<and>
        (\<forall>v \<in> set votes. same_entry (obligations_entry_of (pv_vote v)) (obligations_entry_of vote)) \<and>
        handle_obligations_vote V vote votes q (with_pool pool w) = (r, w')"
proof -
  have Q: "Q obligations (qv_block_height vote) = q" using agr quorum by (auto simp: agrees_def)
  then have valid: "valid_for (cv_crypto V) Q obligations vote" using vote by (simp add: valid_for_def)
  have quorum': "fst (get_quorum (w_list w) (qv_type vote) (qv_block_height vote) False) = Some q"
    using quorum vote(1) by simp
  obtain vvc0 votes vvc pool where
    add: "add_pool_vote_if_unique vote vvc0 (cop_pool w) = (votes, vvc, pool)" and
    run: "handle_vote V vote w =
       (if \<not> vote_verification_context.m_added_to_pool vvc then ret (True, vvc, with_pool pool w)
        else if qv_type vote = obligations
        then (let (result, w) = handle_obligations_vote V vote votes q (with_pool pool w) in ret (result, vvc, w))
        else rbind (handle_checkpoint_vote vote votes (with_pool pool w)) (\<lambda>(result, w). ret (result, vvc, w)))"
    by (rule handle_vote_pooled [OF age quorum' vote(2)])
  note added = add_pool_vote_obligations [OF ok valid add]
  obtain r w1 where h: "handle_obligations_vote V vote votes q (with_pool pool w) = (r, w1)" by fastforce
  have kept: "cop_pool w1 = pool" "w_list w1 = w_list w"
    using handle_obligations_vote_result [OF h] by auto
  let ?w = "if vote_verification_context.m_added_to_pool vvc then w1 else with_pool pool w"
  let ?r = "if vote_verification_context.m_added_to_pool vvc then r else True"
  have voters: "vote_index ` set votes = insert (qv_index_in_group vote) (state_change_voters w vote)"
    using added(5,7) by (auto simp: state_change_voters_def split: if_splits)
  have pool: "cop_pool ?w = pool" "w_list ?w = w_list w" using kept by simp_all
  have now: "state_change_voters ?w vote = vote_index ` set votes"
    unfolding state_change_voters_def pool(1) added(6) ..
  show thesis
  proof (rule that [of ?r vvc ?w])
    show "handle_vote V vote w = ret (?r, vvc, ?w)" using run vote(1) h by simp
    show "pool_ok (cv_crypto V) Q (cop_pool ?w)" using added(1) pool(1) by simp
    show "w_list ?w = w_list w" by (rule pool(2))
    show "state_change_voters ?w vote = insert (qv_index_in_group vote) (state_change_voters w vote)"
      using now voters by simp
    assume "qv_index_in_group vote \<notin> state_change_voters w vote"
    then have "vote_verification_context.m_added_to_pool vvc" using added(7) by (simp add: state_change_voters_def)
    then have "handle_obligations_vote V vote votes q (with_pool pool w) = (?r, ?w)" using h by simp
    with added(2-4) now show "\<exists>votes pool. votes_sorted votes \<and> vote_index ` set votes = state_change_voters ?w vote \<and>
        (\<forall>v \<in> set votes. valid_for (cv_crypto V) Q obligations (pv_vote v)) \<and>
        (\<forall>v \<in> set votes. same_entry (obligations_entry_of (pv_vote v)) (obligations_entry_of vote)) \<and>
        handle_obligations_vote V vote votes q (with_pool pool w) = (?r, ?w)" by metis
  qed
qed

lemma handle_state_change_votes:
  assumes "pool_ok (cv_crypto V) Q (cop_pool w)" and "agrees Q (w_list w)"
    and "\<forall>v \<in> set vs. fst (verify_vote_age v (cv_current_blockchain_height V) clean_vvc)"
    and "fst (get_quorum (w_list w) obligations (qv_block_height vote) False) = Some q"
    and "ballots (cv_crypto V) q vote vs"
  obtains w' where "handle_votes V vs w = ret w'" "pool_ok (cv_crypto V) Q (cop_pool w')" "w_list w' = w_list w"
    "state_change_voters w' vote = qv_index_in_group ` set vs \<union> state_change_voters w vote"
  using assms
proof (induction vs arbitrary: w thesis)
  case Nil
  then show ?case by simp
next
  case (Cons v vs)
  have v: "qv_type v = obligations" "obligations_entry_of v = obligations_entry_of vote" "verified (cv_crypto V) q v"
    and vs: "ballots (cv_crypto V) q vote vs" using Cons.prems(6) by (auto simp: ballots_def)
  have "qv_block_height v = qv_block_height vote" using v(2) by (simp add: obligations_entry_of_def)
  then have quorum: "fst (get_quorum (w_list w) obligations (qv_block_height v) False) = Some q"
    using Cons.prems(5) by simp
  have age: "fst (verify_vote_age v (cv_current_blockchain_height V) clean_vvc)" using Cons.prems(4) by simp
  obtain r vvc w1 where one: "handle_vote V v w = ret (r, vvc, w1)" "pool_ok (cv_crypto V) Q (cop_pool w1)"
    "w_list w1 = w_list w" "state_change_voters w1 v = insert (qv_index_in_group v) (state_change_voters w v)"
    by (rule handle_state_change_vote [OF Cons.prems(2,3) age quorum v(1,3)]) blast
  have rest: "agrees Q (w_list w1)" "fst (get_quorum (w_list w1) obligations (qv_block_height vote) False) = Some q"
    "\<forall>v \<in> set vs. fst (verify_vote_age v (cv_current_blockchain_height V) clean_vvc)"
    using Cons.prems(3-5) one(3) by simp_all
  obtain w' where w': "handle_votes V vs w1 = ret w'" "pool_ok (cv_crypto V) Q (cop_pool w')" "w_list w' = w_list w1"
    "state_change_voters w' vote = qv_index_in_group ` set vs \<union> state_change_voters w1 vote"
    by (rule Cons.IH [OF _ one(2) rest(1,3,2) vs])
  show ?case
    by (rule Cons.prems(1) [of w'])
      (use one w' same_key_voters [OF v(2)] in auto)
qed

lemma ascending_validators:
  assumes "votes_sorted votes"
  shows "sorted_wrt (<) (- 1 # map (\<lambda>v. sint (ucast (vote_index v) :: u32)) votes)"
proof -
  have s: "sint (ucast i :: u32) = uint i" for i :: u16
  proof -
    have i: "0 \<le> uint i" "uint i < 2 ^ 16" by (simp, rule order_less_le_trans [OF uint_lt2p]) simp
    have "- (2 ^ 31) \<le> uint i" using i(1) by (rule order_trans [rotated]) simp
    moreover have "uint i < 2 ^ 31" using i(2) by simp
    ultimately have "signed_take_bit 31 (uint i) = uint i" by (rule signed_take_bit_int_eq_self)
    then show ?thesis by (simp add: signed_ucast_eq)
  qed
  have "sorted_wrt (\<lambda>a b. uint (vote_index a) < uint (vote_index b)) votes"
    using assms(1) by (simp add: votes_sorted_def sorted_wrt_map word_less_def)
  then show ?thesis by (simp add: s sorted_wrt_map order_less_le_trans [OF _ uint_ge_0])
qed

lemma in_time:
  assumes "qv_block_height v < latest" and "latest < qv_block_height v + STATE_CHANGE_TX_LIFETIME_IN_BLOCKS"
  shows "fst (verify_vote_age v latest clean_vvc)"
proof -
  have "\<not> latest < qv_block_height v" "\<not> qv_block_height v + VOTE_LIFETIME < latest"
    using assms by (simp_all add: STATE_CHANGE_TX_LIFETIME_IN_BLOCKS_def not_less order_less_imp_le)
  then show ?thesis by (simp add: verify_vote_age_def Let_def clean_vvc_def)
qed

text \<open>What the transaction made of the votes is worth.\<close>

lemma state_change_verifies:
  assumes votes: "votes_sorted votes" "\<forall>v \<in> set votes. valid_for C Q obligations (pv_vote v)"
      "\<forall>v \<in> set votes. same_entry (obligations_entry_of (pv_vote v)) (obligations_entry_of vote)"
    and vote: "valid_for C Q obligations vote" and q: "Q obligations (qv_block_height vote) = q"
    and size: "length (validators q) \<le> STATE_CHANGE_QUORUM_SIZE" "STATE_CHANGE_MIN_VOTES_TO_CHANGE_STATE \<le> length votes"
    and window: "qv_block_height vote < latest" "latest < qv_block_height vote + STATE_CHANGE_TX_LIFETIME_IN_BLOCKS"
    and kind: "qv_state vote = deregister \<or> network_version_12_checkpointing \<le> hf" "new_state_value (qv_state vote) < 4"
  shows "fst (verify_tx_state_change C (state_change_of_votes vote votes) latest tvc q hf)"
proof -
  let ?sc = "state_change_of_votes vote votes"
  have enough: "backed C Q ?sc" by (rule votes_backed [OF votes vote size(2)])
  have idx: "\<forall>v \<in> set votes. unat (vote_index v) < length (validators q)"
  proof
    fix v assume v: "v \<in> set votes"
    then have "qv_block_height (pv_vote v) = qv_block_height vote"
      using votes(3) by (auto simp: same_entry_def obligations_entry_of_def)
    then show "unat (vote_index v) < length (validators q)"
      using votes(2) v verified_obligations [of C q "pv_vote v"] q by (auto simp: valid_for_def)
  qed
  then have "length (sc_votes ?sc) \<le> STATE_CHANGE_QUORUM_SIZE"
    using votes_length(2) [OF votes(1) idx] size(1) by (simp add: state_change_of_votes_def)
  moreover have "sorted_wrt (<) (- 1 # map (\<lambda>v. sint (scv_validator_index v)) (sc_votes ?sc))"
    using ascending_validators [OF votes(1)] by (simp add: state_change_of_votes_def comp_def)
  moreover have sc: "sc_state ?sc = qv_state vote" "sc_block_height ?sc = qv_block_height vote"
    by (simp_all add: state_change_of_votes_def)
  ultimately show ?thesis
    using enough kind window q unfolding backed_def
    by (simp add: verify_tx_state_change_def Let_def bounds_check_worker_index_def check_state_change_votes_iff not_le not_less)
qed

lemma handle_obligations_vote_submits:
  assumes "STATE_CHANGE_MIN_VOTES_TO_CHANGE_STATE \<le> length votes"
    and "map_of (infos_of (nl_state (w_list w))) (workers q ! unat (qv_worker_index vote)) = Some info"
    and "can_transition_to_state info (cv_current_hard_fork_version V) (qv_block_height vote) (qv_state vote)"
    and "add_service_node_state_change_to_tx_extra [] (state_change_of_votes vote votes)
      (cv_current_hard_fork_version V) = Some extra"
  shows "\<exists>tx. handle_obligations_vote V vote votes q w = (cv_accepts_tx V tx, w\<lparr>w_submitted := w_submitted w @ [tx]\<rparr>) \<and>
    tx_type tx = tx_state_change \<and> tx_extra tx = extra"
proof -
  let ?tx = "\<lparr>tx_version = get_max_version_for_hf (cv_current_hard_fork_version V), tx_type = tx_state_change,
    tx_unlock_time = 0, tx_vin = [], tx_vout = [], tx_extra = extra,
    tx_output_unlock_times = [], tx_rct_signatures = \<lparr>rct_type = RCTTypeNull, rct_data = []\<rparr>\<rparr>"
  have "handle_obligations_vote V vote votes q w = (cv_accepts_tx V ?tx, w\<lparr>w_submitted := w_submitted w @ [?tx]\<rparr>)"
    using assms by (simp add: handle_obligations_vote_def Let_def get_service_node_list_state_def List.map_filter_def not_less)
  then show ?thesis by (intro exI [of _ ?tx]) simp
qed

lemma state_change_read_back:
  assumes "add_service_node_state_change_to_tx_extra [] sc hf = Some extra"
  shows "get_service_node_state_change_from_tx_extra extra hf = Some sc"
  using assms
  by (cases sc) (auto simp: add_service_node_state_change_to_tx_extra_def get_service_node_state_change_from_tx_extra_def
      not_le split: if_splits)

text \<open>The vote that completes the number of votes makes a transaction.\<close>

lemma last_vote_submits:
  assumes ok: "pool_ok (cv_crypto V) Q (cop_pool w)" "agrees Q (w_list w)"
    and quorum: "fst (get_quorum (w_list w) obligations (qv_block_height vote) False) = Some q"
      "length (validators q) \<le> STATE_CHANGE_QUORUM_SIZE"
    and vote: "qv_type vote = obligations" "verified (cv_crypto V) q vote" "qv_index_in_group vote \<notin> state_change_voters w vote"
      "STATE_CHANGE_MIN_VOTES_TO_CHANGE_STATE \<le> card (insert (qv_index_in_group vote) (state_change_voters w vote))"
    and window: "qv_block_height vote < cv_current_blockchain_height V"
      "cv_current_blockchain_height V < qv_block_height vote + STATE_CHANGE_TX_LIFETIME_IN_BLOCKS"
    and node: "map_of (infos_of (nl_state (w_list w))) (workers q ! unat (qv_worker_index vote)) = Some info"
      "can_transition_to_state info (cv_current_hard_fork_version V) (qv_block_height vote) (qv_state vote)"
    and kind: "qv_state vote = deregister \<or> network_version_12_checkpointing \<le> cv_current_hard_fork_version V"
      "new_state_value (qv_state vote) < 4"
  shows "\<exists>r vvc w' tx sc. handle_vote V vote w = ret (r, vvc, w') \<and> w_submitted w' = w_submitted w @ [tx] \<and>
    tx_type tx = tx_state_change \<and>
    get_service_node_state_change_from_tx_extra (tx_extra tx) (cv_current_hard_fork_version V) = Some sc \<and>
    sc_state sc = qv_state vote \<and> sc_block_height sc = qv_block_height vote \<and>
    sc_service_node_index sc = ucast (qv_worker_index vote) \<and>
    fst (verify_tx_state_change (cv_crypto V) sc (cv_current_blockchain_height V) tvc q (cv_current_hard_fork_version V))"
proof -
  let ?hf = "cv_current_hard_fork_version V" and ?C = "cv_crypto V"
  obtain r vvc w' vts pool where w': "handle_vote V vote w = ret (r, vvc, w')"
    "state_change_voters w' vote = insert (qv_index_in_group vote) (state_change_voters w vote)"
    and vts: "votes_sorted vts" "vote_index ` set vts = state_change_voters w' vote"
      "\<forall>v \<in> set vts. valid_for ?C Q obligations (pv_vote v)"
      "\<forall>v \<in> set vts. same_entry (obligations_entry_of (pv_vote v)) (obligations_entry_of vote)"
      "handle_obligations_vote V vote vts q (with_pool pool w) = (r, w')"
    using handle_state_change_vote [OF ok in_time [OF window] quorum(1) vote(1,2)] vote(3) by metis
  have many: "STATE_CHANGE_MIN_VOTES_TO_CHANGE_STATE \<le> length vts"
    using vote(4) vts(2) w'(2) card_length [of "map vote_index vts"] by simp
  let ?sc = "state_change_of_votes vote vts"
  obtain extra where extra: "add_service_node_state_change_to_tx_extra [] ?sc ?hf = Some extra"
    using kind(1) by (fastforce simp: add_service_node_state_change_to_tx_extra_def state_change_of_votes_def not_less)
  obtain tx where tx: "w_submitted w' = w_submitted w @ [tx]" "tx_type tx = tx_state_change" "tx_extra tx = extra"
    using handle_obligations_vote_submits [OF many _ node(2) extra, of "with_pool pool w" q] vts(5) node(1) by auto
  have "get_service_node_state_change_from_tx_extra (tx_extra tx) ?hf = Some ?sc"
    using state_change_read_back [OF extra] tx(3) by simp
  moreover have Q: "Q obligations (qv_block_height vote) = q" using ok(2) quorum(1) by (auto simp: agrees_def)
  have "fst (verify_tx_state_change ?C ?sc (cv_current_blockchain_height V) tvc q ?hf)"
    by (rule state_change_verifies [OF vts(1,3,4) _ Q quorum(2) many window kind]) (use vote Q in \<open>simp add: valid_for_def\<close>)
  ultimately show ?thesis using w'(1) tx(1,2) by (auto simp: state_change_of_votes_def)
qed


section \<open>Enough votes make a checkpoint\<close>

definition good_signatures :: "crypto_ops \<Rightarrow> quorum \<Rightarrow> hash256 \<Rightarrow> voter_to_signature list \<Rightarrow> bool" where
  "good_signatures C q hash sigs \<longleftrightarrow> sorted_wrt (<) (map vs_voter_index sigs) \<and> (\<forall>s \<in> set sigs. valid_checkpoint_vote C q hash s)"

lemma good_signatures_length:
  assumes "good_signatures C q hash sigs"
  shows "length sigs \<le> length (validators q)"
proof -
  have dist: "distinct (map vs_voter_index sigs)" using assms by (simp add: good_signatures_def strict_sorted_iff)
  have "card (unat ` vs_voter_index ` set sigs) \<le> card {..< length (validators q)}"
    using assms by (intro card_mono) (auto simp: good_signatures_def valid_checkpoint_vote_def)
  moreover have "card (unat ` vs_voter_index ` set sigs) = card (vs_voter_index ` set sigs)"
    by (intro card_image) (simp add: inj_on_def word_unat_eq_iff)
  ultimately show ?thesis using distinct_card [OF dist] by simp
qed

lemma good_signatures_verify:
  assumes "good_signatures C q (cp_block_hash cp) (cp_signatures cp)" and "length (validators q) \<le> CHECKPOINT_QUORUM_SIZE"
    and "CHECKPOINT_MIN_VOTES \<le> length (cp_signatures cp)" and "cp_height cp mod CHECKPOINT_INTERVAL = 0"
    and "cp_type cp = service_node"
  shows "verify_checkpoint C hf cp q"
proof -
  have "check_checkpoint_votes C hf q (cp_block_hash cp) (\<lambda>_. 0) (cp_signatures cp)"
    using assms(1) by (simp add: check_checkpoint_votes_iff good_signatures_def strict_sorted_iff)
  moreover have "\<not> CHECKPOINT_QUORUM_SIZE < length (cp_signatures cp)"
    using good_signatures_length [OF assms(1)] assms(2) by simp
  ultimately show ?thesis using assms(3-5) by (simp add: verify_checkpoint_def)
qed

lemma verified_signatures:
  assumes "verify_checkpoint C hf cp q"
  shows "good_signatures C q (cp_block_hash cp) (sort_key vs_voter_index (cp_signatures cp))"
proof -
  have "distinct (map vs_voter_index (cp_signatures cp)) \<and>
      (\<forall>s \<in> set (cp_signatures cp). valid_checkpoint_vote C q (cp_block_hash cp) s)"
    using assms by (cases "cp_type cp") (auto simp: verify_checkpoint_def check_checkpoint_votes_iff split: if_splits)
  moreover have "distinct (map vs_voter_index (sort_key vs_voter_index (cp_signatures cp))) =
      distinct (map vs_voter_index (cp_signatures cp))"
    by (metis mset_map mset_sort distinct_count_atmost_1 mset_eq_imp_distinct_iff)
  ultimately show ?thesis by (simp add: good_signatures_def strict_sorted_iff)
qed

text \<open>Merging a signature keeps them ascending, loses none and has the voter in the end.\<close>

lemma merge_signature_good:
  assumes good: "good_signatures C q hash sigs" and valid: "valid_checkpoint_vote C q hash (signature_of_vote (pv_vote e))"
    and run: "merge_signature e (u, sigs) = (u', sigs')"
  shows "good_signatures C q hash sigs' \<and> set sigs \<subseteq> set sigs' \<and> vote_index e \<in> vs_voter_index ` set sigs' \<and>
    (\<not> u' \<longrightarrow> \<not> u \<and> sigs' = sigs)"
proof -
  let ?i = "vote_index e" and ?new = "signature_of_vote (pv_vote e)"
  define before where "before = takeWhile (\<lambda>s. vs_voter_index s < ?i) sigs"
  define after where "after = dropWhile (\<lambda>s. vs_voter_index s < ?i) sigs"
  have split: "sigs = before @ after" by (simp add: before_def after_def)
  have new: "vs_voter_index ?new = ?i" by (simp add: signature_of_vote_def)
  have res: "(u', sigs') = (if after = [] \<or> ?i \<noteq> vs_voter_index (hd after) then (True, before @ ?new # after) else (u, sigs))"
    using run [symmetric] unfolding merge_signature_def Let_def case_prod_conv before_def after_def .
  show ?thesis
  proof (cases "after = [] \<or> ?i \<noteq> vs_voter_index (hd after)")
    case True
    have b: "\<forall>s \<in> set before. vs_voter_index s < ?i" by (auto simp: before_def dest: set_takeWhileD)
    have srt: "sorted_wrt (<) (map vs_voter_index (before @ after))" using good split by (simp add: good_signatures_def)
    have a: "\<forall>s \<in> set after. ?i < vs_voter_index s"
    proof (cases after)
      case (Cons s ss)
      have "\<not> vs_voter_index s < ?i" using Cons by (metis after_def dropWhile_eq_Cons_conv)
      with True Cons have "?i < vs_voter_index s" by auto
      moreover have "\<forall>t \<in> set ss. vs_voter_index s < vs_voter_index t" using srt Cons by (simp add: sorted_wrt_append)
      ultimately show ?thesis using Cons by (auto intro: less_trans)
    qed simp
    have "sorted_wrt (<) (map vs_voter_index (before @ ?new # after))"
      using srt a b new by (simp add: sorted_wrt_append)
    moreover have "u'" "sigs' = before @ ?new # after" using res True by simp_all
    ultimately show ?thesis using good valid new split by (auto simp: good_signatures_def)
  next
    case False
    then have "u' = u" "sigs' = sigs" using res by simp_all
    moreover have "hd after \<in> set sigs" using False split by (simp add: hd_in_set)
    then have "?i \<in> vs_voter_index ` set sigs" using False by (metis imageI)
    ultimately show ?thesis using good by simp
  qed
qed

lemma merge_signatures_good:
  assumes "good_signatures C q hash sigs" and "\<forall>e \<in> set votes. valid_checkpoint_vote C q hash (signature_of_vote (pv_vote e))"
    and "fold merge_signature votes (u, sigs) = (u', sigs')"
  shows "good_signatures C q hash sigs' \<and> set sigs \<subseteq> set sigs' \<and> vote_index ` set votes \<subseteq> vs_voter_index ` set sigs' \<and>
    (\<not> u' \<longrightarrow> \<not> u \<and> sigs' = sigs)"
  using assms
proof (induction votes arbitrary: u sigs)
  case (Cons e votes)
  obtain u1 s1 where one: "merge_signature e (u, sigs) = (u1, s1)" by fastforce
  have m: "good_signatures C q hash s1 \<and> set sigs \<subseteq> set s1 \<and> vote_index e \<in> vs_voter_index ` set s1 \<and> (\<not> u1 \<longrightarrow> \<not> u \<and> s1 = sigs)"
    by (rule merge_signature_good [OF Cons.prems(1) _ one]) (use Cons.prems(2) in simp)
  have "fold merge_signature votes (u1, s1) = (u', sigs')" using Cons.prems(3) one by simp
  from Cons.IH [OF _ _ this] m Cons.prems(2) show ?case by auto
qed simp

definition checkpoint_ballots :: "crypto_ops \<Rightarrow> quorum \<Rightarrow> quorum_vote_t \<Rightarrow> quorum_vote_t list \<Rightarrow> bool" where
  "checkpoint_ballots C q vote vs \<longleftrightarrow> distinct (map qv_index_in_group vs) \<and>
     (\<forall>v \<in> set vs. qv_type v = checkpointing \<and> checkpoint_entry_of v = checkpoint_entry_of vote \<and> verified C q v)"

text \<open>What is stored for the block of the vote, if anything, is in order.\<close>

definition stored_ok :: "crypto_ops \<Rightarrow> u8 \<Rightarrow> quorum \<Rightarrow> quorum_vote_t \<Rightarrow> checkpoints \<Rightarrow> bool" where
  "stored_ok C hf q vote ck \<longleftrightarrow> table_ok (ck_db ck) \<and>
     (\<forall>cp. get_checkpoint ck (qv_block_height vote) = Some cp \<longrightarrow> cp_block_hash cp = qv_block_hash vote \<longrightarrow> verify_checkpoint C hf cp q)"

definition checkpoint_made :: "crypto_ops \<Rightarrow> u8 \<Rightarrow> quorum \<Rightarrow> quorum_vote_t \<Rightarrow> checkpoints \<Rightarrow> bool" where
  "checkpoint_made C hf q vote ck \<longleftrightarrow> (\<exists>cp. get_checkpoint ck (qv_block_height vote) = Some cp \<and>
     cp_block_hash cp = qv_block_hash vote \<and> cp_type cp = service_node \<and> verify_checkpoint C hf cp q)"

lemma get_checkpoint_height: "table_ok (ck_db ck) \<Longrightarrow> get_checkpoint ck h = Some cp \<Longrightarrow> cp_height cp = h"
  by (auto simp: get_checkpoint_def get_block_checkpoint_def convert_mdb_val_to_checkpoint_def Let_def table_ok_def
      buffer_ok_def dest!: map_of_SomeD bspec)

lemma signed_votes_valid:
  assumes "\<forall>v \<in> set votes. valid_for C Q checkpointing (pv_vote v)"
    and "\<forall>v \<in> set votes. same_entry (checkpoint_entry_of (pv_vote v)) (checkpoint_entry_of vote)"
    and "Q checkpointing (qv_block_height vote) = q"
  shows "\<forall>v \<in> set votes. valid_checkpoint_vote C q (qv_block_hash vote) (signature_of_vote (pv_vote v))"
proof
  fix v assume v: "v \<in> set votes"
  have same: "qv_block_height (pv_vote v) = qv_block_height vote" "qv_block_hash (pv_vote v) = qv_block_hash vote"
    using assms(2) v by (auto simp: same_entry_def checkpoint_entry_of_def)
  have "verified C q (pv_vote v)" "qv_type (pv_vote v) = checkpointing" using assms(1,3) v same(1) by (auto simp: valid_for_def)
  from verified_checkpointing [OF this] show "valid_checkpoint_vote C q (qv_block_hash vote) (signature_of_vote (pv_vote v))"
    by (simp add: valid_checkpoint_vote_def signature_of_vote_def same)
qed

text \<open>The checkpoint made of the votes has good signatures and is new or what is stored.\<close>

lemma checkpoint_of_votes_good:
  assumes votes: "votes_sorted votes" "\<forall>v \<in> set votes. valid_checkpoint_vote C q (qv_block_hash vote) (signature_of_vote (pv_vote v))"
      "CHECKPOINT_MIN_VOTES \<le> length votes"
    and stored: "stored_ok C hf q vote ck"
    and run: "checkpoint_of_votes vote votes (get_checkpoint ck (qv_block_height vote)) = (changed, cp)"
  shows "(if changed then cp_height cp = qv_block_height vote \<and> cp_block_hash cp = qv_block_hash vote \<and>
      good_signatures C q (qv_block_hash vote) (cp_signatures cp) \<and> CHECKPOINT_MIN_VOTES \<le> length (cp_signatures cp)
    else checkpoint_made C hf q vote ck)"
proof -
  let ?fresh = "(make_empty_service_node_checkpoint (qv_block_hash vote) (qv_block_height vote))
    \<lparr>cp_signatures := map (\<lambda>e. signature_of_vote (pv_vote e)) votes\<rparr>"
  have idx: "map vs_voter_index (map (\<lambda>e. signature_of_vote (pv_vote e)) votes) = map vote_index votes"
    by (simp add: signature_of_vote_def)
  have "good_signatures C q (qv_block_hash vote) (map (\<lambda>e. signature_of_vote (pv_vote e)) votes)"
    unfolding good_signatures_def idx using votes(1,2) by (auto simp: votes_sorted_def)
  then have fresh: ?thesis if "(changed, cp) = (True, ?fresh)"
    using that votes(3) by (simp add: make_empty_service_node_checkpoint_def)
  show ?thesis
  proof (cases "get_checkpoint ck (qv_block_height vote)")
    case None
    then show ?thesis using run fresh by (simp add: checkpoint_of_votes_def Let_def)
  next
    case (Some old)
    show ?thesis
    proof (cases "cp_block_hash old = qv_block_hash vote")
      case False
      then show ?thesis using run Some fresh by (simp add: checkpoint_of_votes_def Let_def)
    next
      case hash: True
      have old: "verify_checkpoint C hf old q" using stored Some hash by (simp add: stored_ok_def)
      have made: "checkpoint_made C hf q vote ck" if "cp_signatures old \<noteq> []"
        using Some hash old that
        by (cases "cp_type old") (auto simp: checkpoint_made_def verify_checkpoint_def)
      show ?thesis
      proof (cases "length (cp_signatures old) \<noteq> CHECKPOINT_QUORUM_SIZE")
        case False
        then have "cp_signatures old \<noteq> []" by (auto simp: const_defs)
        with made False run Some hash show ?thesis by (auto simp: checkpoint_of_votes_def Let_def)
      next
        case True
        obtain u sigs where m: "fold merge_signature votes (False, sort_key vs_voter_index (cp_signatures old)) = (u, sigs)" by fastforce
        note merged = merge_signatures_good [OF verified_signatures [OF old, unfolded hash] votes(2) m]
        have res: "changed = u" "cp = old\<lparr>cp_signatures := sigs\<rparr>"
          using run Some hash True by (auto simp: checkpoint_of_votes_def Let_def m)
        have "card (vote_index ` set votes) = length votes"
          using votes(1) distinct_card [of "map vote_index votes"] by (simp add: votes_sorted_def strict_sorted_iff)
        moreover have "card (vote_index ` set votes) \<le> card (vs_voter_index ` set sigs)"
          using merged by (intro card_mono) auto
        moreover have "card (vs_voter_index ` set sigs) \<le> length sigs"
          using card_length [of "map vs_voter_index sigs"] by simp
        ultimately have many: "CHECKPOINT_MIN_VOTES \<le> length sigs" using votes(3) by simp
        have "cp_signatures old \<noteq> []" if "\<not> u"
        proof -
          have "length sigs = length (cp_signatures old)" using merged that by simp
          with many show ?thesis by (auto simp: const_defs)
        qed
        with many merged made res hash get_checkpoint_height [OF _ Some] stored show ?thesis by (auto simp: stored_ok_def)
      qed
    qed
  qed
qed

lemma handle_checkpoint_vote_stores:
  assumes votes: "votes_sorted votes" "\<forall>v \<in> set votes. valid_checkpoint_vote C q (qv_block_hash vote) (signature_of_vote (pv_vote v))"
    and stored: "stored_ok C hf q vote (w_checkpoints w)"
    and size: "length (validators q) \<le> CHECKPOINT_QUORUM_SIZE" and interval: "qv_block_height vote mod CHECKPOINT_INTERVAL = 0"
  obtains w' where "handle_checkpoint_vote vote votes w = ret (True, w')" "w_cop w' = w_cop w" "w_list w' = w_list w"
    "stored_ok C hf q vote (w_checkpoints w')"
    "CHECKPOINT_MIN_VOTES \<le> length votes \<longrightarrow> checkpoint_made C hf q vote (w_checkpoints w')"
proof (cases "length votes < CHECKPOINT_MIN_VOTES")
  case True
  then show thesis using that [of w] stored by (simp add: handle_checkpoint_vote_def)
next
  case False
  obtain changed cp where cp: "checkpoint_of_votes vote votes (get_checkpoint (w_checkpoints w) (qv_block_height vote)) = (changed, cp)"
    by fastforce
  from False have "CHECKPOINT_MIN_VOTES \<le> length votes" by simp
  note good = checkpoint_of_votes_good [OF votes this stored cp]
  show thesis
  proof (cases changed)
    case unchanged: False
    with False cp good stored show thesis using that [of w] by (simp add: handle_checkpoint_vote_def)
  next
    case True
    with good have h: "cp_height cp = qv_block_height vote" "cp_block_hash cp = qv_block_hash vote"
      and sigs: "good_signatures C q (qv_block_hash vote) (cp_signatures cp)" "CHECKPOINT_MIN_VOTES \<le> length (cp_signatures cp)"
      by simp_all
    have table: "table_ok (ck_db (w_checkpoints w))" "om_wf (ck_db (w_checkpoints w))"
      using stored by (simp_all add: stored_ok_def table_ok_def)
    have "length (cp_signatures cp) \<le> CHECKPOINT_QUORUM_SIZE" using good_signatures_length [OF sigs(1)] size by simp
    from checkpoint_stored [OF table(2) this] obtain b where b: "buffer_ok (cp_height cp, b)"
      and run: "update_checkpoint cp (w_checkpoints w) =
        ret (True, (w_checkpoints w)\<lparr>ck_db := om_assign_key (cp_height cp) b (ck_db (w_checkpoints w))\<rparr>)"
      and get: "get_checkpoint ((w_checkpoints w)\<lparr>ck_db := om_assign_key (cp_height cp) b (ck_db (w_checkpoints w))\<rparr>) (cp_height cp) =
        Some (cp\<lparr>cp_version := 0, cp_prev_height := 0, cp_type := (if cp_signatures cp = [] then hardcoded else service_node)\<rparr>)"
      by blast
    let ?ck = "(w_checkpoints w)\<lparr>ck_db := om_assign_key (cp_height cp) b (ck_db (w_checkpoints w))\<rparr>"
    have some: "cp_signatures cp \<noteq> []" using sigs(2) by (auto simp: const_defs)
    let ?cp = "cp\<lparr>cp_version := 0, cp_prev_height := 0, cp_type := service_node\<rparr>"
    have "verify_checkpoint C hf ?cp q" by (rule good_signatures_verify) (use sigs h size interval in simp_all)
    with get h some have made: "checkpoint_made C hf q vote ?ck" "stored_ok C hf q vote ?ck"
      using table_ok_assign [OF table(1) b] by (auto simp: checkpoint_made_def stored_ok_def)
    have "handle_checkpoint_vote vote votes w = ret (True, w\<lparr>w_checkpoints := ?ck\<rparr>)"
      using False cp True run by (simp add: handle_checkpoint_vote_def of_checkpoint_error_def ret_def rbind_def)
    then show thesis by (rule that) (use made in simp_all)
  qed
qed

lemma handle_block_vote:
  assumes ok: "pool_ok (cv_crypto V) Q (cop_pool w)" and agr: "agrees Q (w_list w)"
    and age: "fst (verify_vote_age vote (cv_current_blockchain_height V) clean_vvc)"
    and quorum: "fst (get_quorum (w_list w) checkpointing (qv_block_height vote) False) = Some q"
      "length (validators q) \<le> CHECKPOINT_QUORUM_SIZE"
    and vote: "qv_type vote = checkpointing" "verified (cv_crypto V) q vote"
    and stored: "stored_ok (cv_crypto V) hf q vote (w_checkpoints w)" and interval: "qv_block_height vote mod CHECKPOINT_INTERVAL = 0"
  obtains vvc w' where "handle_vote V vote w = ret (True, vvc, w')"
    "pool_ok (cv_crypto V) Q (cop_pool w')" "w_list w' = w_list w" "stored_ok (cv_crypto V) hf q vote (w_checkpoints w')"
    "checkpoint_voters w' vote = insert (qv_index_in_group vote) (checkpoint_voters w vote)"
    "qv_index_in_group vote \<notin> checkpoint_voters w vote \<Longrightarrow> CHECKPOINT_MIN_VOTES \<le> card (checkpoint_voters w' vote) \<Longrightarrow>
      checkpoint_made (cv_crypto V) hf q vote (w_checkpoints w')"
proof -
  have Q: "Q checkpointing (qv_block_height vote) = q" using agr quorum(1) by (auto simp: agrees_def)
  then have valid: "valid_for (cv_crypto V) Q checkpointing vote" using vote by (simp add: valid_for_def)
  have quorum': "fst (get_quorum (w_list w) (qv_type vote) (qv_block_height vote) False) = Some q"
    using quorum(1) vote(1) by simp
  obtain vvc0 votes vvc pool where
    add: "add_pool_vote_if_unique vote vvc0 (cop_pool w) = (votes, vvc, pool)" and
    run: "handle_vote V vote w =
       (if \<not> vote_verification_context.m_added_to_pool vvc then ret (True, vvc, with_pool pool w)
        else if qv_type vote = obligations
        then (let (result, w) = handle_obligations_vote V vote votes q (with_pool pool w) in ret (result, vvc, w))
        else rbind (handle_checkpoint_vote vote votes (with_pool pool w)) (\<lambda>(result, w). ret (result, vvc, w)))"
    by (rule handle_vote_pooled [OF age quorum' vote(2)])
  note added = add_pool_vote_checkpointing [OF ok valid add]
  have stored': "stored_ok (cv_crypto V) hf q vote (w_checkpoints (with_pool pool w))" using stored by simp
  obtain w1 where w1: "handle_checkpoint_vote vote votes (with_pool pool w) = ret (True, w1)"
    "w_cop w1 = w_cop (with_pool pool w)" "w_list w1 = w_list (with_pool pool w)"
    "stored_ok (cv_crypto V) hf q vote (w_checkpoints w1)"
    "CHECKPOINT_MIN_VOTES \<le> length votes \<longrightarrow> checkpoint_made (cv_crypto V) hf q vote (w_checkpoints w1)"
    by (rule handle_checkpoint_vote_stores [OF added(2) signed_votes_valid [OF added(3,4) Q] stored' quorum(2) interval])
  have len: "length votes = card (vote_index ` set votes)"
    using distinct_card [of "map vote_index votes"] added(2) by (simp add: votes_sorted_def strict_sorted_iff)
  let ?w = "if vote_verification_context.m_added_to_pool vvc then w1 else with_pool pool w"
  have voters: "vote_index ` set votes = insert (qv_index_in_group vote) (checkpoint_voters w vote)"
    using added(5,7) by (auto simp: checkpoint_voters_def split: if_splits)
  have pool: "cop_pool ?w = pool" "w_list ?w = w_list w" using w1(2,3) by simp_all
  have now: "checkpoint_voters ?w vote = vote_index ` set votes"
    unfolding checkpoint_voters_def pool(1) added(6) ..
  show thesis
  proof (rule that [of vvc ?w])
    show "handle_vote V vote w = ret (True, vvc, ?w)" using run vote(1) w1(1) by simp
    show "pool_ok (cv_crypto V) Q (cop_pool ?w)" using added(1) pool(1) by simp
    show "w_list ?w = w_list w" by (rule pool(2))
    show "stored_ok (cv_crypto V) hf q vote (w_checkpoints ?w)" using stored w1(4) by simp
    show "checkpoint_voters ?w vote = insert (qv_index_in_group vote) (checkpoint_voters w vote)" using now voters by simp
    assume "qv_index_in_group vote \<notin> checkpoint_voters w vote" and many: "CHECKPOINT_MIN_VOTES \<le> card (checkpoint_voters ?w vote)"
    then have "vote_verification_context.m_added_to_pool vvc" using added(7) by (simp add: checkpoint_voters_def)
    moreover have "CHECKPOINT_MIN_VOTES \<le> length votes" using many now len by simp
    ultimately show "checkpoint_made (cv_crypto V) hf q vote (w_checkpoints ?w)" using w1(5) by simp
  qed
qed

lemma handle_block_votes:
  assumes "pool_ok (cv_crypto V) Q (cop_pool w)" and "agrees Q (w_list w)"
    and "\<forall>v \<in> set vs. fst (verify_vote_age v (cv_current_blockchain_height V) clean_vvc)"
    and "fst (get_quorum (w_list w) checkpointing (qv_block_height vote) False) = Some q"
    and "length (validators q) \<le> CHECKPOINT_QUORUM_SIZE" and "checkpoint_ballots (cv_crypto V) q vote vs"
    and "stored_ok (cv_crypto V) hf q vote (w_checkpoints w)" and "qv_block_height vote mod CHECKPOINT_INTERVAL = 0"
  obtains w' where "handle_votes V vs w = ret w'" "pool_ok (cv_crypto V) Q (cop_pool w')" "w_list w' = w_list w"
    "stored_ok (cv_crypto V) hf q vote (w_checkpoints w')"
    "checkpoint_voters w' vote = qv_index_in_group ` set vs \<union> checkpoint_voters w vote"
  using assms
proof (induction vs arbitrary: w thesis)
  case Nil
  then show ?case by simp
next
  case (Cons v vs)
  have v: "qv_type v = checkpointing" "checkpoint_entry_of v = checkpoint_entry_of vote" "verified (cv_crypto V) q v"
    and vs: "checkpoint_ballots (cv_crypto V) q vote vs" using Cons.prems(7) by (auto simp: checkpoint_ballots_def)
  have same: "qv_block_height v = qv_block_height vote" "qv_block_hash v = qv_block_hash vote"
    using v(2) by (simp_all add: checkpoint_entry_of_def)
  have voters: "checkpoint_voters w v = checkpoint_voters w vote" for w using v(2) by (simp add: checkpoint_voters_def)
  have quorum: "fst (get_quorum (w_list w) checkpointing (qv_block_height v) False) = Some q"
    and stored: "stored_ok (cv_crypto V) hf q v (w_checkpoints w)" and interval: "qv_block_height v mod CHECKPOINT_INTERVAL = 0"
    using Cons.prems(5,8,9) same by (simp_all add: stored_ok_def)
  have age: "fst (verify_vote_age v (cv_current_blockchain_height V) clean_vvc)" using Cons.prems(4) by simp
  obtain vvc w1 where one: "handle_vote V v w = ret (True, vvc, w1)" "pool_ok (cv_crypto V) Q (cop_pool w1)"
    "w_list w1 = w_list w" "stored_ok (cv_crypto V) hf q v (w_checkpoints w1)"
    "checkpoint_voters w1 v = insert (qv_index_in_group v) (checkpoint_voters w v)"
    by (rule handle_block_vote [OF Cons.prems(2,3) age quorum Cons.prems(6) v(1,3) stored interval]) blast
  have rest: "agrees Q (w_list w1)" "fst (get_quorum (w_list w1) checkpointing (qv_block_height vote) False) = Some q"
    "\<forall>v \<in> set vs. fst (verify_vote_age v (cv_current_blockchain_height V) clean_vvc)"
    "stored_ok (cv_crypto V) hf q vote (w_checkpoints w1)"
    using Cons.prems(3-5) one(3,4) same by (simp_all add: stored_ok_def)
  obtain w' where w': "handle_votes V vs w1 = ret w'" "pool_ok (cv_crypto V) Q (cop_pool w')" "w_list w' = w_list w1"
    "stored_ok (cv_crypto V) hf q vote (w_checkpoints w')"
    "checkpoint_voters w' vote = qv_index_in_group ` set vs \<union> checkpoint_voters w1 vote"
    by (rule Cons.IH [OF _ one(2) rest(1,3,2) Cons.prems(6) vs rest(4) Cons.prems(9)])
  show ?case by (rule Cons.prems(1) [of w']) (use one w' voters in auto)
qed

text \<open>
  C12: valid votes of at least thirteen different validators of a checkpointing quorum for the block
  at a checkpoint height, handled one after the other in any order, end with a checkpoint of this
  block in the database that passes \<^verbatim>\<open>verify_checkpoint\<close>, whether it is made from the votes, replaces one
  of another block, or is a stored one whose signatures the votes complete.
\<close>

theorem enough_votes_make_checkpoint:
  assumes run: "cop_reachable (cv_crypto V) (Q, w)" "agrees Q (w_list w)"
    and quorum: "fst (get_quorum (w_list w) checkpointing (qv_block_height vote) False) = Some q"
      "length (validators q) \<le> CHECKPOINT_QUORUM_SIZE"
    and votes: "checkpoint_ballots (cv_crypto V) q vote (vs @ [vote])" "CHECKPOINT_MIN_VOTES \<le> length (vs @ [vote])"
      "qv_index_in_group vote \<notin> checkpoint_voters w vote"
    and age: "fst (verify_vote_age vote (cv_current_blockchain_height V) clean_vvc)"
    and interval: "qv_block_height vote mod CHECKPOINT_INTERVAL = 0"
    and stored: "stored_ok (cv_crypto V) hf q vote (w_checkpoints w)"
  shows "\<exists>w' cp. handle_votes V (vs @ [vote]) w = ret w' \<and>
    get_checkpoint (w_checkpoints w') (qv_block_height vote) = Some cp \<and> cp_block_hash cp = qv_block_hash vote \<and>
    cp_type cp = service_node \<and> verify_checkpoint (cv_crypto V) hf cp q"
proof -
  let ?C = "cv_crypto V"
  have ballots: "checkpoint_ballots ?C q vote vs" and vote: "qv_type vote = checkpointing" "verified ?C q vote"
    and fresh: "qv_index_in_group vote \<notin> qv_index_in_group ` set vs" "distinct (map qv_index_in_group vs)"
    using votes(1) by (auto simp: checkpoint_ballots_def)
  have ages: "\<forall>v \<in> set vs. fst (verify_vote_age v (cv_current_blockchain_height V) clean_vvc)"
  proof
    fix v assume "v \<in> set vs"
    then have "qv_block_height v = qv_block_height vote" using ballots by (auto simp: checkpoint_ballots_def checkpoint_entry_of_def)
    with age show "fst (verify_vote_age v (cv_current_blockchain_height V) clean_vvc)" by (simp add: verify_vote_age_def)
  qed
  obtain w1 where w1: "handle_votes V vs w = ret w1" "pool_ok ?C Q (cop_pool w1)" "w_list w1 = w_list w"
    "stored_ok ?C hf q vote (w_checkpoints w1)"
    "checkpoint_voters w1 vote = qv_index_in_group ` set vs \<union> checkpoint_voters w vote"
    by (rule handle_block_votes [OF cop_reachable_pool_ok [OF run(1)] run(2) ages quorum ballots stored interval])
  have agr: "agrees Q (w_list w1)" "fst (get_quorum (w_list w1) checkpointing (qv_block_height vote) False) = Some q"
    using run(2) quorum(1) w1(3) by simp_all
  have first: "qv_index_in_group vote \<notin> checkpoint_voters w1 vote" using w1(5) fresh(1) votes(3) by auto
  have sub: "qv_index_in_group ` set (vs @ [vote]) \<subseteq> insert (qv_index_in_group vote) (checkpoint_voters w1 vote)"
    using w1(5) by auto
  have "distinct (map qv_index_in_group (vs @ [vote]))" using fresh by simp
  from distinct_card [OF this] have "card (qv_index_in_group ` set (vs @ [vote])) = length (vs @ [vote])" by (metis length_map list.set_map)
  with card_mono [OF finite sub] votes(2)
  have many: "CHECKPOINT_MIN_VOTES \<le> card (insert (qv_index_in_group vote) (checkpoint_voters w1 vote))" by linarith
  obtain vvc w' where w': "handle_vote V vote w1 = ret (True, vvc, w')" "checkpoint_made ?C hf q vote (w_checkpoints w')"
    by (rule handle_block_vote [OF w1(2) agr(1) age agr(2) quorum(2) vote w1(4) interval]) (use first many in simp)
  have "handle_votes V (vs @ [vote]) w = ret w'" using w1(1) w'(1) by (simp add: handle_votes_append)
  then show ?thesis using w'(2) by (auto simp: checkpoint_made_def)
qed

section \<open>Examples\<close>

text \<open>The quorums a list finds, as a table.\<close>

definition table_of :: "service_node_list \<Rightarrow> quorum_table" where
  "table_of nl type height =
     (case fst (get_quorum nl type height False) of None \<Rightarrow> \<lparr>validators = [], workers = []\<rparr> | Some q \<Rightarrow> q)"

lemma agrees_table_of: "agrees (table_of nl) nl"
  by (simp add: agrees_def table_of_def)

definition voted_node :: service_node_info where
  "voted_node = default_info\<lparr>active_since_height := 100\<rparr>"

abbreviation voted_world :: cop_world where
  "voted_world \<equiv> cop_example_world [(21, voted_node)]"

text \<open>Votes of the seven validators of the example quorum to decommission its first worker.\<close>

definition ballot :: "nat \<Rightarrow> quorum_vote_t" where
  "ballot i = make_state_change_vote example_crypto 989 (of_nat i) 0 decommission
     \<lparr>sn_key = 0, sn_pub = of_nat (11 + i), sn_key_ed25519 = 0, sn_pub_ed25519 = 0\<rparr>"

abbreviation seven_quorum :: quorum where
  "seven_quorum \<equiv> \<lparr>validators = [11, 12, 13, 14, 15, 16, 17], workers = [21, 22]\<rparr>"

lemma voted_world_parts:
  "fst (get_quorum (w_list voted_world) obligations 989 False) = Some seven_quorum"
  "map_of (infos_of (nl_state (w_list voted_world))) 21 = Some voted_node"
  "qc_vote_pool (w_cop voted_world) = empty_voting_pool"
  by (simp_all add: cop_example_world_def cop_list_def get_quorum_def find_quorums_def offset_testing_quorum_height_def)

lemma ballot_fields:
  "qv_type (ballot i) = obligations" "qv_block_height (ballot i) = 989" "qv_worker_index (ballot i) = 0"
  "qv_state (ballot i) = decommission" "qv_index_in_group (ballot i) = of_nat i" "qv_group (ballot i) = group_validator"
  "qv_signature (ballot i) = ucast (make_state_change_vote_hash example_crypto 989 0 decommission) + ucast (of_nat (11 + i) :: public_key)"
  by (simp_all add: ballot_def make_state_change_vote_def make_signature_from_vote_def Let_def)
    (simp add: example_crypto_def)

lemma ballot_verified: "i < 7 \<Longrightarrow> verified example_crypto seven_quorum (ballot i)"
proof -
  assume "i < 7"
  then have "i \<in> {0, 1, 2, 3, 4, 5, 6}" by auto
  then show ?thesis
    by (auto simp: verified_def verify_vote_signature_def ballot_fields Let_def bounds_check_validator_index_def bounds_check_worker_index_def)
      (simp_all add: example_crypto_def)
qed

lemma handle_votes_reachable:
  assumes "cop_reachable (cv_crypto V) (Q, w)" and "agrees Q (w_list w)" and "handle_votes V vs w = ret w'"
  shows "cop_reachable (cv_crypto V) (Q, w')"
  using assms
proof (induction vs arbitrary: w)
  case (Cons v vs)
  obtain r vvc w1 where v: "handle_vote V v w = ret (r, vvc, w1)" "handle_votes V vs w1 = ret w'"
    using Cons.prems(3) by (auto simp: rbind_eq_ret_iff)
  have "cop_reachable (cv_crypto V) (Q, w1)"
    by (rule cop_next [OF Cons.prems(1)]) (rule cop_vote [OF refl Cons.prems(2) v(1)])
  moreover have "agrees Q (w_list w1)"
    using cop_ok_handle_vote [OF cop_ok_start [OF cop_reachable_pool_ok [OF Cons.prems(1)] Cons.prems(2)] refl v(1)]
    by (simp add: cop_ok_def)
  ultimately show ?case using Cons.IH v(2) by blast
qed simp

lemma example_ballots:
  "ballots example_crypto seven_quorum (ballot 6) (map ballot [0 ..< n])" if "n \<le> 7"
proof -
  have "distinct (map (\<lambda>i. of_nat i :: u16) [0 ..< n])"
    using that by (auto simp: distinct_map inj_on_def word_unat_eq_iff unat_of_nat take_bit_eq_mod)
  then show ?thesis
    using that ballot_verified by (auto simp: ballots_def ballot_fields obligations_entry_of_def comp_def)
qed

lemma voted_transition: "can_transition_to_state voted_node 16 989 decommission"
  by (simp add: can_transition_to_state_def can_be_voted_on_def is_active_def is_fully_funded_def is_decommissioned_def
      voted_node_def default_info_def const_defs)

lemma cop_view_parts:
  "cv_crypto cop_view = example_crypto" "cv_current_blockchain_height cop_view = 1010"
  "cv_current_hard_fork_version cop_view = 16"
  by (simp_all add: cop_view_def)

lemma no_voters: "state_change_voters voted_world v = {}" "checkpoint_voters voted_world v = {}"
  by (simp_all add: state_change_voters_def checkpoint_voters_def voted_world_parts empty_voting_pool_def entry_votes_def)

lemma six_ballots:
  obtains w where "handle_votes cop_view (map ballot [0 ..< 6]) voted_world = ret w"
    "pool_ok example_crypto (table_of (w_list voted_world)) (cop_pool w)" "w_list w = w_list voted_world"
    "state_change_voters w (ballot 6) = {0, 1, 2, 3, 4, 5}"
proof -
  have ages: "\<forall>v \<in> set (map ballot [0 ..< 6]). fst (verify_vote_age v (cv_current_blockchain_height cop_view) clean_vvc)"
    by (auto simp: verify_vote_age_def ballot_fields cop_view_def clean_vvc_def const_defs)
  note C = cop_view_parts(1)
  have "cop_reachable example_crypto (table_of (w_list voted_world), voted_world)"
    by (rule cop_start) (rule voted_world_parts)
  note ok = cop_reachable_pool_ok [OF this]
  have quorum: "fst (get_quorum (w_list voted_world) obligations (qv_block_height (ballot 6)) False) = Some seven_quorum"
    using voted_world_parts(1) by (simp add: ballot_fields)
  obtain w where w: "handle_votes cop_view (map ballot [0 ..< 6]) voted_world = ret w"
    "pool_ok example_crypto (table_of (w_list voted_world)) (cop_pool w)" "w_list w = w_list voted_world"
    "state_change_voters w (ballot 6) = qv_index_in_group ` set (map ballot [0 ..< 6]) \<union> state_change_voters voted_world (ballot 6)"
    by (rule handle_state_change_votes [of cop_view, unfolded C, OF ok agrees_table_of ages quorum example_ballots [of 6]]) simp_all
  have "set [0 ..< 6] = {0 :: nat, 1, 2, 3, 4, 5}" by auto
  with w(4) have "state_change_voters w (ballot 6) = {0, 1, 2, 3, 4, 5}" by (simp add: no_voters ballot_fields image_image)
  with w(1-3) that show thesis by blast
qed



text \<open>Votes of thirteen of the twenty validators for the block at height 1000.\<close>

definition block_ballot :: "nat \<Rightarrow> quorum_vote_t" where
  "block_ballot i = make_checkpointing_vote example_crypto 7 1000 (of_nat i)
     \<lparr>sn_key = 0, sn_pub = of_nat (100 + i), sn_key_ed25519 = 0, sn_pub_ed25519 = 0\<rparr>"

abbreviation twenty_quorum :: quorum where
  "twenty_quorum \<equiv> \<lparr>validators = map of_nat [100 ..< 120], workers = []\<rparr>"

lemma block_ballot_fields:
  "qv_type (block_ballot i) = checkpointing" "qv_block_height (block_ballot i) = 1000" "qv_block_hash (block_ballot i) = 7"
  "qv_index_in_group (block_ballot i) = of_nat i" "qv_group (block_ballot i) = group_validator"
  "qv_signature (block_ballot i) = 7 + ucast (of_nat (100 + i) :: public_key)"
  by (simp_all add: block_ballot_def make_checkpointing_vote_def make_signature_from_vote_def Let_def)
    (simp add: example_crypto_def)

lemma unat_of_nat_u16: "i < 2 ^ 16 \<Longrightarrow> unat (of_nat i :: u16) = i"
  by (simp add: unat_of_nat take_bit_eq_mod)

lemma block_ballot_verified: "i < 20 \<Longrightarrow> verified example_crypto twenty_quorum (block_ballot i)"
  by (simp add: verified_def verify_vote_signature_def block_ballot_fields Let_def bounds_check_validator_index_def
      unat_of_nat_u16 del: upt_rec_numeral) (simp add: example_crypto_def)

lemma example_block_ballots:
  "checkpoint_ballots example_crypto twenty_quorum (block_ballot 12) (map block_ballot [0 ..< n])" if "n \<le> 20"
proof -
  have "distinct (map (\<lambda>i. of_nat i :: u16) [0 ..< n])"
    using that by (auto simp: distinct_map inj_on_def word_unat_eq_iff unat_of_nat take_bit_eq_mod)
  then show ?thesis
    using that block_ballot_verified by (auto simp: checkpoint_ballots_def block_ballot_fields checkpoint_entry_of_def comp_def)
qed

theorem enough_votes_make_checkpoint_witness:
  "\<exists>w' cp. handle_votes cop_view (map block_ballot [0 ..< 12] @ [block_ballot 12]) voted_world = ret w' \<and>
     get_checkpoint (w_checkpoints w') 1000 = Some cp \<and> cp_block_hash cp = 7 \<and>
     verify_checkpoint example_crypto 16 cp twenty_quorum"
proof -
  let ?Q = "table_of (w_list voted_world)" and ?v = "block_ballot 12"
  have start: "cop_reachable (cv_crypto cop_view) (?Q, voted_world)" by (rule cop_start) (rule voted_world_parts)
  have vs: "checkpoint_ballots (cv_crypto cop_view) twenty_quorum ?v (map block_ballot [0 ..< 12] @ [?v])"
    using example_block_ballots [of 13] upt_Suc_append [of 0 12] by (simp add: cop_view_parts)
  have quorum: "fst (get_quorum (w_list voted_world) checkpointing (qv_block_height ?v) False) = Some twenty_quorum"
    by (simp add: block_ballot_fields cop_example_world_def cop_list_def get_quorum_def find_quorums_def
        offset_testing_quorum_height_def const_defs)
  have size: "length (validators twenty_quorum) \<le> CHECKPOINT_QUORUM_SIZE" by (simp add: const_defs)
  have many: "CHECKPOINT_MIN_VOTES \<le> length (map block_ballot [0 ..< 12] @ [?v])" by (simp add: const_defs)
  have first: "qv_index_in_group ?v \<notin> checkpoint_voters voted_world ?v" by (simp add: no_voters)
  have age: "fst (verify_vote_age ?v (cv_current_blockchain_height cop_view) clean_vvc)"
    by (simp add: verify_vote_age_def block_ballot_fields cop_view_parts clean_vvc_def const_defs)
  have interval: "qv_block_height ?v mod CHECKPOINT_INTERVAL = 0" by (simp add: block_ballot_fields const_defs)
  have "get_checkpoint (w_checkpoints voted_world) 1000 = None"
    by (simp add: cop_example_world_def get_checkpoint_def get_block_checkpoint_def mainnet_checkpoints_def
        mainnet_table_def hardcoded_buffer_def)
  then have stored: "stored_ok (cv_crypto cop_view) 16 twenty_quorum ?v (w_checkpoints voted_world)"
    using mainnet_table_ok by (simp add: stored_ok_def block_ballot_fields cop_example_world_def mainnet_checkpoints_def)
  show ?thesis
    using enough_votes_make_checkpoint [OF start agrees_table_of quorum size vs many first age interval stored]
    by (simp only: block_ballot_fields cop_view_parts) blast
qed

end
