(* ===== verification/Spec2Isabelle.thy ===== *)
theory Spec2Isabelle
  imports Staking_Rules Swarms Voting Staking_Properties Node_Properties List_Properties Cop_Votes
begin

text \<open>
  A verification development of the service node layer of the sispop daemon.
\<close>

end
